(* ===== verification/Zc_Prelude.thy ===== *)
theory Zc_Prelude
  imports Main "HOL-Library.Word"
begin

text \<open>
  Shared vocabulary of the development: the machine types of the C++ sources, the
  little-endian byte views of integers, and the two error monads used by every component.

  \<^item> unsigned integers are machine words (\<open>uint8_t\<close> is \<open>8 word\<close>, and so on);
  \<^item> signed integers (\<open>int\<close>, \<open>int32_t\<close>, \<open>int64_t\<close>, \<open>CAmount\<close>) are mathematical
    integers, and every arithmetic operation that could leave the range of its C++ type
    is wrapped explicitly with \<open>wrap32\<close> or \<open>wrap64\<close> (two's complement);
  \<^item> \<open>uint256\<close> is the 32-byte blob of \<open>uint256.h\<close>, seen as the number whose
    little-endian bytes are the blob;
  \<^item> an exception or an error return is a value \<open>Inl e\<close>, a normal result is \<open>Inr x\<close>.
\<close>

section \<open>Machine types\<close>

type_synonym byte = "8 word"
type_synonym bytes = "byte list"
type_synonym u16 = "16 word"
type_synonym u32 = "32 word"
type_synonym u64 = "64 word"
type_synonym uint256 = "256 word"

definition wrap32 :: "int \<Rightarrow> int" where
  "wrap32 x = signed_take_bit 31 x"

definition wrap64 :: "int \<Rightarrow> int" where
  "wrap64 x = signed_take_bit 63 x"

definition int32_range :: "int \<Rightarrow> bool" where
  "int32_range x \<longleftrightarrow> - (2 ^ 31) \<le> x \<and> x < 2 ^ 31"

definition int64_range :: "int \<Rightarrow> bool" where
  "int64_range x \<longleftrightarrow> - (2 ^ 63) \<le> x \<and> x < 2 ^ 63"

lemma wrap64_id [simp]: "int64_range x \<Longrightarrow> wrap64 x = x"
  unfolding wrap64_def int64_range_def by (rule signed_take_bit_int_eq_self) simp_all

lemma wrap32_id [simp]: "int32_range x \<Longrightarrow> wrap32 x = x"
  unfolding wrap32_def int32_range_def by (rule signed_take_bit_int_eq_self) simp_all

lemma wrap64_range: "int64_range (wrap64 x)"
  unfolding wrap64_def int64_range_def
  using signed_take_bit_int_greater_eq_minus_exp [of 63 x] signed_take_bit_int_less_exp [of 63 x]
  by simp

lemma wrap32_range: "int32_range (wrap32 x)"
  unfolding wrap32_def int32_range_def
  using signed_take_bit_int_greater_eq_minus_exp [of 31 x] signed_take_bit_int_less_exp [of 31 x]
  by simp

section \<open>Little-endian bytes\<close>

text \<open>
  \<open>nat_to_le n v\<close> are the \<open>n\<close> low bytes of \<open>v\<close>, least significant first: what
  \<open>htoleNN\<close> followed by a byte copy leaves in memory (\<open>compat/endian.h\<close>,
  \<open>crypto/common.h\<close>).
\<close>

fun nat_to_le :: "nat \<Rightarrow> nat \<Rightarrow> bytes" where
  "nat_to_le 0 v = []"
| "nat_to_le (Suc n) v = of_nat v # nat_to_le n (v div 256)"

fun le_to_nat :: "bytes \<Rightarrow> nat" where
  "le_to_nat [] = 0"
| "le_to_nat (b # bs) = unat b + 256 * le_to_nat bs"

lemma length_nat_to_le [simp]: "length (nat_to_le n v) = n"
  by (induction n arbitrary: v) auto

lemma unat_byte_less [simp]: "unat (b :: byte) < 256"
  using unsigned_less [of b, where ?'a = nat] by simp

lemma unat_of_nat_byte: "unat (of_nat v :: byte) = v mod 256"
  by (simp add: unat_of_nat take_bit_eq_mod)

lemma le_to_nat_nat_to_le [simp]: "le_to_nat (nat_to_le n v) = v mod 256 ^ n"
proof (induction n arbitrary: v)
  case 0
  then show ?case by simp
next
  case (Suc n)
  have "v mod 256 ^ Suc n = v mod 256 + 256 * (v div 256 mod 256 ^ n)"
    by (simp add: mod_mult2_eq)
  with Suc show ?case by (simp add: unat_of_nat_byte)
qed

lemma le_to_nat_less: "le_to_nat bs < 256 ^ length bs"
proof (induction bs)
  case (Cons b bs)
  have "unat b + 256 * le_to_nat bs < 256 + 256 * le_to_nat bs" by simp
  also have "\<dots> = 256 * Suc (le_to_nat bs)" by simp
  also have "\<dots> \<le> 256 * 256 ^ length bs" using Cons by (intro mult_le_mono2) simp
  finally show ?case by simp
qed simp

lemma nat_to_le_le_to_nat [simp]: "nat_to_le (length bs) (le_to_nat bs) = bs"
proof (induction bs)
  case (Cons b bs)
  have "(of_nat (unat b + 256 * le_to_nat bs) :: byte) = b"
    by (rule word_unat_eq_iff [THEN iffD2]) (simp only: unat_of_nat_byte, simp)
  moreover have "(unat b + 256 * le_to_nat bs) div 256 = le_to_nat bs"
    by (simp add: div_add1_eq)
  ultimately show ?case using Cons by simp
qed simp

lemma nat_to_le_inj:
  assumes "nat_to_le n a = nat_to_le n b" "a < 256 ^ n" "b < 256 ^ n"
  shows "a = b"
proof -
  from assms(1) have "le_to_nat (nat_to_le n a) = le_to_nat (nat_to_le n b)" by simp
  then show ?thesis using assms(2,3) by simp
qed

text \<open>The signed reading of an unsigned bit pattern (two's complement).\<close>

definition to_signed :: "nat \<Rightarrow> nat \<Rightarrow> int" where
  "to_signed w n = (if n < 2 ^ (w - 1) then int n else int n - 2 ^ w)"

definition of_signed :: "nat \<Rightarrow> int \<Rightarrow> nat" where
  "of_signed w x = nat (x mod 2 ^ w)"

lemma of_signed_less: "of_signed w x < 2 ^ w"
proof -
  have "int (of_signed w x) < int (2 ^ w)"
    by (simp add: of_signed_def)
  then show ?thesis by (simp only: of_nat_less_iff)
qed

lemma to_signed_of_signed:
  assumes "0 < w" "- (2 ^ (w - 1)) \<le> x" "x < 2 ^ (w - 1)"
  shows "to_signed w (of_signed w x) = x"
proof -
  have two: "(2::int) ^ w = 2 * 2 ^ (w - 1)"
    using assms(1) by (cases w) simp_all
  show ?thesis
  proof (cases "0 \<le> x")
    case True
    then have m: "x mod 2 ^ w = x" using assms(3) two by (intro mod_pos_pos_trivial) auto
    have "nat x < 2 ^ (w - 1)" using assms(3) True by (simp add: nat_less_iff)
    then show ?thesis using True m by (simp add: to_signed_def of_signed_def)
  next
    case False
    have "x mod 2 ^ w = (x + 2 ^ w) mod 2 ^ w" by simp
    also have "\<dots> = x + 2 ^ w" using assms(2) False two by (intro mod_pos_pos_trivial) auto
    finally have m: "x mod 2 ^ w = x + 2 ^ w" .
    have "\<not> nat (x + 2 ^ w) < 2 ^ (w - 1)"
      using assms(2) two by (simp add: nat_less_iff)
    moreover have "0 \<le> x + 2 ^ w"
      using assms(2) two zero_le_power [of "2::int" "w - 1"] by linarith
    ultimately show ?thesis using m by (simp add: to_signed_def of_signed_def)
  qed
qed

lemma of_signed_to_signed:
  assumes "0 < w" "n < 2 ^ w"
  shows "of_signed w (to_signed w n) = n"
proof -
  have n: "int n mod 2 ^ w = int n"
    using assms(2) by (intro mod_pos_pos_trivial) (simp_all flip: of_nat_less_iff)
  then have "(int n - 2 ^ w) mod 2 ^ w = int n"
    by (simp add: mod_diff_right_eq [symmetric])
  with n show ?thesis by (simp add: to_signed_def of_signed_def)
qed

lemma to_signed_range:
  assumes "0 < w" "n < 2 ^ w"
  shows "- (2 ^ (w - 1)) \<le> to_signed w n \<and> to_signed w n < 2 ^ (w - 1)"
proof -
  have two: "(2::int) ^ w = 2 * 2 ^ (w - 1)"
    using assms(1) by (cases w) simp_all
  have n: "int n < 2 ^ w" using assms(2) by (simp flip: of_nat_less_iff)
  show ?thesis
  proof (cases "n < 2 ^ (w - 1)")
    case True
    then have "int n < 2 ^ (w - 1)" by (simp flip: of_nat_less_iff)
    moreover have "- (2 ^ (w - 1)) \<le> int n"
      using zero_le_power [of "2::int" "w - 1"] by linarith
    ultimately show ?thesis using True by (simp add: to_signed_def)
  next
    case False
    then have "(2::int) ^ (w - 1) \<le> int n" by (simp flip: of_nat_le_iff add: not_less)
    then show ?thesis using n two False by (simp add: to_signed_def)
  qed
qed

section \<open>Errors as values\<close>

text \<open>\<open>rbind\<close> sequences fallible computations: the first \<open>Inl\<close> stops, as a thrown
  exception or an early \<open>return false\<close> does.\<close>

definition rbind :: "'e + 'a \<Rightarrow> ('a \<Rightarrow> 'e + 'b) \<Rightarrow> 'e + 'b" where
  "rbind x f = (case x of Inl e \<Rightarrow> Inl e | Inr a \<Rightarrow> f a)"

definition rguard :: "bool \<Rightarrow> 'e \<Rightarrow> 'e + unit" where
  "rguard c e = (if c then Inr () else Inl e)"

lemma rbind_simps [simp]:
  "rbind (Inl e) f = Inl e"
  "rbind (Inr a) f = f a"
  by (simp_all add: rbind_def)

lemma rbind_eq_Inr: "rbind x f = Inr b \<longleftrightarrow> (\<exists>a. x = Inr a \<and> f a = Inr b)"
  by (cases x) auto

lemma rbind_eq_Inl: "rbind x f = Inl e \<longleftrightarrow> x = Inl e \<or> (\<exists>a. x = Inr a \<and> f a = Inl e)"
  by (cases x) auto

lemma rguard_simps [simp]:
  "rguard True e = Inr ()"
  "rguard False e = Inl e"
  by (simp_all add: rguard_def)

lemma rguard_eq_Inr [simp]: "rguard c e = Inr u \<longleftrightarrow> c"
  by (simp add: rguard_def)

lemma rguard_eq_Inl [simp]: "rguard c e = Inl e' \<longleftrightarrow> \<not> c \<and> e' = e"
  by (auto simp: rguard_def)

text \<open>Two ways to reason about such computations rule by rule: \<open>rpost P\<close>, every result satisfies
  \<open>P\<close>; and \<open>rle\<close>, every result of the first is the result of the second.\<close>

named_theorems rpost_rules \<open>postconditions of fallible computations\<close>
named_theorems rle_rules \<open>approximation of fallible computations\<close>

definition rpost :: "('a \<Rightarrow> bool) \<Rightarrow> 'e + 'a \<Rightarrow> bool" where
  "rpost P r \<longleftrightarrow> (\<forall>x. r = Inr x \<longrightarrow> P x)"

definition rle :: "'e + 'a \<Rightarrow> 'f + 'a \<Rightarrow> bool" where
  "rle r s \<longleftrightarrow> (\<forall>x. r = Inr x \<longrightarrow> s = Inr x)"

lemma rpost_Inl [rpost_rules]: "rpost P (Inl e)"
  by (simp add: rpost_def)

lemma rpost_Inr [rpost_rules]: "P x \<Longrightarrow> rpost P (Inr x)"
  by (simp add: rpost_def)

lemma rpost_if [rpost_rules]:
  "(c \<Longrightarrow> rpost P a) \<Longrightarrow> (\<not> c \<Longrightarrow> rpost P b) \<Longrightarrow> rpost P (if c then a else b)"
  by simp

lemma rpost_bind [rpost_rules]: "(\<And>x. r = Inr x \<Longrightarrow> rpost P (f x)) \<Longrightarrow> rpost P (rbind r f)"
  by (auto simp: rpost_def rbind_eq_Inr)

lemma rpostD: "rpost P r \<Longrightarrow> r = Inr x \<Longrightarrow> P x"
  by (simp add: rpost_def)

lemma rle_refl [rle_rules]: "rle r r"
  by (simp add: rle_def)

lemma rle_Inl [rle_rules]: "rle (Inl e) s"
  by (simp add: rle_def)

lemma rle_if [rle_rules]:
  "(c \<Longrightarrow> rle a a') \<Longrightarrow> (\<not> c \<Longrightarrow> rle b b') \<Longrightarrow> rle (if c then a else b) (if c then a' else b')"
  by simp

lemma rle_bind [rle_rules]: "rle r r' \<Longrightarrow> (\<And>x. rle (f x) (f' x)) \<Longrightarrow> rle (rbind r f) (rbind r' f')"
  by (auto simp: rle_def rbind_eq_Inr)

lemma rleD: "rle r s \<Longrightarrow> r = Inr x \<Longrightarrow> s = Inr x"
  by (simp add: rle_def)

text \<open>A loop over a list with an accumulator that stops at the first error.\<close>

fun rfold :: "('a \<Rightarrow> 's \<Rightarrow> 'e + 's) \<Rightarrow> 'a list \<Rightarrow> 's \<Rightarrow> 'e + 's" where
  "rfold f [] s = Inr s"
| "rfold f (x # xs) s = rbind (f x s) (rfold f xs)"

lemma rfold_append: "rfold f (xs @ ys) s = rbind (rfold f xs s) (rfold f ys)"
proof (induction xs arbitrary: s)
  case (Cons x xs)
  then show ?case by (cases "f x s") simp_all
qed simp

text \<open>An invariant of the body of such a loop holds at its end.\<close>

lemma rfold_invariant:
  assumes "rfold f xs s = Inr s'" "P s"
    and "\<And>x s s'. x \<in> set xs \<Longrightarrow> P s \<Longrightarrow> f x s = Inr s' \<Longrightarrow> P s'"
  shows "P s'"
  using assms
proof (induction xs arbitrary: s)
  case (Cons x xs)
  from Cons.prems(1) obtain t where t: "f x s = Inr t" "rfold f xs t = Inr s'"
    by (auto simp: rbind_eq_Inr)
  have "P t" using Cons.prems(2,3) t(1) by auto
  then show ?case using Cons.IH [OF t(2)] Cons.prems(3) by auto
qed simp

section \<open>Parsers\<close>

text \<open>A parser consumes a prefix of the remaining input or fails.\<close>

type_synonym ('e, 'a) parser = "bytes \<Rightarrow> 'e + 'a \<times> bytes"

definition preturn :: "'a \<Rightarrow> ('e, 'a) parser" where
  "preturn a = (\<lambda>bs. Inr (a, bs))"

definition pfail :: "'e \<Rightarrow> ('e, 'a) parser" where
  "pfail e = (\<lambda>bs. Inl e)"

definition pbind :: "('e, 'a) parser \<Rightarrow> ('a \<Rightarrow> ('e, 'b) parser) \<Rightarrow> ('e, 'b) parser" where
  "pbind p f = (\<lambda>bs. case p bs of Inl e \<Rightarrow> Inl e | Inr (a, r) \<Rightarrow> f a r)"

definition pguard :: "bool \<Rightarrow> 'e \<Rightarrow> ('e, unit) parser" where
  "pguard c e = (if c then preturn () else pfail e)"

text \<open>\<open>pwhen c p d\<close> is a field that is read only if \<open>c\<close>, and left at \<open>d\<close> otherwise.\<close>

definition pwhen :: "bool \<Rightarrow> ('e, 'a) parser \<Rightarrow> 'a \<Rightarrow> ('e, 'a) parser" where
  "pwhen c p d = (if c then p else preturn d)"

named_theorems parser_simps \<open>the equations that run a parser\<close>

lemma preturn_apply [parser_simps]: "preturn a bs = Inr (a, bs)"
  by (simp add: preturn_def)

lemma pfail_apply [parser_simps]: "pfail e bs = Inl e"
  by (simp add: pfail_def)

lemma pbind_apply: "pbind p f bs = (case p bs of Inl e \<Rightarrow> Inl e | Inr (a, r) \<Rightarrow> f a r)"
  by (simp add: pbind_def)

lemma pbind_Inr [parser_simps]: "p bs = Inr (a, r) \<Longrightarrow> pbind p f bs = f a r"
  by (simp add: pbind_def)

lemma pbind_Inl [parser_simps]: "p bs = Inl e \<Longrightarrow> pbind p f bs = Inl e"
  by (simp add: pbind_def)

lemma pbind_eq_Inr [parser_simps]:
  "pbind p f bs = Inr z \<longleftrightarrow> (\<exists>a r. p bs = Inr (a, r) \<and> f a r = Inr z)"
  by (auto simp: pbind_def split: sum.splits)

lemma pguard_True [parser_simps]: "pguard True e bs = Inr ((), bs)"
  by (simp add: pguard_def preturn_def)

lemma pguard_eq_Inr [parser_simps]: "pguard c e bs = Inr z \<longleftrightarrow> c \<and> z = ((), bs)"
  by (auto simp: pguard_def preturn_def pfail_def)

lemma pwhen_True [parser_simps]: "pwhen True p d = p"
  by (simp add: pwhen_def)

lemma pwhen_False [parser_simps]: "pwhen False p d = preturn d"
  by (simp add: pwhen_def)

end
