(* ===== verification/Zc_Serialize.thy ===== *)
theory Zc_Serialize
  imports Zc_Prelude
begin

text \<open>
  The serialization layer of \<open>serialize.h\<close> and the reading end of \<open>streams.h\<close>:
  fixed-width integers, compact sizes, variable-length integers, byte vectors, vectors of
  objects, fixed arrays and optional values.  A writer is a function to bytes; a reader is a
  parser on the bytes that are left in the stream.

  The locale \<open>codec\<close> states what a reader/writer pair owes its clients: whatever was
  written is read back and leaves the rest of the stream untouched, and whatever is read was
  the one encoding of its value.  Each pair of the sources is an interpretation, and the
  container formats (vectors, arrays, optionals) are shown once and for all to turn codecs
  into codecs.
\<close>

unbundle bit_operations_syntax

section \<open>Streams\<close>

datatype ser_error =
    EndOfData
  | NonCanonicalCompactSize
  | SizeTooLarge
  | NonCanonicalOptional
  | StringLimitExceeded
  | UnknownTransactionFormat
  | InvalidSproutProof
  | BadG1LeadByte
  | BadG2LeadByte
  | TooManyParents
  | NonCanonicalParent
  | NonCanonicalRight
  | NonCanonicalParents

type_synonym 'a sparser = "(ser_error, 'a) parser"

text \<open>\<open>CBaseDataStream\<close> keeps the whole buffer and a 32-bit read position.\<close>

record CDataStream =
  vch :: bytes
  nReadPos :: u32

definition CDataStream_read :: "nat \<Rightarrow> CDataStream \<Rightarrow> ser_error + bytes \<times> CDataStream" where
  "CDataStream_read nSize s =
     (if nSize = 0 then Inr ([], s)
      else
        let nReadPosNext = nReadPos s + of_nat nSize in
        if length (vch s) \<le> unat nReadPosNext then
          if length (vch s) < unat nReadPosNext then Inl EndOfData
          else Inr (take nSize (drop (unat (nReadPos s)) (vch s)), s\<lparr>vch := [], nReadPos := 0\<rparr>)
        else Inr (take nSize (drop (unat (nReadPos s)) (vch s)), s\<lparr>nReadPos := nReadPosNext\<rparr>))"

definition CDataStream_write :: "bytes \<Rightarrow> CDataStream \<Rightarrow> CDataStream" where
  "CDataStream_write pch s = s\<lparr>vch := vch s @ pch\<rparr>"

definition CDataStream_Rewind :: "nat \<Rightarrow> CDataStream \<Rightarrow> bool \<times> CDataStream" where
  "CDataStream_Rewind n s =
     (if unat (nReadPos s) < n then (False, s)
      else (True, s\<lparr>nReadPos := nReadPos s - of_nat n\<rparr>))"

definition CDataStream_Compact :: "CDataStream \<Rightarrow> CDataStream" where
  "CDataStream_Compact s = s\<lparr>vch := drop (unat (nReadPos s)) (vch s), nReadPos := 0\<rparr>"

text \<open>The readers below see a stream as the list of its unread bytes.\<close>

definition unread :: "CDataStream \<Rightarrow> bytes" where
  "unread s = drop (unat (nReadPos s)) (vch s)"

definition stream_read :: "nat \<Rightarrow> bytes sparser" where
  "stream_read n bs = (if length bs < n then Inl EndOfData else Inr (take n bs, drop n bs))"

definition stream_wf :: "CDataStream \<Rightarrow> bool" where
  "stream_wf s \<longleftrightarrow> unat (nReadPos s) \<le> length (vch s)"

lemma stream_read_append [parser_simps]:
  "length xs = n \<Longrightarrow> stream_read n (xs @ r) = Inr (xs, r)"
  by (simp add: stream_read_def)

lemma stream_read_Inr:
  "stream_read n bs = Inr (xs, r) \<longleftrightarrow> length xs = n \<and> bs = xs @ r"
  by (auto simp: stream_read_def)

lemma stream_read_refines:
  assumes "stream_wf s" and "unat (nReadPos s) + nSize < 2 ^ 32"
  shows "map_sum id (map_prod id unread) (CDataStream_read nSize s) = stream_read nSize (unread s)"
proof -
  have n: "unat (of_nat nSize :: u32) = nSize"
    using assms(2) by (simp add: unat_of_nat take_bit_nat_eq_self)
  have next_pos: "unat (nReadPos s + of_nat nSize) = unat (nReadPos s) + nSize"
    using assms(2) n by (subst unat_add_lem [THEN iffD1]) (simp_all add: n)
  show ?thesis
    using assms(1) next_pos
    by (auto simp: CDataStream_read_def stream_read_def unread_def stream_wf_def Let_def
        add.commute)
qed

lemma stream_read_wf:
  assumes "stream_wf s" "CDataStream_read n s = Inr (bs, s')"
  shows "stream_wf s'"
  using assms by (auto simp: CDataStream_read_def stream_wf_def Let_def split: if_splits)

lemma unread_write: "stream_wf s \<Longrightarrow> unread (CDataStream_write bs s) = unread s @ bs"
  by (simp add: unread_def CDataStream_write_def stream_wf_def)

lemma unread_Compact: "unread (CDataStream_Compact s) = unread s"
  by (simp add: unread_def CDataStream_Compact_def)

section \<open>The contract of a reader and a writer\<close>

locale codec =
  fixes enc :: "'a \<Rightarrow> bytes" and dec :: "'a sparser" and ok :: "'a \<Rightarrow> bool"
  assumes dec_enc: "ok a \<Longrightarrow> dec (enc a @ r) = Inr (a, r)"
    and enc_dec: "dec bs = Inr (a, r) \<Longrightarrow> ok a \<and> bs = enc a @ r"
begin

lemma dec_iff: "dec bs = Inr (a, r) \<longleftrightarrow> ok a \<and> bs = enc a @ r"
  using dec_enc enc_dec by blast

lemma enc_inject:
  assumes "ok a" "ok b" "enc a @ r = enc b @ s"
  shows "a = b \<and> r = s"
proof -
  have "Inr (a, r) = dec (enc b @ s)" using assms(1,3) dec_enc by metis
  also have "\<dots> = Inr (b, s)" using assms(2) by (rule dec_enc)
  finally show ?thesis by simp
qed

lemma enc_prefix_free:
  assumes "ok a" "ok b" "enc a @ r = enc b"
  shows "a = b \<and> r = []"
  using enc_inject [of a b r "[]"] assms by simp

end

section \<open>Fixed-width integers\<close>

definition ser_writedata8 :: "byte \<Rightarrow> bytes" where
  "ser_writedata8 obj = [obj]"

definition ser_writedata16 :: "u16 \<Rightarrow> bytes" where
  "ser_writedata16 obj = nat_to_le 2 (unat obj)"

definition ser_writedata32 :: "u32 \<Rightarrow> bytes" where
  "ser_writedata32 obj = nat_to_le 4 (unat obj)"

definition ser_writedata32be :: "u32 \<Rightarrow> bytes" where
  "ser_writedata32be obj = rev (nat_to_le 4 (unat obj))"

definition ser_writedata64 :: "u64 \<Rightarrow> bytes" where
  "ser_writedata64 obj = nat_to_le 8 (unat obj)"

definition ser_readdata8 :: "byte sparser" where
  "ser_readdata8 = pbind (stream_read 1) (\<lambda>d. preturn (of_nat (le_to_nat d)))"

definition ser_readdata16 :: "u16 sparser" where
  "ser_readdata16 = pbind (stream_read 2) (\<lambda>d. preturn (of_nat (le_to_nat d)))"

definition ser_readdata32 :: "u32 sparser" where
  "ser_readdata32 = pbind (stream_read 4) (\<lambda>d. preturn (of_nat (le_to_nat d)))"

definition ser_readdata32be :: "u32 sparser" where
  "ser_readdata32be = pbind (stream_read 4) (\<lambda>d. preturn (of_nat (le_to_nat (rev d))))"

definition ser_readdata64 :: "u64 sparser" where
  "ser_readdata64 = pbind (stream_read 8) (\<lambda>d. preturn (of_nat (le_to_nat d)))"

text \<open>Signed integers travel as their two's complement pattern.\<close>

definition Serialize_int32 :: "int \<Rightarrow> bytes" where
  "Serialize_int32 a = ser_writedata32 (of_nat (of_signed 32 a))"

definition Unserialize_int32 :: "int sparser" where
  "Unserialize_int32 = pbind ser_readdata32 (\<lambda>w. preturn (to_signed 32 (unat w)))"

definition Serialize_int64 :: "int \<Rightarrow> bytes" where
  "Serialize_int64 a = ser_writedata64 (of_nat (of_signed 64 a))"

definition Unserialize_int64 :: "int sparser" where
  "Unserialize_int64 = pbind ser_readdata64 (\<lambda>w. preturn (to_signed 64 (unat w)))"

text \<open>\<open>base_blob::Serialize\<close> writes the raw 32 bytes of a \<open>uint256\<close>.\<close>

definition Serialize_uint256 :: "uint256 \<Rightarrow> bytes" where
  "Serialize_uint256 h = nat_to_le 32 (unat h)"

definition Unserialize_uint256 :: "uint256 sparser" where
  "Unserialize_uint256 = pbind (stream_read 32) (\<lambda>d. preturn (of_nat (le_to_nat d)))"

text \<open>One proof serves every unsigned width: the little-endian bytes of a word of
  \<open>8 * n\<close> bits.\<close>

lemma unat_less_256_pow: "LENGTH('a::len) = 8 * n \<Longrightarrow> unat (w :: 'a word) < 256 ^ n"
  using unsigned_less [of w, where ?'a = nat] by (simp add: power_mult)

lemma of_nat_le_to_nat_inv:
  assumes "LENGTH('a::len) = 8 * n" "length d = n"
  shows "nat_to_le n (unat (of_nat (le_to_nat d) :: 'a word)) = d"
proof -
  have "le_to_nat d < 2 ^ LENGTH('a)"
    using le_to_nat_less [of d] assms by (simp add: power_mult)
  then have "unat (of_nat (le_to_nat d) :: 'a word) = le_to_nat d"
    by (simp add: unat_of_nat take_bit_nat_eq_self)
  then show ?thesis using assms(2) nat_to_le_le_to_nat [of d] by simp
qed

lemma codec_le_word:
  assumes "LENGTH('a::len) = 8 * n"
  shows "codec (\<lambda>w :: 'a word. nat_to_le n (unat w))
           (pbind (stream_read n) (\<lambda>d. preturn (of_nat (le_to_nat d)))) (\<lambda>_. True)"
proof
  fix w :: "'a word" and r
  have "unat w mod 256 ^ n = unat w"
    using unat_less_256_pow [OF assms, of w] by simp
  then show "pbind (stream_read n) (\<lambda>d. preturn (of_nat (le_to_nat d)))
          (nat_to_le n (unat w) @ r) = Inr (w, r)"
    by (simp add: parser_simps)
next
  fix bs and w :: "'a word" and r
  assume "pbind (stream_read n) (\<lambda>d. preturn (of_nat (le_to_nat d))) bs = Inr (w, r)"
  then obtain d where d: "length d = n" "bs = d @ r" "w = of_nat (le_to_nat d)"
    by (auto simp: parser_simps stream_read_Inr)
  then show "True \<and> bs = nat_to_le n (unat w) @ r"
    using of_nat_le_to_nat_inv [OF assms] by simp
qed

text \<open>A codec carried along a bijection, for instance from a word to its signed reading.\<close>

context codec
begin

lemma codec_map:
  assumes "\<And>b. ok' b \<Longrightarrow> ok (f b) \<and> g (f b) = b"
    and "\<And>a. ok a \<Longrightarrow> ok' (g a) \<and> f (g a) = a"
  shows "codec (\<lambda>b. enc (f b)) (pbind dec (\<lambda>a. preturn (g a))) ok'"
proof
  fix b r
  assume "ok' b"
  then show "pbind dec (\<lambda>a. preturn (g a)) (enc (f b) @ r) = Inr (b, r)"
    using assms(1) by (simp add: parser_simps dec_enc)
next
  fix bs b r
  assume "pbind dec (\<lambda>a. preturn (g a)) bs = Inr (b, r)"
  then show "ok' b \<and> bs = enc (f b) @ r"
    using assms(2) by (auto simp: parser_simps dec_iff)
qed

end

interpretation u8: codec ser_writedata8 ser_readdata8 "\<lambda>_. True"
proof -
  have "ser_writedata8 = (\<lambda>w. nat_to_le 1 (unat w))"
    by (rule ext) (simp add: ser_writedata8_def)
  then show "codec ser_writedata8 ser_readdata8 (\<lambda>_. True)"
    unfolding ser_readdata8_def using codec_le_word [where 'a = 8 and n = 1] by simp
qed

interpretation u16: codec ser_writedata16 ser_readdata16 "\<lambda>_. True"
  unfolding ser_writedata16_def [abs_def] ser_readdata16_def by (rule codec_le_word) simp

interpretation u32: codec ser_writedata32 ser_readdata32 "\<lambda>_. True"
  unfolding ser_writedata32_def [abs_def] ser_readdata32_def by (rule codec_le_word) simp

interpretation u64: codec ser_writedata64 ser_readdata64 "\<lambda>_. True"
  unfolding ser_writedata64_def [abs_def] ser_readdata64_def by (rule codec_le_word) simp

interpretation u256: codec Serialize_uint256 Unserialize_uint256 "\<lambda>_. True"
  unfolding Serialize_uint256_def [abs_def] Unserialize_uint256_def by (rule codec_le_word) simp

interpretation i32: codec Serialize_int32 Unserialize_int32 int32_range
proof -
  have w: "unat (of_nat (of_signed 32 b) :: u32) = of_signed 32 b" for b
    using of_signed_less [of 32 b] by (simp add: unat_of_nat take_bit_nat_eq_self)
  have "codec (\<lambda>b. ser_writedata32 (of_nat (of_signed 32 b)))
          (pbind ser_readdata32 (\<lambda>w. preturn (to_signed 32 (unat w)))) int32_range"
  proof (rule u32.codec_map)
    fix b assume "int32_range b"
    then show "True \<and> to_signed 32 (unat (of_nat (of_signed 32 b) :: u32)) = b"
      unfolding w using to_signed_of_signed [of 32 b] by (simp add: int32_range_def)
  next
    fix a :: u32
    have "unat a < 2 ^ 32" using unsigned_less [of a, where ?'a = nat] by simp
    then show "int32_range (to_signed 32 (unat a)) \<and>
        of_nat (of_signed 32 (to_signed 32 (unat a))) = a"
      using to_signed_range [of 32 "unat a"] of_signed_to_signed [of 32 "unat a"]
      by (simp add: int32_range_def)
  qed
  then show "codec Serialize_int32 Unserialize_int32 int32_range"
    unfolding Serialize_int32_def [abs_def] Unserialize_int32_def .
qed

interpretation i64: codec Serialize_int64 Unserialize_int64 int64_range
proof -
  have w: "unat (of_nat (of_signed 64 b) :: u64) = of_signed 64 b" for b
    using of_signed_less [of 64 b] by (simp add: unat_of_nat take_bit_nat_eq_self)
  have "codec (\<lambda>b. ser_writedata64 (of_nat (of_signed 64 b)))
          (pbind ser_readdata64 (\<lambda>w. preturn (to_signed 64 (unat w)))) int64_range"
  proof (rule u64.codec_map)
    fix b assume "int64_range b"
    then show "True \<and> to_signed 64 (unat (of_nat (of_signed 64 b) :: u64)) = b"
      unfolding w using to_signed_of_signed [of 64 b] by (simp add: int64_range_def)
  next
    fix a :: u64
    have "unat a < 2 ^ 64" using unsigned_less [of a, where ?'a = nat] by simp
    then show "int64_range (to_signed 64 (unat a)) \<and>
        of_nat (of_signed 64 (to_signed 64 (unat a))) = a"
      using to_signed_range [of 64 "unat a"] of_signed_to_signed [of 64 "unat a"]
      by (simp add: int64_range_def)
  qed
  then show "codec Serialize_int64 Unserialize_int64 int64_range"
    unfolding Serialize_int64_def [abs_def] Unserialize_int64_def .
qed

lemmas int_codec_dec [parser_simps] =
  u8.dec_enc [OF TrueI] u16.dec_enc [OF TrueI] u32.dec_enc [OF TrueI] u64.dec_enc [OF TrueI]
  u256.dec_enc [OF TrueI] i32.dec_enc i64.dec_enc

lemmas int_codec_iff = u8.dec_iff u16.dec_iff u32.dec_iff u64.dec_iff u256.dec_iff
  i32.dec_iff i64.dec_iff

section \<open>Compact sizes\<close>

definition MAX_SIZE :: u64 where
  "MAX_SIZE = 0x02000000"

definition GetSizeOfCompactSize :: "u64 \<Rightarrow> nat" where
  "GetSizeOfCompactSize nSize =
     (if nSize < 253 then 1 else if nSize \<le> 0xFFFF then 3
      else if nSize \<le> 0xFFFFFFFF then 5 else 9)"

definition WriteCompactSize :: "u64 \<Rightarrow> bytes" where
  "WriteCompactSize nSize =
     (if nSize < 253 then ser_writedata8 (ucast nSize)
      else if nSize \<le> 0xFFFF then ser_writedata8 253 @ ser_writedata16 (ucast nSize)
      else if nSize \<le> 0xFFFFFFFF then ser_writedata8 254 @ ser_writedata32 (ucast nSize)
      else ser_writedata8 255 @ ser_writedata64 nSize)"

definition ReadCompactSize :: "u64 sparser" where
  "ReadCompactSize =
     pbind ser_readdata8 (\<lambda>chSize.
     pbind
       (if chSize < 253 then preturn (ucast chSize)
        else if chSize = 253 then
          pbind ser_readdata16 (\<lambda>n.
          pbind (pguard (253 \<le> (ucast n :: u64)) NonCanonicalCompactSize) (\<lambda>_.
          preturn (ucast n)))
        else if chSize = 254 then
          pbind ser_readdata32 (\<lambda>n.
          pbind (pguard (0x10000 \<le> (ucast n :: u64)) NonCanonicalCompactSize) (\<lambda>_.
          preturn (ucast n)))
        else
          pbind ser_readdata64 (\<lambda>n.
          pbind (pguard (0x100000000 \<le> n) NonCanonicalCompactSize) (\<lambda>_.
          preturn n))) (\<lambda>nSizeRet.
     pbind (pguard (nSizeRet \<le> MAX_SIZE) SizeTooLarge) (\<lambda>_.
     preturn nSizeRet)))"

lemma unat_ucast_less:
  "unat n < 2 ^ LENGTH('a::len) \<Longrightarrow> unat (ucast (n :: 'b::len word) :: 'a word) = unat n"
  by (simp add: unsigned_ucast_eq take_bit_nat_eq_self)

lemma ucast_down_up:
  fixes n :: u64
  assumes "unat n < 2 ^ LENGTH('a::len)"
  shows "ucast (ucast n :: 'a word) = n"
proof (rule word_unat_eq_iff [THEN iffD2])
  have n: "unat (ucast n :: 'a word) = unat n"
    using assms by (rule unat_ucast_less)
  have "unat n < 2 ^ LENGTH(64)" by (rule unsigned_less)
  then show "unat (ucast (ucast n :: 'a word) :: u64) = unat n"
    using unat_ucast_less [where 'a = 64, of "ucast n :: 'a word"] n by simp
qed

lemma ucast_up_down:
  fixes m :: "'a::len word"
  assumes "LENGTH('a) \<le> 64"
  shows "unat (ucast m :: u64) = unat m" "ucast (ucast m :: u64) = m"
proof -
  have "unat m < 2 ^ LENGTH('a)" by (rule unsigned_less)
  also have "\<dots> \<le> 2 ^ 64" using assms by (intro power_increasing) simp_all
  finally show u: "unat (ucast m :: u64) = unat m" by (intro unat_ucast_less) simp
  show "ucast (ucast m :: u64) = m"
    by (rule word_unat_eq_iff [THEN iffD2]) (simp add: unat_ucast_less u)
qed

lemma ReadCompactSize_Write:
  assumes "n \<le> MAX_SIZE"
  shows "ReadCompactSize (WriteCompactSize n @ r) = Inr (n, r)"
proof -
  have "n \<le> 0xFFFFFFFF" using assms by (simp add: MAX_SIZE_def word_le_nat_alt)
  then consider "n < 253" | "\<not> n < 253" "n \<le> 0xFFFF" | "\<not> n \<le> 0xFFFF" "n \<le> 0xFFFFFFFF"
    by blast
  then show ?thesis
  proof cases
    case 1
    then have "unat n < 253" by (simp add: word_less_nat_alt)
    then have "ucast (ucast n :: byte) = n" "(ucast n :: byte) < 253"
      by (simp_all add: ucast_down_up word_less_nat_alt unat_ucast_less)
    then show ?thesis using 1 assms
      by (simp add: WriteCompactSize_def ReadCompactSize_def parser_simps)
  next
    case 2
    then have "ucast (ucast n :: u16) = n"
      by (intro ucast_down_up) (simp add: word_le_nat_alt)
    moreover have "253 \<le> n" using 2(1) by simp
    ultimately show ?thesis using 2 assms
      by (simp add: WriteCompactSize_def ReadCompactSize_def parser_simps)
  next
    case 3
    then have "ucast (ucast n :: u32) = n" "\<not> n < 253"
      by (intro ucast_down_up, simp_all add: word_le_nat_alt word_less_nat_alt)
    moreover have "0x10000 \<le> n" using 3(1) by (simp add: word_le_nat_alt word_less_nat_alt)
    ultimately show ?thesis using 3 assms
      by (simp add: WriteCompactSize_def ReadCompactSize_def parser_simps)
  qed
qed

lemma WriteCompactSize_Read:
  assumes "ReadCompactSize bs = Inr (n, r)"
  shows "n \<le> MAX_SIZE \<and> bs = WriteCompactSize n @ r"
proof -
  from assms obtain ch bs' where ch: "bs = ser_writedata8 ch @ bs'" and n: "n \<le> MAX_SIZE"
    and body: "(if ch < 253 then preturn (ucast ch)
        else if ch = 253 then
          pbind ser_readdata16 (\<lambda>n.
          pbind (pguard (253 \<le> (ucast n :: u64)) NonCanonicalCompactSize) (\<lambda>_.
          preturn (ucast n)))
        else if ch = 254 then
          pbind ser_readdata32 (\<lambda>n.
          pbind (pguard (0x10000 \<le> (ucast n :: u64)) NonCanonicalCompactSize) (\<lambda>_.
          preturn (ucast n)))
        else
          pbind ser_readdata64 (\<lambda>n.
          pbind (pguard (0x100000000 \<le> n) NonCanonicalCompactSize) (\<lambda>_.
          preturn n))) bs' = Inr (n, r)"
    by (auto simp: ReadCompactSize_def parser_simps u8.dec_iff)
  have small: "n \<le> 0xFFFFFFFF" using n by (simp add: MAX_SIZE_def word_le_nat_alt)
  consider (a) "ch < 253" | (b) "ch = 253" | (c) "ch = 254" | (d) "\<not> ch < 253" "ch \<noteq> 253" "ch \<noteq> 254"
    by blast
  then have "bs = WriteCompactSize n @ r"
  proof cases
    case a
    with body have "n = ucast ch" "bs' = r" by (auto simp: parser_simps)
    moreover from this have "(ucast n :: byte) = ch" "n < 253"
      using a by (simp_all add: ucast_up_down word_less_nat_alt)
    ultimately show ?thesis using ch by (simp add: WriteCompactSize_def)
  next
    case b
    with body obtain m :: u16 where m: "bs' = ser_writedata16 m @ r" "n = ucast m" "\<not> n < 253"
      by (auto simp: parser_simps u16.dec_iff)
    have "unat m < 2 ^ 16" using unsigned_less [of m, where ?'a = nat] by simp
    then have "(ucast n :: u16) = m" "n \<le> 0xFFFF"
      by (simp_all add: m(2) ucast_up_down word_le_nat_alt)
    then show ?thesis using ch b m(1,3) by (simp add: WriteCompactSize_def)
  next
    case c
    with body obtain m :: u32 where m: "bs' = ser_writedata32 m @ r" "n = ucast m" "0x10000 \<le> n"
      by (auto simp: parser_simps u32.dec_iff)
    then have "(ucast n :: u32) = m" "\<not> n < 253" "\<not> n \<le> 0xFFFF"
      by (simp_all add: ucast_up_down word_le_nat_alt word_less_nat_alt)
    then show ?thesis using ch c m(1) small by (simp add: WriteCompactSize_def)
  next
    case d
    with body have "0x100000000 \<le> n" by (auto simp: parser_simps)
    with small show ?thesis by (simp add: word_le_nat_alt)
  qed
  with n show ?thesis by simp
qed

interpretation csize: codec WriteCompactSize ReadCompactSize "\<lambda>n. n \<le> MAX_SIZE"
  by (unfold_locales) (rule ReadCompactSize_Write, assumption, rule WriteCompactSize_Read)

lemma length_WriteCompactSize: "length (WriteCompactSize n) = GetSizeOfCompactSize n"
  by (simp add: WriteCompactSize_def GetSizeOfCompactSize_def ser_writedata8_def
      ser_writedata16_def ser_writedata32_def ser_writedata64_def)

section \<open>Variable-length integers\<close>

text \<open>
  The template \<open>WriteVarInt<Stream, I>\<close> works on the value of \<open>n\<close> alone: for every
  integer type \<open>I\<close>, \<open>n & 0x7F\<close>, \<open>n <= 0x7F\<close> and \<open>(n >> 7) - 1\<close> are the operations
  below on that value.  The loop fills \<open>tmp\<close> from the low digit up and the bytes are then
  written from the high end.
\<close>

function varint_tmp :: "int \<Rightarrow> nat \<Rightarrow> bytes" where
  "varint_tmp n len =
     ((of_int (n mod 128) :: byte) OR (if len \<noteq> 0 then 0x80 else 0x00)) #
     (if n \<le> 0x7F then [] else varint_tmp (n div 128 - 1) (Suc len))"
  by pat_completeness auto
termination
  by (relation "measure (\<lambda>(n, len). nat n)") auto

declare varint_tmp.simps [simp del]

definition WriteVarInt :: "int \<Rightarrow> bytes" where
  "WriteVarInt n = concat (map ser_writedata8 (rev (varint_tmp n 0)))"

function GetSizeOfVarInt_loop :: "int \<Rightarrow> nat \<Rightarrow> nat" where
  "GetSizeOfVarInt_loop n nRet =
     (if n \<le> 0x7F then Suc nRet else GetSizeOfVarInt_loop (n div 128 - 1) (Suc nRet))"
  by pat_completeness auto
termination
  by (relation "measure (\<lambda>(n, nRet). nat n)") auto

declare GetSizeOfVarInt_loop.simps [simp del]

definition GetSizeOfVarInt :: "int \<Rightarrow> nat" where
  "GetSizeOfVarInt n = GetSizeOfVarInt_loop n 0"

text \<open>
  \<open>ReadVarInt\<close> shifts and adds in the type \<open>I\<close>, without an overflow check: \<open>wrapI\<close> is the
  conversion to \<open>I\<close> (\<open>take_bit 32\<close> for \<open>unsigned int\<close>, \<open>wrap32\<close> for \<open>int\<close>, and so on).
\<close>

fun ReadVarInt_loop :: "(int \<Rightarrow> int) \<Rightarrow> int \<Rightarrow> int sparser" where
  "ReadVarInt_loop wrapI n [] = Inl EndOfData"
| "ReadVarInt_loop wrapI n (chData # is) =
     (let n' = wrapI (wrapI (n * 128) + uint (chData AND 0x7F)) in
      if chData AND 0x80 \<noteq> 0 then ReadVarInt_loop wrapI (wrapI (n' + 1)) is
      else Inr (n', is))"

definition ReadVarInt :: "(int \<Rightarrow> int) \<Rightarrow> int sparser" where
  "ReadVarInt wrapI = ReadVarInt_loop wrapI 0"

lemma varint_byte:
  fixes n :: int
  defines "d \<equiv> (of_int (n mod 128) :: byte)"
  shows "uint ((d OR 0x80) AND 0x7F) = n mod 128" and "(d OR 0x80) AND 0x80 \<noteq> 0"
    and "uint (d AND 0x7F) = n mod 128" and "d AND 0x80 = 0"
proof -
  have d: "uint d = n mod 128"
    unfolding d_def uint_word_of_int_eq
    by (rule take_bit_int_eq_self) (simp_all add: less_trans [OF pos_mod_bound])
  have low: "d AND 0x7F = d"
  proof (rule word_uint_eq_iff [THEN iffD2])
    have "uint (d AND 0x7F) = uint d AND mask 7" by (simp add: unsigned_and_eq mask_eq_exp_minus_1)
    also have "\<dots> = uint d mod 128" by (simp flip: take_bit_eq_mask add: take_bit_eq_mod)
    finally show "uint (d AND 0x7F) = uint d" by (simp add: d)
  qed
  show "uint (d AND 0x7F) = n mod 128" by (simp only: low d)
  have "d AND 0x80 = (d AND 0x7F) AND 0x80" by (simp only: low)
  also have "\<dots> = d AND (0x7F AND 0x80)" by (simp only: and.assoc)
  finally show z: "d AND 0x80 = 0" by simp
  show "uint ((d OR 0x80) AND 0x7F) = n mod 128"
    by (simp add: bit.conj_disj_distrib2 low d)
  show "(d OR 0x80) AND 0x80 \<noteq> 0"
    by (simp add: bit.conj_disj_distrib2)
qed

text \<open>What the loop has read after the continuation digits of \<open>m\<close> is \<open>m + 1\<close>.\<close>

lemma ReadVarInt_continuation:
  assumes "0 \<le> m" "\<And>k. 0 \<le> k \<Longrightarrow> k \<le> m + 1 \<Longrightarrow> wrapI k = k"
  shows "ReadVarInt_loop wrapI 0 (rev (varint_tmp m (Suc len)) @ r) = ReadVarInt_loop wrapI (m + 1) r"
  using assms
proof (induction m "Suc len" arbitrary: len r rule: varint_tmp.induct)
  case (1 m)
  have div: "m div 128 * 128 + m mod 128 = m" by simp
  have q: "0 \<le> m div 128" "m div 128 * 128 \<le> m" using "1.prems"(1) by simp_all
  have step: "ReadVarInt_loop wrapI (m div 128) ((of_int (m mod 128) OR 0x80) # r)
      = ReadVarInt_loop wrapI (m + 1) r" for r
    using "1.prems" q by (simp add: varint_byte Let_def div)
  show ?case
  proof (cases "m \<le> 0x7F")
    case True
    then have "m div 128 = 0" using "1.prems"(1) by simp
    then show ?thesis using True step by (simp add: varint_tmp.simps [of m])
  next
    case False
    have "wrapI k = k" if "0 \<le> k" "k \<le> m div 128 - 1 + 1" for k
      using that "1.prems" by (intro "1.prems"(2)) auto
    then show ?thesis using False step "1.hyps" [OF False] "1.prems"(1)
      by (simp add: varint_tmp.simps [of m])
  qed
qed

lemma ReadVarInt_Write:
  assumes "0 \<le> n" "\<And>k. 0 \<le> k \<Longrightarrow> k \<le> n \<Longrightarrow> wrapI k = k"
  shows "ReadVarInt wrapI (WriteVarInt n @ r) = Inr (n, r)"
proof -
  have w: "WriteVarInt n = rev (varint_tmp n 0)"
    by (simp add: WriteVarInt_def ser_writedata8_def [abs_def])
  have div: "n div 128 * 128 + n mod 128 = n" by simp
  have q: "0 \<le> n div 128" "n div 128 * 128 \<le> n" using assms(1) by simp_all
  have last: "ReadVarInt_loop wrapI (n div 128) (of_int (n mod 128) # r) = Inr (n, r)"
    using assms q by (simp add: varint_byte Let_def div)
  show ?thesis
  proof (cases "n \<le> 0x7F")
    case True
    then have "n div 128 = 0" using assms(1) by simp
    then show ?thesis using True last by (simp add: w ReadVarInt_def varint_tmp.simps [of n])
  next
    case False
    have "ReadVarInt_loop wrapI 0 (rev (varint_tmp (n div 128 - 1) (Suc 0)) @ of_int (n mod 128) # r)
        = ReadVarInt_loop wrapI (n div 128 - 1 + 1) (of_int (n mod 128) # r)"
      using False assms by (intro ReadVarInt_continuation) auto
    then show ?thesis using False last by (simp add: w ReadVarInt_def varint_tmp.simps [of n])
  qed
qed

lemma GetSizeOfVarInt_loop: "GetSizeOfVarInt_loop n k = length (varint_tmp n len) + k"
  by (induction n k arbitrary: len rule: GetSizeOfVarInt_loop.induct)
    (subst GetSizeOfVarInt_loop.simps, subst varint_tmp.simps, simp)

lemma length_WriteVarInt: "length (WriteVarInt n) = GetSizeOfVarInt n"
  by (simp add: WriteVarInt_def GetSizeOfVarInt_def GetSizeOfVarInt_loop [of n 0 0]
      ser_writedata8_def length_concat comp_def sum_list_triv)

section \<open>Containers\<close>

subsection \<open>Byte vectors\<close>

text \<open>\<open>Serialize_impl\<close> for \<open>prevector\<close> and \<open>vector\<close> of \<open>unsigned char\<close>: the size, then the
  bytes as one blob.  The reader asks the stream for at most 5000000 bytes at a time.\<close>

definition Serialize_bytes :: "bytes \<Rightarrow> bytes" where
  "Serialize_bytes v = WriteCompactSize (of_nat (length v)) @ (if v = [] then [] else v)"

function read_blocks :: "nat \<Rightarrow> nat \<Rightarrow> bytes \<Rightarrow> bytes sparser" where
  "read_blocks nSize i v =
     (if i < nSize then
        let blk = min (nSize - i) (1 + 4999999) in
        pbind (stream_read blk) (\<lambda>d. read_blocks nSize (i + blk) (v @ d))
      else preturn v)"
  by pat_completeness auto
termination
  by (relation "measure (\<lambda>(nSize, i, v). nSize - i)") auto

declare read_blocks.simps [simp del]

definition Unserialize_bytes :: "bytes sparser" where
  "Unserialize_bytes = pbind ReadCompactSize (\<lambda>nSize. read_blocks (unat nSize) 0 [])"

lemma stream_read_split:
  "stream_read (m + n) bs =
     pbind (stream_read m) (\<lambda>d. pbind (stream_read n) (\<lambda>e. preturn (d @ e))) bs"
  by (auto simp: pbind_apply stream_read_def preturn_def take_add add.commute split: sum.splits)

lemma read_blocks_eq:
  "read_blocks nSize i v bs = pbind (stream_read (nSize - i)) (\<lambda>d. preturn (v @ d)) bs"
proof (induction nSize i v arbitrary: bs rule: read_blocks.induct)
  case (1 nSize i v)
  show ?case
  proof (cases "i < nSize")
    case False
    then show ?thesis
      by (simp add: read_blocks.simps [of nSize i] pbind_apply stream_read_def)
  next
    case True
    let ?blk = "min (nSize - i) (1 + 4999999)"
    have split: "nSize - i = ?blk + (nSize - (i + ?blk))" by simp
    have "pbind (stream_read (nSize - i)) (\<lambda>d. preturn (v @ d)) bs
        = pbind (stream_read (?blk + (nSize - (i + ?blk)))) (\<lambda>d. preturn (v @ d)) bs"
      using split by simp
    also have "\<dots> = pbind (stream_read ?blk) (\<lambda>d. read_blocks nSize (i + ?blk) (v @ d)) bs"
      using "1.IH" [OF True refl]
      by (simp add: pbind_apply stream_read_split preturn_def split: sum.splits)
    finally show ?thesis using True by (simp add: read_blocks.simps [of nSize i] Let_def)
  qed
qed

lemma unat_of_nat_size: "n \<le> unat MAX_SIZE \<Longrightarrow> unat (of_nat n :: u64) = n"
  by (simp add: unat_of_nat take_bit_nat_eq_self MAX_SIZE_def)

lemma of_nat_le_MAX_SIZE: "n \<le> unat MAX_SIZE \<Longrightarrow> (of_nat n :: u64) \<le> MAX_SIZE"
  by (simp add: word_le_nat_alt unat_of_nat_size)

interpretation vbytes: codec Serialize_bytes Unserialize_bytes "\<lambda>v. length v \<le> unat MAX_SIZE"
proof
  fix v :: bytes and r
  assume "length v \<le> unat MAX_SIZE"
  then show "Unserialize_bytes (Serialize_bytes v @ r) = Inr (v, r)"
    by (simp add: Serialize_bytes_def Unserialize_bytes_def parser_simps csize.dec_enc
        of_nat_le_MAX_SIZE unat_of_nat_size read_blocks_eq)
next
  fix bs v r
  assume "Unserialize_bytes bs = Inr (v, r)"
  then show "length v \<le> unat MAX_SIZE \<and> bs = Serialize_bytes v @ r"
    by (auto simp: Serialize_bytes_def Unserialize_bytes_def parser_simps csize.dec_iff
        read_blocks_eq stream_read_Inr word_le_nat_alt)
qed

subsection \<open>Arrays and vectors of objects\<close>

fun unser_n :: "'a sparser \<Rightarrow> nat \<Rightarrow> 'a list sparser" where
  "unser_n dec 0 = preturn []"
| "unser_n dec (Suc n) = pbind dec (\<lambda>x. pbind (unser_n dec n) (\<lambda>xs. preturn (x # xs)))"

definition Serialize_array :: "('a \<Rightarrow> bytes) \<Rightarrow> 'a list \<Rightarrow> bytes" where
  "Serialize_array enc item = concat (map enc item)"

definition Unserialize_array :: "nat \<Rightarrow> 'a sparser \<Rightarrow> 'a list sparser" where
  "Unserialize_array N dec = unser_n dec N"

definition Serialize_vector :: "('a \<Rightarrow> bytes) \<Rightarrow> 'a list \<Rightarrow> bytes" where
  "Serialize_vector enc v = WriteCompactSize (of_nat (length v)) @ concat (map enc v)"

text \<open>The reader grows the vector by \<open>5000000 / sizeof(T)\<close> elements at a time; \<open>i\<close> in the
  source is the number of elements already read.  (The guard \<open>0 < step\<close> is \<open>sizeof(T) \<le>
  5000000\<close>, which every element type satisfies.)\<close>

function unser_vec_loop :: "nat \<Rightarrow> 'a sparser \<Rightarrow> nat \<Rightarrow> nat \<Rightarrow> 'a list \<Rightarrow> 'a list sparser" where
  "unser_vec_loop step dec nSize nMid v =
     (if nMid < nSize \<and> 0 < step then
        let nMid' = min (nMid + step) nSize in
        pbind (unser_n dec (nMid' - length v)) (\<lambda>xs. unser_vec_loop step dec nSize nMid' (v @ xs))
      else preturn v)"
  by pat_completeness auto
termination
  by (relation "measure (\<lambda>(step, dec, nSize, nMid, v). nSize - nMid)") auto

declare unser_vec_loop.simps [simp del]

definition Unserialize_vector :: "nat \<Rightarrow> 'a sparser \<Rightarrow> 'a list sparser" where
  "Unserialize_vector sizeofT dec =
     pbind ReadCompactSize (\<lambda>nSize. unser_vec_loop (5000000 div sizeofT) dec (unat nSize) 0 [])"

lemma length_unser_n: "unser_n dec n bs = Inr (xs, r) \<Longrightarrow> length xs = n"
  by (induction n arbitrary: bs xs r) (auto simp: parser_simps)

lemma unser_n_add:
  "unser_n dec (m + n) bs =
     pbind (unser_n dec m) (\<lambda>xs. pbind (unser_n dec n) (\<lambda>ys. preturn (xs @ ys))) bs"
  by (induction m arbitrary: bs)
    (auto simp: pbind_apply preturn_def split: sum.splits)

lemma unser_vec_loop_eq:
  assumes "0 < step" "length v = nMid" "nMid \<le> nSize"
  shows "unser_vec_loop step dec nSize nMid v bs =
     pbind (unser_n dec (nSize - nMid)) (\<lambda>xs. preturn (v @ xs)) bs"
  using assms
proof (induction step dec nSize nMid v arbitrary: bs rule: unser_vec_loop.induct)
  case (1 step dec nSize nMid v)
  show ?case
  proof (cases "nMid < nSize")
    case False
    then show ?thesis using "1.prems"
      by (subst unser_vec_loop.simps) (simp add: parser_simps)
  next
    case True
    let ?m = "min (nMid + step) nSize"
    have split: "nSize - nMid = (?m - nMid) + (nSize - ?m)" using True by simp
    have IH: "unser_vec_loop step dec nSize ?m (v @ xs) r =
        pbind (unser_n dec (nSize - ?m)) (\<lambda>ys. preturn ((v @ xs) @ ys)) r"
      if "length xs = ?m - length v" for xs r
      using "1.IH" [OF _ refl, of xs r] "1.prems" True that by simp
    have "pbind (unser_n dec (nSize - nMid)) (\<lambda>xs. preturn (v @ xs)) bs
        = pbind (unser_n dec (?m - nMid)) (\<lambda>xs. unser_vec_loop step dec nSize ?m (v @ xs)) bs"
      unfolding split unser_n_add pbind_apply
      using IH "1.prems"(2) length_unser_n [of dec]
      by (auto simp: pbind_apply preturn_def unser_n_add split: sum.splits)
    then show ?thesis using True "1.prems"
      by (simp add: unser_vec_loop.simps [of step dec nSize nMid] Let_def)
  qed
qed

context codec
begin

lemma unser_n_codec:
  "codec (\<lambda>xs. concat (map enc xs)) (unser_n dec n) (\<lambda>xs. length xs = n \<and> list_all ok xs)"
proof
  fix xs r
  assume "length xs = n \<and> list_all ok xs"
  then show "unser_n dec n (concat (map enc xs) @ r) = Inr (xs, r)"
  proof (induction n arbitrary: xs)
    case (Suc n)
    then show ?case by (cases xs) (simp_all add: parser_simps dec_enc)
  qed (simp add: parser_simps)
next
  fix bs xs r
  assume "unser_n dec n bs = Inr (xs, r)"
  then show "(length xs = n \<and> list_all ok xs) \<and> bs = concat (map enc xs) @ r"
  proof (induction n arbitrary: bs xs)
    case (Suc n)
    from Suc.prems obtain x ys r' where "dec bs = Inr (x, r')" "unser_n dec n r' = Inr (ys, r)"
        "xs = x # ys"
      by (auto simp: parser_simps)
    then show ?case using Suc.IH [of r' ys] enc_dec [of bs x r'] by simp
  qed (simp add: parser_simps)
qed

lemma array_codec:
  "codec (Serialize_array enc) (Unserialize_array n dec) (\<lambda>xs. length xs = n \<and> list_all ok xs)"
  unfolding Serialize_array_def [abs_def] Unserialize_array_def by (rule unser_n_codec)

lemma vector_codec:
  assumes "0 < sz" "sz \<le> 5000000"
  shows "codec (Serialize_vector enc) (Unserialize_vector sz dec)
     (\<lambda>xs. length xs \<le> unat MAX_SIZE \<and> list_all ok xs)"
proof -
  have "0 < 5000000 div sz" using assms by (simp add: div_greater_zero_iff)
  then have eq: "unser_vec_loop (5000000 div sz) dec n 0 [] bs =
      pbind (unser_n dec n) preturn bs" for n bs
    using unser_vec_loop_eq [of "5000000 div sz" "[]" 0 n dec bs] by simp
  show ?thesis
  proof
    fix xs r
    assume xs: "length xs \<le> unat MAX_SIZE \<and> list_all ok xs"
    then have "unser_n dec (length xs) (concat (map enc xs) @ r) = Inr (xs, r)"
      using codec.dec_enc [OF unser_n_codec] by blast
    then show "Unserialize_vector sz dec (Serialize_vector enc xs @ r) = Inr (xs, r)"
      using xs by (simp add: Unserialize_vector_def Serialize_vector_def parser_simps
          csize.dec_enc of_nat_le_MAX_SIZE unat_of_nat_size eq)
  next
    fix bs xs r
    assume "Unserialize_vector sz dec bs = Inr (xs, r)"
    then obtain n bs' where n: "n \<le> MAX_SIZE" "bs = WriteCompactSize n @ bs'"
        and xs: "unser_n dec (unat n) bs' = Inr (xs, r)"
      by (auto simp: Unserialize_vector_def parser_simps csize.dec_iff eq)
    then show "(length xs \<le> unat MAX_SIZE \<and> list_all ok xs) \<and> bs = Serialize_vector enc xs @ r"
      using codec.enc_dec [OF unser_n_codec xs]
      by (simp add: Serialize_vector_def word_le_nat_alt)
  qed
qed

end

subsection \<open>Optional values\<close>

definition Serialize_optional :: "('a \<Rightarrow> bytes) \<Rightarrow> 'a option \<Rightarrow> bytes" where
  "Serialize_optional enc item =
     (case item of Some x \<Rightarrow> ser_writedata8 0x01 @ enc x | None \<Rightarrow> ser_writedata8 0x00)"

definition Unserialize_optional :: "'a sparser \<Rightarrow> 'a option sparser" where
  "Unserialize_optional dec =
     pbind ser_readdata8 (\<lambda>discriminant.
       if discriminant = 0x00 then preturn None
       else if discriminant = 0x01 then pbind dec (\<lambda>object. preturn (Some object))
       else pfail NonCanonicalOptional)"

context codec
begin

lemma optional_codec:
  "codec (Serialize_optional enc) (Unserialize_optional dec) (pred_option ok)"
proof
  fix x r
  assume "pred_option ok x"
  then show "Unserialize_optional dec (Serialize_optional enc x @ r) = Inr (x, r)"
    by (cases x) (simp_all add: Serialize_optional_def Unserialize_optional_def parser_simps dec_enc)
next
  fix bs x r
  assume "Unserialize_optional dec bs = Inr (x, r)"
  then show "pred_option ok x \<and> bs = Serialize_optional enc x @ r"
    by (auto simp: Serialize_optional_def Unserialize_optional_def parser_simps u8.dec_iff dec_iff
        split: if_splits)
qed

end

section \<open>Properties\<close>

text \<open>\<^verbatim>\<open>CBaseDataStream::read\<close>, with its 32-bit read position and its buffer reset at the end of
  the data, reads exactly the next unread bytes or fails at the end of data, and keeps the read position
  inside the buffer; the position must not pass \<open>2\<^sup>3\<^sup>2\<close>.\<close>

theorem CDataStream_read_refines:
  assumes "stream_wf s" "unat (nReadPos s) + nSize < 2 ^ 32"
  shows "map_sum id (map_prod id unread) (CDataStream_read nSize s) = stream_read nSize (unread s) \<and>
         pred_sum (\<lambda>_. True) (\<lambda>r. stream_wf (snd r)) (CDataStream_read nSize s)"
  using stream_read_refines [OF assms] stream_read_wf [OF assms(1)]
  by (cases "CDataStream_read nSize s") auto

theorem CDataStream_read_refines_witness:
  "map_sum id (map_prod id unread) (CDataStream_read 2 \<lparr>vch = [7, 8, 9], nReadPos = 1\<rparr>) =
     stream_read 2 (unread \<lparr>vch = [7, 8, 9], nReadPos = 1\<rparr>)"
  using CDataStream_read_refines [of "\<lparr>vch = [7, 8, 9], nReadPos = 1\<rparr>" 2] by (simp add: stream_wf_def)

text \<open>\<^verbatim>\<open>ReadCompactSize\<close> accepts exactly the encodings \<^verbatim>\<open>WriteCompactSize\<close> produces for sizes up to
  \<^verbatim>\<open>MAX_SIZE\<close>, returns the size and leaves the rest of the stream; the encoding has the length
  \<^verbatim>\<open>GetSizeOfCompactSize\<close> computes.\<close>

theorem CompactSize_canonical:
  "(ReadCompactSize bs = Inr (n, r) \<longleftrightarrow> n \<le> MAX_SIZE \<and> bs = WriteCompactSize n @ r) \<and>
   length (WriteCompactSize n) = GetSizeOfCompactSize n"
  using csize.dec_iff length_WriteCompactSize by simp

text \<open>\<^verbatim>\<open>ReadVarInt\<close> into an unsigned type of \<open>w\<close> bits reads back every value \<^verbatim>\<open>WriteVarInt\<close> writes
  from that type, and the encoding has the length \<^verbatim>\<open>GetSizeOfVarInt\<close> computes.\<close>

theorem VarInt_roundtrip:
  assumes "0 \<le> n" "n < 2 ^ w"
  shows "ReadVarInt (take_bit w) (WriteVarInt n @ r) = Inr (n, r) \<and>
         length (WriteVarInt n) = GetSizeOfVarInt n"
proof -
  have "take_bit w k = k" if "0 \<le> k" "k \<le> n" for k
    using that assms by (intro take_bit_int_eq_self) linarith+
  then show ?thesis using ReadVarInt_Write assms(1) length_WriteVarInt by blast
qed

theorem VarInt_roundtrip_witness:
  "ReadVarInt (take_bit 32) (WriteVarInt 65535 @ [1]) = Inr (65535, [1])"
  using VarInt_roundtrip [of 65535 32 "[1]"] by simp

text \<open>\<^verbatim>\<open>ReadVarInt\<close> is not injective: into a 32-bit type the over-long string
  \<^verbatim>\<open>8E FE FE FF 00\<close>, the encoding of \<open>2\<^sup>3\<^sup>2\<close>, is read as 0, as is the single byte \<^verbatim>\<open>00\<close>.\<close>

theorem ReadVarInt_not_injective:
  "ReadVarInt (take_bit 32) [0x8E, 0xFE, 0xFE, 0xFF, 0x00] = Inr (0, []) \<and>
   ReadVarInt (take_bit 32) [0x00] = Inr (0, [])"
  by code_simp

end
