(* ===== verification/Zc_Hasher.thy ===== *)
theory Zc_Hasher
  imports Zc_Prelude
begin

text \<open>
  The streaming hash interface of \<^verbatim>\<open>src/crypto\<close>.  The classes \<^verbatim>\<open>CSHA256\<close>, \<^verbatim>\<open>CSHA1\<close>,
  \<^verbatim>\<open>CRIPEMD160\<close> and \<^verbatim>\<open>CSHA512\<close> all keep a chaining state, a one-block buffer and a byte
  counter, and share the text of their \<^verbatim>\<open>Write\<close> method up to the block size and the
  compression function.  \<^verbatim>\<open>hasher_Write\<close> is that method; \<^verbatim>\<open>hasher_rep\<close> says which message
  a hasher object has absorbed.  The locale \<^verbatim>\<open>block_hasher\<close> proves, once for the four classes,
  that \<^verbatim>\<open>Write\<close> absorbs exactly its argument however the message is cut into calls; the locale
  \<^verbatim>\<open>stream_hasher\<close> is the contract the clients (HMAC, double hashing, hash writers) rely on.
\<close>

unbundle bit_operations_syntax

section \<open>Byte-order helpers of crypto/common.h\<close>

definition ReadLE32 :: "bytes \<Rightarrow> u32" where
  "ReadLE32 p = of_nat (le_to_nat (take 4 p))"

definition ReadLE64 :: "bytes \<Rightarrow> u64" where
  "ReadLE64 p = of_nat (le_to_nat (take 8 p))"

definition WriteLE32 :: "u32 \<Rightarrow> bytes" where
  "WriteLE32 x = nat_to_le 4 (unat x)"

definition WriteLE64 :: "u64 \<Rightarrow> bytes" where
  "WriteLE64 x = nat_to_le 8 (unat x)"

definition ReadBE32 :: "bytes \<Rightarrow> u32" where
  "ReadBE32 p = of_nat (le_to_nat (rev (take 4 p)))"

definition ReadBE64 :: "bytes \<Rightarrow> u64" where
  "ReadBE64 p = of_nat (le_to_nat (rev (take 8 p)))"

definition WriteBE32 :: "u32 \<Rightarrow> bytes" where
  "WriteBE32 x = rev (nat_to_le 4 (unat x))"

definition WriteBE64 :: "u64 \<Rightarrow> bytes" where
  "WriteBE64 x = rev (nat_to_le 8 (unat x))"

definition memcpy :: "bytes \<Rightarrow> nat \<Rightarrow> bytes \<Rightarrow> bytes" where
  "memcpy buf off d = take off buf @ d @ drop (off + length d) buf"

section \<open>The hasher object and Write\<close>

record 'w hasher =
  hs :: "'w list"
  hbuf :: bytes
  hbytes :: u64

text \<open>The \<^verbatim>\<open>while (end >= data + B)\<close> loop: the unread data and the object.\<close>

fun hasher_chunks :: "nat \<Rightarrow> ('w list \<Rightarrow> bytes \<Rightarrow> 'w list) \<Rightarrow> bytes \<Rightarrow> 'w hasher \<Rightarrow> bytes \<times> 'w hasher" where
  "hasher_chunks B T d st =
     (if B = 0 \<or> length d < B then (d, st)
      else hasher_chunks B T (drop B d)
             (st\<lparr>hs := T (hs st) (take B d), hbytes := hbytes st + of_nat B\<rparr>))"

declare hasher_chunks.simps [simp del]

definition hasher_Write :: "nat \<Rightarrow> ('w list \<Rightarrow> bytes \<Rightarrow> 'w list) \<Rightarrow> bytes \<Rightarrow> 'w hasher \<Rightarrow> 'w hasher" where
  "hasher_Write B T data st =
     (let bufsize = unat (hbytes st) mod B;
          (data1, st1, bufsize1) =
            (if bufsize \<noteq> 0 \<and> B \<le> bufsize + length data
             then let buf1 = memcpy (hbuf st) bufsize (take (B - bufsize) data)
                  in (drop (B - bufsize) data,
                      st\<lparr>hbuf := buf1, hbytes := hbytes st + of_nat (B - bufsize),
                         hs := T (hs st) buf1\<rparr>, 0)
             else (data, st, bufsize));
          (data2, st2) = hasher_chunks B T data1 st1
      in if data2 \<noteq> []
         then st2\<lparr>hbuf := memcpy (hbuf st2) bufsize1 data2,
                  hbytes := hbytes st2 + of_nat (length data2)\<rparr>
         else st2)"

section \<open>The message a hasher has absorbed\<close>

text \<open>The reference: iterate the compression function over the full blocks of the message.\<close>

fun md_compress :: "nat \<Rightarrow> ('w list \<Rightarrow> bytes \<Rightarrow> 'w list) \<Rightarrow> 'w list \<Rightarrow> bytes \<Rightarrow> 'w list" where
  "md_compress B T s m =
     (if B = 0 \<or> length m < B then s else md_compress B T (T s (take B m)) (drop B m))"

declare md_compress.simps [simp del]

definition md_full :: "nat \<Rightarrow> bytes \<Rightarrow> nat" where
  "md_full B m = length m - length m mod B"

definition hasher_rep :: "nat \<Rightarrow> ('w list \<Rightarrow> bytes \<Rightarrow> 'w list) \<Rightarrow> 'w list \<Rightarrow> 'w hasher \<Rightarrow> bytes \<Rightarrow> bool" where
  "hasher_rep B T s0 st m \<longleftrightarrow>
     length (hbuf st) = B \<and>
     hbytes st = of_nat (length m) \<and>
     hs st = md_compress B T s0 m \<and>
     take (length m mod B) (hbuf st) = drop (md_full B m) m"

lemma length_memcpy [simp]: "off + length d \<le> length buf \<Longrightarrow> length (memcpy buf off d) = length buf"
  by (simp add: memcpy_def)

lemma take_memcpy:
  "off + length d \<le> length buf \<Longrightarrow> take (off + length d) (memcpy buf off d) = take off buf @ d"
  by (simp add: memcpy_def)

lemma md_compress_short: "length m < B \<Longrightarrow> md_compress B T s m = s"
  by (subst md_compress.simps) simp

lemma md_compress_block:
  "length b = B \<Longrightarrow> 0 < B \<Longrightarrow> md_compress B T s (b @ m) = md_compress B T (T s b) m"
  by (subst md_compress.simps) simp

lemma md_compress_append:
  assumes "0 < B" "length a = k * B"
  shows "md_compress B T s (a @ m) = md_compress B T (md_compress B T s a) m"
  using assms(2)
proof (induction k arbitrary: a s)
  case 0
  then show ?case using assms(1) by (simp add: md_compress_short)
next
  case (Suc k)
  define b c where "b = take B a" and "c = drop B a"
  have "a = b @ c" "length b = B" "length c = k * B"
    using Suc.prems by (simp_all add: b_def c_def)
  then show ?case
    using Suc.IH [of c "T s b"] assms(1) by (simp add: md_compress_block)
qed

lemma md_full_le: "md_full B m \<le> length m"
  by (simp add: md_full_def)

lemma md_full_mult: "\<exists>k. md_full B m = k * B"
  by (metis md_full_def minus_mod_eq_div_mult)

lemma length_md_tail: "length (drop (md_full B m) m) = length m mod B"
  by (simp add: md_full_def)

lemma md_compress_tail_append:
  assumes "0 < B"
  shows "md_compress B T s (m @ d) = md_compress B T (md_compress B T s m) (drop (md_full B m) m @ d)"
proof -
  obtain k where k: "md_full B m = k * B" using md_full_mult by blast
  define a t where "a = take (md_full B m) m" and "t = drop (md_full B m) m"
  have la: "length a = k * B" using md_full_le [of B m] by (simp add: a_def k)
  have m: "m = a @ t" by (simp add: a_def t_def)
  have lt: "length t < B" using assms unfolding t_def length_md_tail by simp
  have "md_compress B T s m = md_compress B T s a"
    using md_compress_append [OF assms la, of T s t] lt m by (simp add: md_compress_short)
  moreover have "md_compress B T s (m @ d) = md_compress B T (md_compress B T s a) (t @ d)"
    by (subst m) (simp add: md_compress_append [OF assms la])
  ultimately show ?thesis by (simp only: t_def)
qed

lemma hasher_chunks_eq:
  assumes "0 < B"
  shows "hasher_chunks B T d st =
     (drop (md_full B d) d,
      st\<lparr>hs := md_compress B T (hs st) d, hbytes := hbytes st + of_nat (md_full B d)\<rparr>)"
proof (induction B T d st rule: hasher_chunks.induct)
  case (1 B T d st)
  show ?case
  proof (cases "B = 0 \<or> length d < B")
    case True
    have "md_full B d = 0" using True by (auto simp: md_full_def)
    moreover have "md_compress B T (hs st) d = hs st" using True by (subst md_compress.simps) simp
    ultimately show ?thesis using True by (subst hasher_chunks.simps) simp
  next
    case False
    have full: "md_full B d = B + md_full B (drop B d)"
    proof -
      have "length d mod B = (length d - B) mod B" "(length d - B) mod B \<le> length d - B"
        using False by (simp_all add: le_mod_geq)
      then show ?thesis using False unfolding md_full_def length_drop by linarith
    qed
    have comp: "md_compress B T (hs st) d = md_compress B T (T (hs st) (take B d)) (drop B d)"
      using False by (subst md_compress.simps) simp
    show ?thesis
      using False 1 by (subst hasher_chunks.simps) (simp add: full comp add.assoc add.commute)
  qed
qed

lemma md_tail_append:
  assumes "B dvd length x"
  shows "drop (md_full B (x @ y)) (x @ y) = drop (md_full B y) y"
    and "length (x @ y) mod B = length y mod B"
    and "md_full B (x @ y) = length x + md_full B y"
proof -
  have m: "(length x + length y) mod B = length y mod B"
    using assms by (metis add_0 dvd_eq_mod_eq_0 mod_add_left_eq)
  have "length y mod B \<le> length y" by simp
  then show "md_full B (x @ y) = length x + md_full B y"
    by (simp add: md_full_def m)
  then show "drop (md_full B (x @ y)) (x @ y) = drop (md_full B y) y" by simp
  show "length (x @ y) mod B = length y mod B" by (simp add: m)
qed

lemma md_split:
  obtains a t where "m = a @ t" "B dvd length a" "t = drop (md_full B m) m" "length t = length m mod B"
  using that [of "take (md_full B m) m" "drop (md_full B m) m"] md_full_le [of B m] md_full_mult [of B m]
  by (auto simp: length_md_tail simp del: length_drop)

lemma memcpy_Nil [simp]: "memcpy buf off [] = buf"
  by (simp add: memcpy_def)

section \<open>Write absorbs its argument\<close>

text \<open>
  The counter is a \<^verbatim>\<open>size_t\<close>: it wraps at \<open>2 ^ 64\<close>, which the block size divides, so the fill
  level of the buffer is right for messages of every length.
\<close>

locale block_hasher =
  fixes B :: nat and T :: "'w list \<Rightarrow> bytes \<Rightarrow> 'w list" and s0 :: "'w list"
  assumes block_pos: "0 < B" and block_dvd: "B dvd 2 ^ 64"
begin

lemma bufsize_rep: "hasher_rep B T s0 st m \<Longrightarrow> unat (hbytes st) mod B = length m mod B"
  using block_dvd by (simp add: hasher_rep_def unat_of_nat mod_mod_cancel)

lemma rep_fresh: "length (hbuf st) = B \<Longrightarrow> hasher_rep B T s0 (st\<lparr>hs := s0, hbytes := 0\<rparr>) []"
  using block_pos by (simp add: hasher_rep_def md_compress_short md_full_def)

text \<open>The object after \<^verbatim>\<open>Write\<close>, with the loop replaced by the reference compression.\<close>

lemma Write_finish:
  "(case hasher_chunks B T d st of (d2, st2) \<Rightarrow>
      if d2 \<noteq> [] then st2\<lparr>hbuf := memcpy (hbuf st2) k d2, hbytes := hbytes st2 + of_nat (length d2)\<rparr>
      else st2)
   = st\<lparr>hs := md_compress B T (hs st) d, hbuf := memcpy (hbuf st) k (drop (md_full B d) d),
        hbytes := hbytes st + of_nat (length d)\<rparr>"
proof -
  have "of_nat (md_full B d) + of_nat (length d - md_full B d) = (of_nat (length d) :: u64)"
    using md_full_le [of B d] by (simp flip: of_nat_add)
  then show ?thesis
    by (cases "drop (md_full B d) d = []") (simp_all add: hasher_chunks_eq [OF block_pos] add.assoc)
qed

lemma Write_eq:
  "hasher_Write B T d st =
     (let k = unat (hbytes st) mod B; b = memcpy (hbuf st) k (take (B - k) d); d' = drop (B - k) d
      in if k \<noteq> 0 \<and> B \<le> k + length d
         then st\<lparr>hs := md_compress B T (T (hs st) b) d', hbuf := memcpy b 0 (drop (md_full B d') d'),
                 hbytes := hbytes st + of_nat (length d)\<rparr>
         else st\<lparr>hs := md_compress B T (hs st) d, hbuf := memcpy (hbuf st) k (drop (md_full B d) d),
                 hbytes := hbytes st + of_nat (length d)\<rparr>)"
proof (cases "unat (hbytes st) mod B \<noteq> 0 \<and> B \<le> unat (hbytes st) mod B + length d")
  case True
  then have "B - unat (hbytes st) mod B + (length d - (B - unat (hbytes st) mod B)) = length d"
    by linarith
  then have "of_nat (B - unat (hbytes st) mod B) + of_nat (length d - (B - unat (hbytes st) mod B))
      = (of_nat (length d) :: u64)"
    by (metis of_nat_add)
  then show ?thesis using True by (simp add: hasher_Write_def Let_def Write_finish add.assoc)
next
  case False
  show ?thesis by (simp only: hasher_Write_def Let_def Write_finish False if_False prod.case)
qed

lemma Write_hs:
  assumes rep: "hasher_rep B T s0 st m"
  shows "hs (hasher_Write B T d st) = md_compress B T s0 (m @ d)"
proof -
  define t where "t = drop (md_full B m) m"
  have lt: "length t = length m mod B" by (simp only: t_def length_md_tail)
  have ht: "take (length t) (hbuf st) = t" "hs st = md_compress B T s0 m" "length (hbuf st) = B"
    using rep unfolding hasher_rep_def lt by (simp_all add: t_def)
  have tl: "length t < B" using block_pos by (simp add: lt)
  have goal: "md_compress B T s0 (m @ d) = md_compress B T (hs st) (t @ d)"
    using md_compress_tail_append [OF block_pos] by (simp add: ht t_def)
  show ?thesis
  proof (cases "length t \<noteq> 0 \<and> B \<le> length t + length d")
    case True
    define b where "b = t @ take (B - length t) d"
    have b: "memcpy (hbuf st) (length t) (take (B - length t) d) = b" "length b = B"
      using True tl ht by (auto simp: b_def memcpy_def)
    have "md_compress B T (hs st) (t @ d) = md_compress B T (T (hs st) b) (drop (B - length t) d)"
      using md_compress_block [OF b(2) block_pos, of T "hs st" "drop (B - length t) d"]
      by (simp add: b_def)
    then show ?thesis
      using True b bufsize_rep [OF rep] lt goal by (simp add: Write_eq Let_def)
  next
    case False
    have "md_compress B T (hs st) (t @ d) = md_compress B T (hs st) d"
      using False block_pos by (auto simp: md_compress_short)
    then show ?thesis
      using False bufsize_rep [OF rep] lt goal by (auto simp: Write_eq Let_def)
  qed
qed


lemma Write_buf:
  assumes rep: "hasher_rep B T s0 st m"
  shows "length (hbuf (hasher_Write B T d st)) = B \<and>
         take (length (m @ d) mod B) (hbuf (hasher_Write B T d st)) = drop (md_full B (m @ d)) (m @ d)"
proof -
  obtain a t where m: "m = a @ t" "B dvd length a" "t = drop (md_full B m) m" "length t = length m mod B"
    using md_split .
  have ht: "take (length t) (hbuf st) = t" "length (hbuf st) = B"
    using rep unfolding hasher_rep_def m(4) by (simp_all flip: m(3))
  have tl: "length t < B" using block_pos by (simp add: m(4))
  show ?thesis
  proof (cases "t \<noteq> [] \<and> B \<le> length t + length d")
    case True
    define b d' where "b = t @ take (B - length t) d" and "d' = drop (B - length t) d"
    have b: "memcpy (hbuf st) (length t) (take (B - length t) d) = b" "length b = B"
      using True tl ht by (auto simp: b_def memcpy_def)
    have md: "m @ d = (a @ b) @ d'" "B dvd length (a @ b)" using m b by (simp_all add: b_def d'_def)
    have l: "length (drop (md_full B d') d') = length d' mod B" by (rule length_md_tail)
    have "hbuf (hasher_Write B T d st) = memcpy b 0 (drop (md_full B d') d')"
      using True b bufsize_rep [OF rep] m(4)
      by (auto simp: Write_eq Let_def d'_def)
    then show ?thesis
      using block_pos take_memcpy [of 0 "drop (md_full B d') d'" b]
      by (simp only: md(1) md_tail_append [OF md(2)] l b) (simp add: l b del: length_drop)
  next
    case False
    show ?thesis
    proof (cases "t = []")
      case True
      have l: "length (drop (md_full B d) d) = length d mod B" by (rule length_md_tail)
      have md: "m @ d = a @ d" using m True by simp
      have "hbuf (hasher_Write B T d st) = memcpy (hbuf st) 0 (drop (md_full B d) d)"
        using True bufsize_rep [OF rep] m(4)
        by (auto simp: Write_eq Let_def)
      then show ?thesis
        using block_pos take_memcpy [of 0 "drop (md_full B d) d" "hbuf st"]
        by (simp only: md md_tail_append [OF m(2)] l ht) (simp add: l ht del: length_drop)
    next
      case t: False
      then have lt: "length t + length d < B" using False by simp
      have full: "md_full B d = 0" "md_full B (t @ d) = 0" using lt by (simp_all add: md_full_def)
      have "hbuf (hasher_Write B T d st) = memcpy (hbuf st) (length t) d"
        using False t bufsize_rep [OF rep] m(4) full
        by (auto simp: Write_eq Let_def)
      then show ?thesis
        using lt take_memcpy [of "length t" d "hbuf st"] md_tail_append [OF m(2), of "t @ d"]
        by (simp add: m(1) full ht)
    qed
  qed
qed

lemma Write_bytes: "hbytes (hasher_Write B T d st) = hbytes st + of_nat (length d)"
  by (simp add: Write_eq Let_def)

lemma Write_rep: "hasher_rep B T s0 st m \<Longrightarrow> hasher_rep B T s0 (hasher_Write B T d st) (m @ d)"
  using Write_hs [of st m d] Write_buf [of st m d]
  by (simp add: hasher_rep_def Write_bytes)

end

text \<open>
  Merkle-Damgard padding as the standards state it: a bit 1, the least number of zero bytes that
  makes the padded length a multiple of the block, and a length field of \<open>L\<close> bytes.
\<close>

definition md_zeros :: "nat \<Rightarrow> nat \<Rightarrow> nat \<Rightarrow> nat" where
  "md_zeros B L l = hd (filter (\<lambda>k. (l + 1 + k + L) mod B = 0) [0..<B])"

definition md_pad :: "nat \<Rightarrow> nat \<Rightarrow> (nat \<Rightarrow> bytes) \<Rightarrow> bytes \<Rightarrow> bytes" where
  "md_pad B L lenfield m = 0x80 # replicate (md_zeros B L (length m)) 0 @ lenfield (length m)"

lemma dvd_add_unique:
  fixes a :: nat
  assumes "B dvd a + k" "B dvd a + z" "k < B" "z < B"
  shows "k = z"
proof -
  have "x = y" if "x \<le> y" "B dvd a + x" "B dvd a + y" "y < B" for x y
  proof -
    have "B dvd (a + y) - (a + x)" using that(2,3) by (rule dvd_diff_nat [rotated])
    then show ?thesis using that by (auto dest: dvd_imp_le)
  qed
  then show ?thesis using assms by (metis nat_le_linear)
qed

lemma filter_upt_eq: "z < B \<Longrightarrow> filter (\<lambda>k. k = z) [0..<B] = [z]"
  by (induction B) (auto simp: filter_empty_conv less_Suc_eq)

lemma md_zeros_eq:
  assumes "z < B" "(l + 1 + z + L) mod B = 0"
  shows "md_zeros B L l = z"
proof -
  have "(l + 1 + k + L) mod B = 0 \<longleftrightarrow> k = z" if "k < B" for k
    using dvd_add_unique [of B "l + 1 + L" k z] assms that by (auto simp: mod_eq_0_iff_dvd ac_simps)
  then have "filter (\<lambda>k. (l + 1 + k + L) mod B = 0) [0..<B] = filter (\<lambda>k. k = z) [0..<B]"
    by (intro filter_cong) auto
  then show ?thesis using assms by (simp add: md_zeros_def filter_upt_eq)
qed

section \<open>The contract of a hasher and its clients\<close>

text \<open>
  What the users of a hash class rely on.  \<open>rep h m\<close>: the object \<open>h\<close> has absorbed the message \<open>m\<close>;
  \<open>H\<close> is the hash function the class computes.
\<close>

locale stream_hasher =
  fixes init :: 'h and hwrite :: "bytes \<Rightarrow> 'h \<Rightarrow> 'h" and final :: "'h \<Rightarrow> bytes \<times> 'h"
    and reset :: "'h \<Rightarrow> 'h" and rep :: "'h \<Rightarrow> bytes \<Rightarrow> bool" and H :: "bytes \<Rightarrow> bytes"
  assumes rep_init: "rep init []"
    and rep_write: "rep h m \<Longrightarrow> rep (hwrite d h) (m @ d)"
    and final_digest: "rep h m \<Longrightarrow> fst (final h) = H m"
    and final_rep: "rep h m \<Longrightarrow> \<exists>m'. rep (snd (final h)) m'"
    and reset_rep: "rep h m \<Longrightarrow> rep (reset h) []"
begin

lemma rep_writes: "rep h m \<Longrightarrow> rep (fold hwrite ds h) (m @ concat ds)"
proof (induction ds arbitrary: h m)
  case (Cons d ds)
  then show ?case using rep_write [of h m d] by (metis append.assoc concat.simps(2) fold_simps(2))
qed simp

lemma digest_writes: "fst (final (fold hwrite ds init)) = H (concat ds)"
  using final_digest [OF rep_writes [OF rep_init]] by simp

lemma digest_once: "fst (final (hwrite d init)) = H d"
  using digest_writes [of "[d]"] by simp

lemma digest_again: "rep h m \<Longrightarrow> fst (final (hwrite d (reset h))) = H d"
  using final_digest [OF rep_write [OF reset_rep]] by fastforce

end

text \<open>HMAC: \<^verbatim>\<open>crypto/hmac_sha256.cpp\<close> and \<^verbatim>\<open>crypto/hmac_sha512.cpp\<close> differ in the hasher, its block
  size \<open>B\<close> and its digest size \<open>out\<close>.\<close>

record 'h hmac =
  hmac_outer :: 'h
  hmac_inner :: 'h

definition xor_bytes :: "byte \<Rightarrow> bytes \<Rightarrow> bytes" where
  "xor_bytes c = map (\<lambda>b. b XOR c)"

definition hmac_new :: "nat \<Rightarrow> nat \<Rightarrow> 'h \<Rightarrow> (bytes \<Rightarrow> 'h \<Rightarrow> 'h) \<Rightarrow> ('h \<Rightarrow> bytes \<times> 'h) \<Rightarrow> bytes \<Rightarrow> 'h hmac" where
  "hmac_new B out init hwrite final key =
     (let rkey = (if length key \<le> B then key @ replicate (B - length key) 0
                  else fst (final (hwrite key init)) @ replicate (B - out) 0);
          rkey1 = xor_bytes 0x5c rkey;
          rkey2 = xor_bytes (0x5c XOR 0x36) rkey1
      in \<lparr>hmac_outer = hwrite rkey1 init, hmac_inner = hwrite rkey2 init\<rparr>)"

definition hmac_Write :: "(bytes \<Rightarrow> 'h \<Rightarrow> 'h) \<Rightarrow> bytes \<Rightarrow> 'h hmac \<Rightarrow> 'h hmac" where
  "hmac_Write hwrite d h = h\<lparr>hmac_inner := hwrite d (hmac_inner h)\<rparr>"

definition hmac_Finalize :: "(bytes \<Rightarrow> 'h \<Rightarrow> 'h) \<Rightarrow> ('h \<Rightarrow> bytes \<times> 'h) \<Rightarrow> 'h hmac \<Rightarrow> bytes" where
  "hmac_Finalize hwrite final h =
     (let (temp, inner) = final (hmac_inner h) in fst (final (hwrite temp (hmac_outer h))))"

text \<open>RFC 2104, over a hash function.\<close>

definition rfc2104 :: "nat \<Rightarrow> (bytes \<Rightarrow> bytes) \<Rightarrow> bytes \<Rightarrow> bytes \<Rightarrow> bytes" where
  "rfc2104 B H key m =
     (let k0 = (if B < length key then H key else key);
          k = k0 @ replicate (B - length k0) 0
      in H (xor_bytes 0x5c k @ H (xor_bytes 0x36 k @ m)))"

lemma xor_bytes_twice: "xor_bytes 0x6a (xor_bytes 0x5c k) = xor_bytes 0x36 k"
  by (simp add: xor_bytes_def xor.assoc)

context stream_hasher
begin

lemma hmac_rfc2104:
  assumes "\<And>m. length (H m) = out"
  shows "hmac_Finalize hwrite final (fold (hmac_Write hwrite) ds (hmac_new B out init hwrite final key))
       = rfc2104 B H key (concat ds)"
proof -
  define k where "k = (let k0 = (if B < length key then H key else key) in k0 @ replicate (B - length k0) 0)"
  define k' where "k' = (if length key \<le> B then key @ replicate (B - length key) 0
                  else fst (final (hwrite key init)) @ replicate (B - out) 0)"
  have k': "k' = k" by (simp add: k_def k'_def Let_def digest_once assms)
  have new: "hmac_new B out init hwrite final key =
      \<lparr>hmac_outer = hwrite (xor_bytes 0x5c k) init, hmac_inner = hwrite (xor_bytes 0x36 k) init\<rparr>"
    unfolding hmac_new_def k'_def [symmetric] k' by (simp add: Let_def xor_bytes_twice)
  have writes: "fold (hmac_Write hwrite) ds h = h\<lparr>hmac_inner := fold hwrite ds (hmac_inner h)\<rparr>" for h :: "'h hmac"
    by (induction ds arbitrary: h) (simp_all add: hmac_Write_def)
  have "fst (final (fold hwrite ds (hwrite (xor_bytes 0x36 k) init))) = H (xor_bytes 0x36 k @ concat ds)"
    using digest_writes [of "xor_bytes 0x36 k # ds"] by simp
  then show ?thesis
    using digest_writes [of "[xor_bytes 0x5c k, H (xor_bytes 0x36 k @ concat ds)]"]
    by (simp add: new writes hmac_Finalize_def rfc2104_def split_beta flip: k_def)
       (simp add: k_def Let_def)
qed

end

end
