(* ===== verification/Zc_Sha2.thy ===== *)
theory Zc_Sha2
  imports Zc_Hasher
begin

text \<open>
  SHA-256 and SHA-512 as \<^verbatim>\<open>src/crypto/sha256.cpp\<close> and \<^verbatim>\<open>src/crypto/sha512.cpp\<close> compute them.  The
  sources unroll the rounds: instead of shifting the eight working variables, call \<open>i\<close> passes them
  to \<^verbatim>\<open>Round\<close> rotated by \<open>i\<close> places, and sixteen message words are updated in place.  The model
  keeps exactly that discipline (\<^verbatim>\<open>sha2_call\<close>, \<^verbatim>\<open>sha2_step\<close>); the reference (\<^verbatim>\<open>fips_round\<close>,
  \<^verbatim>\<open>fips_schedule\<close>, \<^verbatim>\<open>fips_compress\<close>) is the text of FIPS 180-4, and the two are proved equal.  The reference derives
  its constants as the standard does, from the cube and square roots of the first primes (\<^verbatim>\<open>fips_frac\<close>), and the
  tables of the sources are proved to be these numbers.
\<close>

unbundle bit_operations_syntax

section \<open>The unrolled rounds\<close>

definition Ch :: "'a::len word \<Rightarrow> 'a word \<Rightarrow> 'a word \<Rightarrow> 'a word" where
  "Ch x y z = z XOR (x AND (y XOR z))"

definition Maj :: "'a::len word \<Rightarrow> 'a word \<Rightarrow> 'a word \<Rightarrow> 'a word" where
  "Maj x y z = (x AND y) OR (z AND (x OR y))"

text \<open>\<^verbatim>\<open>Round\<close>: the new values of the reference parameters \<open>d\<close> and \<open>h\<close>.\<close>

definition sha2_Round ::
  "('a::len word \<Rightarrow> 'a word) \<Rightarrow> ('a word \<Rightarrow> 'a word) \<Rightarrow> 'a word \<Rightarrow> 'a word \<Rightarrow> 'a word \<Rightarrow> 'a word \<Rightarrow>
   'a word \<Rightarrow> 'a word \<Rightarrow> 'a word \<Rightarrow> 'a word \<Rightarrow> 'a word \<Rightarrow> 'a word \<Rightarrow> 'a word \<times> 'a word" where
  "sha2_Round S0 S1 a b c d e f g h k w =
     (let t1 = h + S1 e + Ch e f g + k + w;
          t2 = S0 a + Maj a b c
      in (d + t1, t1 + t2))"

text \<open>Call number \<open>i\<close> of \<^verbatim>\<open>Round\<close>: parameter \<open>p\<close> is the variable \<open>(p - i) mod 8\<close> of \<open>a .. h\<close>.\<close>

definition sha2_arg :: "nat \<Rightarrow> nat \<Rightarrow> nat" where
  "sha2_arg i p = (p + 7 * i) mod 8"

definition sha2_call ::
  "('a::len word \<Rightarrow> 'a word) \<Rightarrow> ('a word \<Rightarrow> 'a word) \<Rightarrow> nat \<Rightarrow> 'a word \<Rightarrow> 'a word \<Rightarrow> 'a word list \<Rightarrow> 'a word list" where
  "sha2_call S0 S1 i k w v =
     (let x = (\<lambda>p. v ! sha2_arg i p);
          (d, h) = sha2_Round S0 S1 (x 0) (x 1) (x 2) (x 3) (x 4) (x 5) (x 6) (x 7) k w
      in v[sha2_arg i 3 := d, sha2_arg i 7 := h])"

text \<open>The word of call \<open>i\<close>: read from the chunk for the first sixteen, then updated in place.\<close>

definition sha2_word ::
  "('a::len word \<Rightarrow> 'a word) \<Rightarrow> ('a word \<Rightarrow> 'a word) \<Rightarrow> (nat \<Rightarrow> 'a word) \<Rightarrow> nat \<Rightarrow> 'a word list \<Rightarrow> 'a word" where
  "sha2_word s0 s1 rd i ws =
     (if i < 16 then rd i
      else ws ! (i mod 16) + (s1 (ws ! ((i + 14) mod 16)) + ws ! ((i + 9) mod 16) + s0 (ws ! ((i + 1) mod 16))))"

definition sha2_step ::
  "('a::len word \<Rightarrow> 'a word) \<Rightarrow> ('a word \<Rightarrow> 'a word) \<Rightarrow> ('a word \<Rightarrow> 'a word) \<Rightarrow> ('a word \<Rightarrow> 'a word) \<Rightarrow> 'a word list \<Rightarrow>
   (nat \<Rightarrow> 'a word) \<Rightarrow> nat \<Rightarrow> 'a word list \<times> 'a word list \<Rightarrow> 'a word list \<times> 'a word list" where
  "sha2_step S0 S1 s0 s1 K rd i vw =
     (let w = sha2_word s0 s1 rd i (snd vw)
      in (sha2_call S0 S1 i (K ! i) w (fst vw), (snd vw)[i mod 16 := w]))"

definition sha2_Transform ::
  "('a::len word \<Rightarrow> 'a word) \<Rightarrow> ('a word \<Rightarrow> 'a word) \<Rightarrow> ('a word \<Rightarrow> 'a word) \<Rightarrow> ('a word \<Rightarrow> 'a word) \<Rightarrow> 'a word list \<Rightarrow>
   (bytes \<Rightarrow> nat \<Rightarrow> 'a word) \<Rightarrow> 'a word list \<Rightarrow> bytes \<Rightarrow> 'a word list" where
  "sha2_Transform S0 S1 s0 s1 K rd s chunk =
     map2 (+) s (fst (fold (sha2_step S0 S1 s0 s1 K (rd chunk)) [0..<length K] (s, replicate 16 0)))"

section \<open>SHA-256\<close>

definition sha256_Sigma0 :: "u32 \<Rightarrow> u32" where
  "sha256_Sigma0 x = (drop_bit 2 x OR push_bit 30 x) XOR (drop_bit 13 x OR push_bit 19 x) XOR (drop_bit 22 x OR push_bit 10 x)"

definition sha256_Sigma1 :: "u32 \<Rightarrow> u32" where
  "sha256_Sigma1 x = (drop_bit 6 x OR push_bit 26 x) XOR (drop_bit 11 x OR push_bit 21 x) XOR (drop_bit 25 x OR push_bit 7 x)"

definition sha256_sigma0 :: "u32 \<Rightarrow> u32" where
  "sha256_sigma0 x = (drop_bit 7 x OR push_bit 25 x) XOR (drop_bit 18 x OR push_bit 14 x) XOR drop_bit 3 x"

definition sha256_sigma1 :: "u32 \<Rightarrow> u32" where
  "sha256_sigma1 x = (drop_bit 17 x OR push_bit 15 x) XOR (drop_bit 19 x OR push_bit 13 x) XOR drop_bit 10 x"

definition sha256_Initialize :: "u32 list" where
  "sha256_Initialize =
     [0x6a09e667, 0xbb67ae85, 0x3c6ef372, 0xa54ff53a, 0x510e527f, 0x9b05688c, 0x1f83d9ab, 0x5be0cd19]"

text \<open>The constants of the calls of \<^verbatim>\<open>Round\<close>, one row per eight calls: after eight calls the registers
  are back in their first places.\<close>

definition sha256_K :: "u32 list" where
  "sha256_K =
     concat
      [[0x428a2f98, 0x71374491, 0xb5c0fbcf, 0xe9b5dba5, 0x3956c25b, 0x59f111f1, 0x923f82a4, 0xab1c5ed5],
       [0xd807aa98, 0x12835b01, 0x243185be, 0x550c7dc3, 0x72be5d74, 0x80deb1fe, 0x9bdc06a7, 0xc19bf174],
       [0xe49b69c1, 0xefbe4786, 0x0fc19dc6, 0x240ca1cc, 0x2de92c6f, 0x4a7484aa, 0x5cb0a9dc, 0x76f988da],
       [0x983e5152, 0xa831c66d, 0xb00327c8, 0xbf597fc7, 0xc6e00bf3, 0xd5a79147, 0x06ca6351, 0x14292967],
       [0x27b70a85, 0x2e1b2138, 0x4d2c6dfc, 0x53380d13, 0x650a7354, 0x766a0abb, 0x81c2c92e, 0x92722c85],
       [0xa2bfe8a1, 0xa81a664b, 0xc24b8b70, 0xc76c51a3, 0xd192e819, 0xd6990624, 0xf40e3585, 0x106aa070],
       [0x19a4c116, 0x1e376c08, 0x2748774c, 0x34b0bcb5, 0x391c0cb3, 0x4ed8aa4a, 0x5b9cca4f, 0x682e6ff3],
       [0x748f82ee, 0x78a5636f, 0x84c87814, 0x8cc70208, 0x90befffa, 0xa4506ceb, 0xbef9a3f7, 0xc67178f2]]"

definition sha256_Transform :: "u32 list \<Rightarrow> bytes \<Rightarrow> u32 list" where
  "sha256_Transform = sha2_Transform sha256_Sigma0 sha256_Sigma1 sha256_sigma0 sha256_sigma1 sha256_K
     (\<lambda>chunk i. ReadBE32 (drop (4 * i) chunk))"

definition CSHA256 :: "u32 hasher" where
  "CSHA256 = \<lparr>hs = sha256_Initialize, hbuf = replicate 64 0, hbytes = 0\<rparr>"

definition CSHA256_Write :: "bytes \<Rightarrow> u32 hasher \<Rightarrow> u32 hasher" where
  "CSHA256_Write = hasher_Write 64 sha256_Transform"

definition CSHA256_FinalizeNoPadding :: "bool \<Rightarrow> u32 hasher \<Rightarrow> string + bytes" where
  "CSHA256_FinalizeNoPadding enforce_compression st =
     (if enforce_compression \<and> hbytes st \<noteq> 64
      then Inl ''SHA256Compress should be invoked with a 512-bit block''
      else Inr (concat (map WriteBE32 (hs st))))"

definition CSHA256_Finalize :: "u32 hasher \<Rightarrow> bytes \<times> u32 hasher" where
  "CSHA256_Finalize st =
     (let pad = 0x80 # replicate 63 0;
          sizedesc = WriteBE64 (push_bit 3 (hbytes st));
          st1 = CSHA256_Write (take (1 + (119 - unat (hbytes st) mod 64) mod 64) pad) st;
          st2 = CSHA256_Write sizedesc st1
      in (projr (CSHA256_FinalizeNoPadding False st2), st2))"

definition CSHA256_Reset :: "u32 hasher \<Rightarrow> u32 hasher" where
  "CSHA256_Reset st = st\<lparr>hs := sha256_Initialize, hbytes := 0\<rparr>"

section \<open>SHA-512\<close>

definition sha512_Sigma0 :: "u64 \<Rightarrow> u64" where
  "sha512_Sigma0 x = (drop_bit 28 x OR push_bit 36 x) XOR (drop_bit 34 x OR push_bit 30 x) XOR (drop_bit 39 x OR push_bit 25 x)"

definition sha512_Sigma1 :: "u64 \<Rightarrow> u64" where
  "sha512_Sigma1 x = (drop_bit 14 x OR push_bit 50 x) XOR (drop_bit 18 x OR push_bit 46 x) XOR (drop_bit 41 x OR push_bit 23 x)"

definition sha512_sigma0 :: "u64 \<Rightarrow> u64" where
  "sha512_sigma0 x = (drop_bit 1 x OR push_bit 63 x) XOR (drop_bit 8 x OR push_bit 56 x) XOR drop_bit 7 x"

definition sha512_sigma1 :: "u64 \<Rightarrow> u64" where
  "sha512_sigma1 x = (drop_bit 19 x OR push_bit 45 x) XOR (drop_bit 61 x OR push_bit 3 x) XOR drop_bit 6 x"

definition sha512_Initialize :: "u64 list" where
  "sha512_Initialize =
     [0x6a09e667f3bcc908, 0xbb67ae8584caa73b, 0x3c6ef372fe94f82b, 0xa54ff53a5f1d36f1,
      0x510e527fade682d1, 0x9b05688c2b3e6c1f, 0x1f83d9abfb41bd6b, 0x5be0cd19137e2179]"

definition sha512_K :: "u64 list" where
  "sha512_K =
     concat
      [[0x428a2f98d728ae22, 0x7137449123ef65cd, 0xb5c0fbcfec4d3b2f, 0xe9b5dba58189dbbc,
        0x3956c25bf348b538, 0x59f111f1b605d019, 0x923f82a4af194f9b, 0xab1c5ed5da6d8118],
       [0xd807aa98a3030242, 0x12835b0145706fbe, 0x243185be4ee4b28c, 0x550c7dc3d5ffb4e2,
        0x72be5d74f27b896f, 0x80deb1fe3b1696b1, 0x9bdc06a725c71235, 0xc19bf174cf692694],
       [0xe49b69c19ef14ad2, 0xefbe4786384f25e3, 0x0fc19dc68b8cd5b5, 0x240ca1cc77ac9c65,
        0x2de92c6f592b0275, 0x4a7484aa6ea6e483, 0x5cb0a9dcbd41fbd4, 0x76f988da831153b5],
       [0x983e5152ee66dfab, 0xa831c66d2db43210, 0xb00327c898fb213f, 0xbf597fc7beef0ee4,
        0xc6e00bf33da88fc2, 0xd5a79147930aa725, 0x06ca6351e003826f, 0x142929670a0e6e70],
       [0x27b70a8546d22ffc, 0x2e1b21385c26c926, 0x4d2c6dfc5ac42aed, 0x53380d139d95b3df,
        0x650a73548baf63de, 0x766a0abb3c77b2a8, 0x81c2c92e47edaee6, 0x92722c851482353b],
       [0xa2bfe8a14cf10364, 0xa81a664bbc423001, 0xc24b8b70d0f89791, 0xc76c51a30654be30,
        0xd192e819d6ef5218, 0xd69906245565a910, 0xf40e35855771202a, 0x106aa07032bbd1b8],
       [0x19a4c116b8d2d0c8, 0x1e376c085141ab53, 0x2748774cdf8eeb99, 0x34b0bcb5e19b48a8,
        0x391c0cb3c5c95a63, 0x4ed8aa4ae3418acb, 0x5b9cca4f7763e373, 0x682e6ff3d6b2b8a3],
       [0x748f82ee5defb2fc, 0x78a5636f43172f60, 0x84c87814a1f0ab72, 0x8cc702081a6439ec,
        0x90befffa23631e28, 0xa4506cebde82bde9, 0xbef9a3f7b2c67915, 0xc67178f2e372532b],
       [0xca273eceea26619c, 0xd186b8c721c0c207, 0xeada7dd6cde0eb1e, 0xf57d4f7fee6ed178,
        0x06f067aa72176fba, 0x0a637dc5a2c898a6, 0x113f9804bef90dae, 0x1b710b35131c471b],
       [0x28db77f523047d84, 0x32caab7b40c72493, 0x3c9ebe0a15c9bebc, 0x431d67c49c100d4c,
        0x4cc5d4becb3e42b6, 0x597f299cfc657e2a, 0x5fcb6fab3ad6faec, 0x6c44198c4a475817]]"

definition sha512_Transform :: "u64 list \<Rightarrow> bytes \<Rightarrow> u64 list" where
  "sha512_Transform = sha2_Transform sha512_Sigma0 sha512_Sigma1 sha512_sigma0 sha512_sigma1 sha512_K
     (\<lambda>chunk i. ReadBE64 (drop (8 * i) chunk))"

definition CSHA512 :: "u64 hasher" where
  "CSHA512 = \<lparr>hs = sha512_Initialize, hbuf = replicate 128 0, hbytes = 0\<rparr>"

definition CSHA512_Write :: "bytes \<Rightarrow> u64 hasher \<Rightarrow> u64 hasher" where
  "CSHA512_Write = hasher_Write 128 sha512_Transform"

definition CSHA512_Finalize :: "u64 hasher \<Rightarrow> bytes \<times> u64 hasher" where
  "CSHA512_Finalize st =
     (let pad = 0x80 # replicate 127 0;
          sizedesc = replicate 8 0 @ WriteBE64 (push_bit 3 (hbytes st));
          st1 = CSHA512_Write (take (1 + (239 - unat (hbytes st) mod 128) mod 128) pad) st;
          st2 = CSHA512_Write sizedesc st1
      in (concat (map WriteBE64 (hs st2)), st2))"

definition CSHA512_Reset :: "u64 hasher \<Rightarrow> u64 hasher" where
  "CSHA512_Reset st = st\<lparr>hs := sha512_Initialize, hbytes := 0\<rparr>"

section \<open>FIPS 180-4\<close>

definition fips_Ch :: "'a::len word \<Rightarrow> 'a word \<Rightarrow> 'a word \<Rightarrow> 'a word" where
  "fips_Ch x y z = (x AND y) XOR (NOT x AND z)"

definition fips_Maj :: "'a::len word \<Rightarrow> 'a word \<Rightarrow> 'a word \<Rightarrow> 'a word" where
  "fips_Maj x y z = (x AND y) XOR (x AND z) XOR (y AND z)"

text \<open>A sum of three rotations to the right, and of two rotations and a shift.\<close>

definition fips_Sigma :: "nat \<Rightarrow> nat \<Rightarrow> nat \<Rightarrow> 'a::len word \<Rightarrow> 'a word" where
  "fips_Sigma i j k x = word_rotr i x XOR word_rotr j x XOR word_rotr k x"

definition fips_sigma :: "nat \<Rightarrow> nat \<Rightarrow> nat \<Rightarrow> 'a::len word \<Rightarrow> 'a word" where
  "fips_sigma i j k x = word_rotr i x XOR word_rotr j x XOR drop_bit k x"

fun fips_schedule ::
  "('a::len word \<Rightarrow> 'a word) \<Rightarrow> ('a word \<Rightarrow> 'a word) \<Rightarrow> 'a word list \<Rightarrow> nat \<Rightarrow> 'a word list" where
  "fips_schedule s0 s1 m 0 = m"
| "fips_schedule s0 s1 m (Suc n) =
     (let W = fips_schedule s0 s1 m n; t = length W
      in W @ [s1 (W ! (t - 2)) + W ! (t - 7) + s0 (W ! (t - 15)) + W ! (t - 16)])"

definition fips_round ::
  "('a::len word \<Rightarrow> 'a word) \<Rightarrow> ('a word \<Rightarrow> 'a word) \<Rightarrow> 'a word \<Rightarrow> 'a word \<Rightarrow> 'a word list \<Rightarrow> 'a word list" where
  "fips_round S0 S1 k w v =
     (let T1 = v ! 7 + S1 (v ! 4) + fips_Ch (v ! 4) (v ! 5) (v ! 6) + k + w;
          T2 = S0 (v ! 0) + fips_Maj (v ! 0) (v ! 1) (v ! 2)
      in [T1 + T2, v ! 0, v ! 1, v ! 2, v ! 3 + T1, v ! 4, v ! 5, v ! 6])"

definition fips_compress ::
  "('a::len word \<Rightarrow> 'a word) \<Rightarrow> ('a word \<Rightarrow> 'a word) \<Rightarrow> ('a word \<Rightarrow> 'a word) \<Rightarrow> ('a word \<Rightarrow> 'a word) \<Rightarrow> 'a word list \<Rightarrow>
   (bytes \<Rightarrow> nat \<Rightarrow> 'a word) \<Rightarrow> 'a word list \<Rightarrow> bytes \<Rightarrow> 'a word list" where
  "fips_compress S0 S1 s0 s1 K rd H chunk =
     (let W = fips_schedule s0 s1 (map (rd chunk) [0..<16]) (length K - 16)
      in map2 (+) H (fold (\<lambda>t. fips_round S0 S1 (K ! t) (W ! t)) [0..<length K] H))"

lemma Ch_fips: "Ch x y z = fips_Ch x y z"
  by (rule bit_eqI) (auto simp: Ch_def fips_Ch_def bit_simps)

lemma Maj_fips: "Maj x y z = fips_Maj x y z"
  by (rule bit_eqI) (auto simp: Maj_def fips_Maj_def bit_simps)

lemma rotr_eq:
  fixes x :: "'a::len word"
  assumes "n < LENGTH('a)"
  shows "word_rotr n x = drop_bit n x OR push_bit (LENGTH('a) - n) x"
proof (rule bit_eqI)
  fix i assume "possible_bit TYPE('a word) i"
  then have i: "i < LENGTH('a)" by simp
  show "bit (word_rotr n x) i \<longleftrightarrow> bit (drop_bit n x OR push_bit (LENGTH('a) - n) x) i"
  proof (cases "i + n < LENGTH('a)")
    case True
    then show ?thesis using i assms by (auto simp: bit_simps add.commute)
  next
    case False
    then have "(i + n) mod LENGTH('a) = i - (LENGTH('a) - n)"
      using i assms by (simp add: mod_if)
    then show ?thesis using False i assms
      by (auto simp: bit_simps add.commute dest: bit_imp_le_length)
  qed
qed

lemma length_fips_schedule [simp]: "length (fips_schedule s0 s1 m n) = length m + n"
  by (induction n) (simp_all add: Let_def)

lemma fips_schedule_prefix:
  "i < length m + n \<Longrightarrow> fips_schedule s0 s1 m (n + k) ! i = fips_schedule s0 s1 m n ! i"
  by (induction k) (simp_all add: Let_def nth_append)

lemma fips_schedule_early: "i < length m \<Longrightarrow> fips_schedule s0 s1 m n ! i = m ! i"
  using fips_schedule_prefix [of i m 0] by simp

lemma fips_schedule_late:
  fixes s0 s1 :: "'a::len word \<Rightarrow> 'a word"
  assumes "length m = 16" "16 \<le> t" "t < 16 + n"
  defines "W \<equiv> fips_schedule s0 s1 m n"
  shows "W ! t = s1 (W ! (t - 2)) + W ! (t - 7) + s0 (W ! (t - 15)) + W ! (t - 16)"
proof -
  define k j where "k = t - 16" and "j = n - Suc (t - 16)"
  have t: "t = 16 + k" and n: "n = Suc k + j" using assms(2,3) by (auto simp: k_def j_def)
  define V where "V = fips_schedule s0 s1 m k"
  have V: "W ! i = V ! i" if "i < 16 + k" for i
    using fips_schedule_prefix [of i m k s0 s1 "Suc j"] that assms(1) by (simp add: W_def V_def n)
  have "W ! t = fips_schedule s0 s1 m (Suc k) ! t"
    unfolding W_def n by (subst fips_schedule_prefix) (simp_all add: assms(1) t)
  also have "\<dots> = s1 (V ! (t - 2)) + V ! (t - 7) + s0 (V ! (t - 15)) + V ! (t - 16)"
    by (simp add: Let_def assms(1) t nth_append flip: V_def) (simp add: V_def assms(1))
  finally show ?thesis by (simp add: V t)
qed

section \<open>The unrolled rounds compute the standard's compression function\<close>

text \<open>The working variables of the standard, read off the rotating registers after \<open>i\<close> calls.\<close>

definition sha2_view :: "nat \<Rightarrow> 'a list \<Rightarrow> 'a list" where
  "sha2_view i v = map (\<lambda>p. v ! sha2_arg i p) [0..<8]"

lemma sha2_arg_mod: "sha2_arg i p = sha2_arg (i mod 8) p"
  unfolding sha2_arg_def by (metis mod_add_right_eq mod_mult_right_eq)

lemma sha2_arg_Suc: "sha2_arg (Suc i) p = sha2_arg (Suc (i mod 8)) p"
  unfolding sha2_arg_def by (metis mod_add_right_eq mod_mult_right_eq mod_Suc_eq)

lemma upt_8: "[0..<8] = [0, 1, 2, 3, 4, 5, 6, 7::nat]"
  by (simp add: numeral_eq_Suc)

lemma sha2_call_view:
  assumes "length v = 8"
  shows "sha2_view (Suc i) (sha2_call S0 S1 i k w v) = fips_round S0 S1 k w (sha2_view i v)"
proof -
  have *: "sha2_view (Suc j) (sha2_call S0 S1 j k w v) = fips_round S0 S1 k w (sha2_view j v)"
    if "j \<in> set [0..<8]" for j
    using that unfolding sha2_view_def sha2_call_def sha2_Round_def fips_round_def Let_def upt_8
    by (simp only: list.set insert_iff empty_iff)
       (elim disjE FalseE; simp add: sha2_arg_def Ch_fips Maj_fips nth_list_update assms)
  have "sha2_view (Suc i) u = sha2_view (Suc (i mod 8)) u" for u :: "'a word list"
    unfolding sha2_view_def by (simp only: sha2_arg_Suc [of i])
  moreover have "sha2_view i v = sha2_view (i mod 8) v"
    unfolding sha2_view_def by (simp only: sha2_arg_mod [of i])
  moreover have "sha2_call S0 S1 i k w v = sha2_call S0 S1 (i mod 8) k w v"
    unfolding sha2_call_def by (simp only: sha2_arg_mod [of i])
  ultimately show ?thesis using * [of "i mod 8"] by simp
qed

lemma sha2_word_eq:
  assumes "length W = N" "\<And>t. t < i \<Longrightarrow> i \<le> t + 16 \<Longrightarrow> ws ! (t mod 16) = W ! t"
    and "i < N" "\<And>t. t < 16 \<Longrightarrow> W ! t = rd t"
    and "\<And>t. 16 \<le> t \<Longrightarrow> t < N \<Longrightarrow> W ! t = s1 (W ! (t - 2)) + W ! (t - 7) + s0 (W ! (t - 15)) + W ! (t - 16)"
  shows "sha2_word s0 s1 rd i ws = W ! i"
proof (cases "i < 16")
  case False
  have *: "ws ! ((i + (16 - k)) mod 16) = W ! (i - k)" if "0 < k" "k \<le> 16" for k
  proof -
    have "i + (16 - k) = (i - k) + 16" using that False by simp
    then have "(i + (16 - k)) mod 16 = (i - k) mod 16" by (metis mod_add_self2)
    then show ?thesis using assms(2) [of "i - k"] that False by simp
  qed
  show ?thesis
    using * [of 2] * [of 7] * [of 15] * [of 16] False assms(5) [of i] assms(3)
    by (simp add: sha2_word_def add.commute add.left_commute)
qed (simp add: sha2_word_def assms(4))

lemma sha2_fold_inv:
  fixes S0 S1 s0 s1 :: "'a::len word \<Rightarrow> 'a word" and rd :: "nat \<Rightarrow> 'a word" and K s :: "'a word list"
  assumes s: "length s = 8" and N: "16 \<le> length K" and n: "n \<le> length K"
  defines "W \<equiv> fips_schedule s0 s1 (map rd [0..<16]) (length K - 16)"
    and "vw \<equiv> \<lambda>n. fold (sha2_step S0 S1 s0 s1 K rd) [0..<n] (s, replicate 16 0)"
  shows "length (fst (vw n)) = 8 \<and> length (snd (vw n)) = 16 \<and>
    sha2_view n (fst (vw n)) = fold (\<lambda>t. fips_round S0 S1 (K ! t) (W ! t)) [0..<n] s \<and>
    (\<forall>t<n. n \<le> t + 16 \<longrightarrow> snd (vw n) ! (t mod 16) = W ! t)"
  using n
proof (induction n)
  case 0
  have "sha2_view 0 s = s"
    using s by (intro nth_equalityI) (simp_all add: sha2_view_def sha2_arg_def)
  then show ?case by (simp add: vw_def s)
next
  case (Suc n)
  define v ws where "v = fst (vw n)" and "ws = snd (vw n)"
  have vw: "vw n = (v, ws)" by (simp add: v_def ws_def)
  have IH: "length v = 8" "length ws = 16"
      "sha2_view n v = fold (\<lambda>t. fips_round S0 S1 (K ! t) (W ! t)) [0..<n] s"
      "\<And>t. t < n \<Longrightarrow> n \<le> t + 16 \<Longrightarrow> ws ! (t mod 16) = W ! t"
    using Suc by (simp_all add: v_def ws_def)
  have w: "sha2_word s0 s1 rd n ws = W ! n"
  proof (rule sha2_word_eq [where N = "length K", OF _ IH(4)])
    show "length W = length K" using N by (simp add: W_def)
    show "n < length K" using Suc.prems by simp
    show "W ! t = rd t" if "t < 16" for t
      using that by (simp add: W_def fips_schedule_early)
    show "W ! t = s1 (W ! (t - 2)) + W ! (t - 7) + s0 (W ! (t - 15)) + W ! (t - 16)"
      if "16 \<le> t" "t < length K" for t
      using that unfolding W_def by (intro fips_schedule_late) auto
  qed
  have vw': "vw (Suc n) = (sha2_call S0 S1 n (K ! n) (W ! n) v, ws[n mod 16 := W ! n])"
    using vw unfolding vw_def by (simp add: sha2_step_def w Let_def)
  have "ws[n mod 16 := W ! n] ! (t mod 16) = W ! t" if "t < Suc n" "Suc n \<le> t + 16" for t
  proof (cases "t = n")
    case False
    then have "\<not> 16 dvd n - t" using that by (auto dest!: dvd_imp_le)
    then have "t mod 16 \<noteq> n mod 16" using that mod_eq_dvd_iff_nat [of t n 16] by auto
    then show ?thesis using IH(4) [of t] that False by simp
  qed (simp add: IH(2))
  then show ?case
    using sha2_call_view [OF IH(1), of n S0 S1 "K ! n" "W ! n"] IH
    by (simp add: vw' sha2_call_def Let_def split_beta)
qed

lemma sha2_Transform_fips:
  assumes "length s = 8" "16 \<le> length K" "length K mod 8 = 0"
  shows "sha2_Transform S0 S1 s0 s1 K rd s chunk = fips_compress S0 S1 s0 s1 K rd s chunk"
proof -
  define v where "v = fst (fold (sha2_step S0 S1 s0 s1 K (rd chunk)) [0..<length K] (s, replicate 16 0))"
  have inv: "length v = 8" "sha2_view (length K) v =
      fold (\<lambda>t. fips_round S0 S1 (K ! t) (fips_schedule s0 s1 (map (rd chunk) [0..<16]) (length K - 16) ! t))
        [0..<length K] s"
    using sha2_fold_inv [OF assms(1,2) order.refl, of S0 S1 s0 s1 "rd chunk"] by (simp_all add: v_def)
  have "sha2_view (length K) v = sha2_view 0 v"
    unfolding sha2_view_def using sha2_arg_mod [of "length K"] assms(3) by simp
  also have "\<dots> = v"
    using inv(1) by (intro nth_equalityI) (simp_all add: sha2_view_def sha2_arg_def)
  finally show ?thesis
    using inv(2) by (simp add: sha2_Transform_def fips_compress_def Let_def flip: v_def)
qed

lemma length_sha2_Transform:
  assumes "length s = 8" "16 \<le> length K"
  shows "length (sha2_Transform S0 S1 s0 s1 K rd s chunk) = 8"
  using sha2_fold_inv [OF assms order.refl, of S0 S1 s0 s1 "rd chunk"] assms
  by (simp add: sha2_Transform_def)

lemma md_compress_cong:
  assumes "P s" "\<And>s c. P s \<Longrightarrow> T s c = T' s c \<and> P (T' s c)"
  shows "md_compress B T s m = md_compress B T' s m \<and> P (md_compress B T' s m)"
  using assms(1)
proof (induction m arbitrary: s rule: measure_induct_rule [of length])
  case (less m)
  have "T s (take B m) = T' s (take B m)" "P (T' s (take B m))"
    using assms(2) [OF less.prems] by auto
  with less show ?case by (subst (1 2 3) md_compress.simps) auto
qed

section \<open>The classes compute SHA-256 and SHA-512\<close>

text \<open>The constants as the standard derives them: the first bits of the fractional parts of the cube roots of the first
  eighty primes, and of the square roots of the first eight.  The integer \<open>floor_root k (p * 2 ^ (k * w))\<close> is
  the root of \<open>p\<close> with \<open>w\<close> binary places, and the word drops the part before the point.\<close>

definition fips_primes :: "nat list" where
  "fips_primes =
     [2, 3, 5, 7, 11, 13, 17, 19, 23, 29, 31, 37, 41, 43, 47, 53, 59, 61, 67, 71, 73, 79, 83, 89, 97, 101, 103, 107, 109, 113,
      127, 131, 137, 139, 149, 151, 157, 163, 167, 173, 179, 181, 191, 193, 197, 199, 211, 223, 227, 229, 233, 239, 241, 251,
      257, 263, 269, 271, 277, 281, 283, 293, 307, 311, 313, 317, 331, 337, 347, 349, 353, 359, 367, 373, 379, 383, 389, 397, 401, 409]"

definition floor_root :: "nat \<Rightarrow> nat \<Rightarrow> nat" where
  "floor_root k n = Max {y. y ^ k \<le> n}"

definition fips_frac :: "nat \<Rightarrow> nat \<Rightarrow> 'a::len word" where
  "fips_frac k p = of_nat (floor_root k (p * 2 ^ (k * LENGTH('a))))"

text \<open>Words of a block and bytes of a word, the most significant byte first.\<close>

definition fips_word :: "nat \<Rightarrow> bytes \<Rightarrow> nat \<Rightarrow> 'a::len word" where
  "fips_word k chunk i = foldl (\<lambda>w b. 256 * w + of_nat (unat b)) 0 (take k (drop (k * i) chunk))"

definition fips_bytes :: "nat \<Rightarrow> 'a::len word \<Rightarrow> bytes" where
  "fips_bytes k w = map (\<lambda>j. of_nat (unat w div 256 ^ (k - 1 - j))) [0..<k]"

definition fips_sha256_f :: "u32 list \<Rightarrow> bytes \<Rightarrow> u32 list" where
  "fips_sha256_f = fips_compress (fips_Sigma 2 13 22) (fips_Sigma 6 11 25) (fips_sigma 7 18 3) (fips_sigma 17 19 10)
     (map (fips_frac 3) (take 64 fips_primes)) (fips_word 4)"

definition fips_sha256 :: "bytes \<Rightarrow> bytes" where
  "fips_sha256 m = concat (map (fips_bytes 4) (md_compress 64 fips_sha256_f (map (fips_frac 2) (take 8 fips_primes))
     (m @ md_pad 64 8 (\<lambda>l. rev (nat_to_le 8 (8 * l))) m)))"

definition fips_sha512_f :: "u64 list \<Rightarrow> bytes \<Rightarrow> u64 list" where
  "fips_sha512_f = fips_compress (fips_Sigma 28 34 39) (fips_Sigma 14 18 41) (fips_sigma 1 8 7) (fips_sigma 19 61 6)
     (map (fips_frac 3) fips_primes) (fips_word 8)"

definition fips_sha512 :: "bytes \<Rightarrow> bytes" where
  "fips_sha512 m = concat (map (fips_bytes 8) (md_compress 128 fips_sha512_f (map (fips_frac 2) (take 8 fips_primes))
     (m @ md_pad 128 16 (\<lambda>l. rev (nat_to_le 16 (8 * l))) m)))"

text \<open>The length field \<^verbatim>\<open>CSHA512::Finalize\<close> writes holds the low 64 bits of the standard's 128.\<close>

definition sha512_digest :: "bytes \<Rightarrow> bytes" where
  "sha512_digest m = concat (map WriteBE64 (md_compress 128 fips_sha512_f sha512_Initialize
     (m @ md_pad 128 16 (\<lambda>l. replicate 8 0 @ rev (nat_to_le 8 (8 * l))) m)))"

lemma floor_root_eq:
  assumes "y ^ k \<le> n" "n < (y + 1) ^ k"
  shows "floor_root k n = y"
  unfolding floor_root_def
proof (rule Max_eqI)
  have le: "x \<le> y" if "x ^ k \<le> n" for x
  proof (rule ccontr)
    assume "\<not> x \<le> y"
    then have "(y + 1) ^ k \<le> x ^ k" by (intro power_mono) auto
    then show False using that assms(2) by linarith
  qed
  show "finite {y. y ^ k \<le> n}" using le by (auto intro: finite_subset [of _ "{..y}"])
  show "x \<le> y" if "x \<in> {y. y ^ k \<le> n}" for x using that le by simp
  show "y \<in> {y. y ^ k \<le> n}" using assms(1) by simp
qed

text \<open>\<open>w\<close> are the binary places of a root with \<open>c\<close> before the point.\<close>

definition root_places :: "nat \<Rightarrow> nat \<Rightarrow> nat \<Rightarrow> 'a::len word \<Rightarrow> bool" where
  "root_places k c p w \<longleftrightarrow> (c * 2 ^ LENGTH('a) + unat w) ^ k \<le> p * 2 ^ (k * LENGTH('a)) \<and>
     p * 2 ^ (k * LENGTH('a)) < (c * 2 ^ LENGTH('a) + unat w + 1) ^ k"

lemma fips_table:
  assumes "list_all2 (\<lambda>p. root_places k (c p) p) ps ws"
  shows "map (fips_frac k) ps = (ws :: 'a::len word list)"
  using assms
proof (induction ps ws rule: list_all2_induct)
  case (Cons p ps w ws)
  then have "floor_root k (p * 2 ^ (k * LENGTH('a))) = c p * 2 ^ LENGTH('a) + unat w"
    by (intro floor_root_eq) (simp_all add: root_places_def)
  then show ?case using Cons.IH by (simp add: fips_frac_def)
qed simp

abbreviation cube_part :: "nat \<Rightarrow> nat" where
  "cube_part p \<equiv> (if p < 8 then 1 else if p < 27 then 2 else if p < 64 then 3 else if p < 125 then 4 else if p < 216 then 5
     else if p < 343 then 6 else 7)"

abbreviation square_part :: "nat \<Rightarrow> nat" where
  "square_part p \<equiv> (if p < 4 then 1 else if p < 9 then 2 else if p < 16 then 3 else 4)"

lemma fips_K256: "map (fips_frac 3) (take 64 fips_primes) = sha256_K"
  by (rule fips_table [where c = "\<lambda>p. cube_part p"]) (simp add: sha256_K_def fips_primes_def root_places_def)

lemma fips_H256: "map (fips_frac 2) (take 8 fips_primes) = sha256_Initialize"
  by (rule fips_table [where c = "\<lambda>p. square_part p"]) (simp add: sha256_Initialize_def fips_primes_def root_places_def)

lemma fips_K512: "map (fips_frac 3) fips_primes = sha512_K"
  by (rule fips_table [where c = "\<lambda>p. cube_part p"]) (simp add: sha512_K_def fips_primes_def root_places_def)

lemma fips_H512: "map (fips_frac 2) (take 8 fips_primes) = sha512_Initialize"
  by (rule fips_table [where c = "\<lambda>p. square_part p"]) (simp add: sha512_Initialize_def fips_primes_def root_places_def)

lemma fips_word_be: "fips_word k chunk i = of_nat (le_to_nat (rev (take k (drop (k * i) chunk))))"
proof -
  have "foldl (\<lambda>w b. 256 * w + of_nat (unat b)) 0 xs = (of_nat (le_to_nat (rev xs)) :: 'a word)" for xs
    by (induction xs rule: rev_induct) (simp_all add: add.commute)
  then show ?thesis by (simp add: fips_word_def)
qed

lemma nth_nat_to_le: "i < k \<Longrightarrow> nat_to_le k n ! i = of_nat (n div 256 ^ i)"
  by (induction k arbitrary: i n) (auto simp: nth_Cons div_mult2_eq split: nat.splits)

lemma fips_bytes_be: "fips_bytes k w = rev (nat_to_le k (unat w))"
  by (rule nth_equalityI) (simp_all add: fips_bytes_def rev_nth nth_nat_to_le)

lemma fips_words:
  "fips_word 4 = (\<lambda>chunk i. ReadBE32 (drop (4 * i) chunk))" "fips_word 8 = (\<lambda>chunk i. ReadBE64 (drop (8 * i) chunk))"
  "fips_bytes 4 = WriteBE32" "fips_bytes 8 = WriteBE64"
  by (simp_all add: fun_eq_iff fips_word_be fips_bytes_be ReadBE32_def ReadBE64_def WriteBE32_def WriteBE64_def)

lemmas fips_constants = fips_K256 fips_H256 fips_K512 fips_H512 fips_words

lemma fips_sha256_eq: "fips_sha256 m = concat (map WriteBE32 (md_compress 64 fips_sha256_f sha256_Initialize
    (m @ md_pad 64 8 (\<lambda>l. rev (nat_to_le 8 (8 * l))) m)))"
  by (simp only: fips_sha256_def fips_constants)

lemma fips_sha512_eq: "fips_sha512 m = concat (map WriteBE64 (md_compress 128 fips_sha512_f sha512_Initialize
    (m @ md_pad 128 16 (\<lambda>l. rev (nat_to_le 16 (8 * l))) m)))"
  by (simp only: fips_sha512_def fips_constants)

lemma sha256_functions:
  "sha256_Sigma0 = fips_Sigma 2 13 22" "sha256_Sigma1 = fips_Sigma 6 11 25"
  "sha256_sigma0 = fips_sigma 7 18 3" "sha256_sigma1 = fips_sigma 17 19 10"
  by (simp_all add: fun_eq_iff sha256_Sigma0_def sha256_Sigma1_def sha256_sigma0_def sha256_sigma1_def
      fips_Sigma_def fips_sigma_def rotr_eq)

lemma sha512_functions:
  "sha512_Sigma0 = fips_Sigma 28 34 39" "sha512_Sigma1 = fips_Sigma 14 18 41"
  "sha512_sigma0 = fips_sigma 1 8 7" "sha512_sigma1 = fips_sigma 19 61 6"
  by (simp_all add: fun_eq_iff sha512_Sigma0_def sha512_Sigma1_def sha512_sigma0_def sha512_sigma1_def
      fips_Sigma_def fips_sigma_def rotr_eq)

lemma length_sha2_K: "length sha256_K = 64" "length sha512_K = 80"
  by (simp_all add: sha256_K_def sha512_K_def)

lemma length_sha2_Initialize: "length sha256_Initialize = 8" "length sha512_Initialize = 8"
  by (simp_all add: sha256_Initialize_def sha512_Initialize_def)

lemma sha256_Transform_fips:
  "length s = 8 \<Longrightarrow> sha256_Transform s c = fips_sha256_f s c \<and> length (fips_sha256_f s c) = 8"
  using sha2_Transform_fips [of s sha256_K] length_sha2_Transform [of s sha256_K]
  by (simp add: sha256_Transform_def fips_sha256_f_def fips_constants sha256_functions length_sha2_K)

lemma sha512_Transform_fips:
  "length s = 8 \<Longrightarrow> sha512_Transform s c = fips_sha512_f s c \<and> length (fips_sha512_f s c) = 8"
  using sha2_Transform_fips [of s sha512_K] length_sha2_Transform [of s sha512_K]
  by (simp add: sha512_Transform_def fips_sha512_f_def fips_constants sha512_functions length_sha2_K)

lemmas sha256_compress_fips =
  md_compress_cong [of "\<lambda>s. length s = 8", OF length_sha2_Initialize(1) sha256_Transform_fips]

lemmas sha512_compress_fips =
  md_compress_cong [of "\<lambda>s. length s = 8", OF length_sha2_Initialize(2) sha512_Transform_fips]

text \<open>The padding \<^verbatim>\<open>Finalize\<close> writes is the standard's.\<close>

lemma md_zeros_64: "md_zeros 64 8 l = (119 - l mod 64) mod 64"
proof (rule md_zeros_eq)
  define r where "r = l mod 64"
  have r: "r < 64" by (simp add: r_def)
  have l: "(l + 1 + z + 8) mod 64 = (r + z + 9) mod 64" for z
    unfolding r_def using mod_add_left_eq [of l 64 "z + 9"] by (simp add: ac_simps)
  show "(l + 1 + (119 - l mod 64) mod 64 + 8) mod 64 = 0"
  proof (cases "r < 56")
    case True
    then have "(119 - r) mod 64 = 55 - r" using le_mod_geq [of 64 "119 - r"] by simp
    then show ?thesis using True by (simp only: l flip: r_def) simp
  next
    case False
    then have "(119 - r) mod 64 = 119 - r" by simp
    then show ?thesis using False r by (simp only: l flip: r_def) simp
  qed
qed simp

lemma md_zeros_128: "md_zeros 128 16 l = (239 - l mod 128) mod 128"
proof (rule md_zeros_eq)
  define r where "r = l mod 128"
  have r: "r < 128" by (simp add: r_def)
  have l: "(l + 1 + z + 16) mod 128 = (r + z + 17) mod 128" for z
    unfolding r_def using mod_add_left_eq [of l 128 "z + 17"] by (simp add: ac_simps)
  show "(l + 1 + (239 - l mod 128) mod 128 + 16) mod 128 = 0"
  proof (cases "r < 112")
    case True
    then have "(239 - r) mod 128 = 111 - r" using le_mod_geq [of 128 "239 - r"] by simp
    then show ?thesis using True by (simp only: l flip: r_def) simp
  next
    case False
    then have "(239 - r) mod 128 = 239 - r" by simp
    then show ?thesis using False r by (simp only: l flip: r_def) simp
  qed
qed simp

lemma nat_to_le_mod: "nat_to_le n (v mod 256 ^ n) = nat_to_le n v"
  using nat_to_le_le_to_nat [of "nat_to_le n v"] by simp

lemma unat_bit_length: "unat (push_bit 3 (of_nat l :: u64)) = 8 * l mod 256 ^ 8"
proof -
  have "push_bit 3 (of_nat l :: u64) = of_nat (8 * l)" by (simp add: push_bit_eq_mult)
  then show ?thesis by (simp only: unat_of_nat) simp
qed

lemma bit_length_be: "WriteBE64 (push_bit 3 (of_nat l)) = rev (nat_to_le 8 (8 * l))"
  unfolding WriteBE64_def unat_bit_length nat_to_le_mod ..

lemma bit_length_le: "WriteLE64 (push_bit 3 (of_nat l)) = nat_to_le 8 (8 * l)"
  unfolding WriteLE64_def unat_bit_length nat_to_le_mod ..

interpretation sha256_block: block_hasher 64 sha256_Transform sha256_Initialize
  by unfold_locales (simp_all add: dvd_def)

interpretation sha512_block: block_hasher 128 sha512_Transform sha512_Initialize
  by unfold_locales (simp_all add: dvd_def)

lemma sha256_Finalize_rep:
  assumes "hasher_rep 64 sha256_Transform sha256_Initialize st m"
  shows "hasher_rep 64 sha256_Transform sha256_Initialize (snd (CSHA256_Finalize st))
    (m @ md_pad 64 8 (\<lambda>l. rev (nat_to_le 8 (8 * l))) m)"
proof -
  have "hbytes st = of_nat (length m)" using assms by (simp add: hasher_rep_def)
  moreover have "md_zeros 64 8 (length m) = (119 - unat (hbytes st) mod 64) mod 64"
    using sha256_block.bufsize_rep [OF assms] by (simp add: md_zeros_64)
  moreover have "(119 - unat (hbytes st) mod 64) mod 64 \<le> 63" by (simp add: less_Suc_eq_le [symmetric])
  ultimately show ?thesis
    using sha256_block.Write_rep [OF sha256_block.Write_rep [OF assms],
        of "rev (nat_to_le 8 (8 * length m))" "0x80 # replicate (md_zeros 64 8 (length m)) 0"]
    by (simp add: CSHA256_Finalize_def CSHA256_Write_def Let_def md_pad_def bit_length_be min_def)
qed

lemma sha512_Finalize_rep:
  assumes "hasher_rep 128 sha512_Transform sha512_Initialize st m"
  shows "hasher_rep 128 sha512_Transform sha512_Initialize (snd (CSHA512_Finalize st))
    (m @ md_pad 128 16 (\<lambda>l. replicate 8 0 @ rev (nat_to_le 8 (8 * l))) m)"
proof -
  have "hbytes st = of_nat (length m)" using assms by (simp add: hasher_rep_def)
  moreover have "md_zeros 128 16 (length m) = (239 - unat (hbytes st) mod 128) mod 128"
    using sha512_block.bufsize_rep [OF assms] by (simp add: md_zeros_128)
  moreover have "(239 - unat (hbytes st) mod 128) mod 128 \<le> 127" by (simp add: less_Suc_eq_le [symmetric])
  ultimately show ?thesis
    using sha512_block.Write_rep [OF sha512_block.Write_rep [OF assms],
        of "replicate 8 0 @ rev (nat_to_le 8 (8 * length m))"
           "0x80 # replicate (md_zeros 128 16 (length m)) 0"]
    by (simp add: CSHA512_Finalize_def CSHA512_Write_def Let_def md_pad_def bit_length_be min_def)
qed

interpretation sha256_stream: stream_hasher CSHA256 CSHA256_Write CSHA256_Finalize CSHA256_Reset
  "hasher_rep 64 sha256_Transform sha256_Initialize" fips_sha256
proof unfold_locales
  show "hasher_rep 64 sha256_Transform sha256_Initialize CSHA256 []"
    using sha256_block.rep_fresh [of CSHA256] by (simp add: CSHA256_def)
  fix h m d assume rep: "hasher_rep 64 sha256_Transform sha256_Initialize h m"
  show "hasher_rep 64 sha256_Transform sha256_Initialize (CSHA256_Write d h) (m @ d)"
    unfolding CSHA256_Write_def by (rule sha256_block.Write_rep [OF rep])
  show "fst (CSHA256_Finalize h) = fips_sha256 m"
    using sha256_Finalize_rep [OF rep] sha256_compress_fips
    by (simp add: hasher_rep_def fips_sha256_eq CSHA256_Finalize_def CSHA256_FinalizeNoPadding_def Let_def)
  show "\<exists>m'. hasher_rep 64 sha256_Transform sha256_Initialize (snd (CSHA256_Finalize h)) m'"
    using sha256_Finalize_rep [OF rep] by blast
  show "hasher_rep 64 sha256_Transform sha256_Initialize (CSHA256_Reset h) []"
    using sha256_block.rep_fresh [of h] rep by (simp add: CSHA256_Reset_def hasher_rep_def)
qed

interpretation sha512_stream: stream_hasher CSHA512 CSHA512_Write CSHA512_Finalize CSHA512_Reset
  "hasher_rep 128 sha512_Transform sha512_Initialize" sha512_digest
proof unfold_locales
  show "hasher_rep 128 sha512_Transform sha512_Initialize CSHA512 []"
    using sha512_block.rep_fresh [of CSHA512] by (simp add: CSHA512_def)
  fix h m d assume rep: "hasher_rep 128 sha512_Transform sha512_Initialize h m"
  show "hasher_rep 128 sha512_Transform sha512_Initialize (CSHA512_Write d h) (m @ d)"
    unfolding CSHA512_Write_def by (rule sha512_block.Write_rep [OF rep])
  show "fst (CSHA512_Finalize h) = sha512_digest m"
    using sha512_Finalize_rep [OF rep] sha512_compress_fips
    by (simp add: hasher_rep_def sha512_digest_def CSHA512_Finalize_def Let_def)
  show "\<exists>m'. hasher_rep 128 sha512_Transform sha512_Initialize (snd (CSHA512_Finalize h)) m'"
    using sha512_Finalize_rep [OF rep] by blast
  show "hasher_rep 128 sha512_Transform sha512_Initialize (CSHA512_Reset h) []"
    using sha512_block.rep_fresh [of h] rep by (simp add: CSHA512_Reset_def hasher_rep_def)
qed

end
