(* ===== verification/Zc_Hash.thy ===== *)
theory Zc_Hash
  imports Zc_Sha2 Zc_Serialize
begin

text \<open>
  SHA-1 and RIPEMD-160 (\<^verbatim>\<open>src/crypto/sha1.cpp\<close>, \<^verbatim>\<open>src/crypto/ripemd160.cpp\<close>), HMAC
  (\<^verbatim>\<open>hmac_sha256.cpp\<close>, \<^verbatim>\<open>hmac_sha512.cpp\<close>) and the hash helpers of \<^verbatim>\<open>src/hash.h\<close> and
  \<^verbatim>\<open>src/hash.cpp\<close>: double SHA-256, HASH160, \<^verbatim>\<open>CHashWriter\<close>, MurmurHash3 and \<^verbatim>\<open>BIP32Hash\<close>.  Every hasher
  is interpreted against the contract \<^verbatim>\<open>stream_hasher\<close>.
\<close>

unbundle bit_operations_syntax

section \<open>SHA-1\<close>

text \<open>Call \<open>i\<close> of \<^verbatim>\<open>Round\<close> passes the five variables \<open>a .. e\<close> rotated by \<open>i\<close> places.\<close>

definition arg5 :: "nat \<Rightarrow> nat \<Rightarrow> nat" where
  "arg5 i p = (p + 4 * i) mod 5"

definition sha1_f1 :: "u32 \<Rightarrow> u32 \<Rightarrow> u32 \<Rightarrow> u32" where
  "sha1_f1 b c d = d XOR (b AND (c XOR d))"

definition sha1_f2 :: "u32 \<Rightarrow> u32 \<Rightarrow> u32 \<Rightarrow> u32" where
  "sha1_f2 b c d = b XOR c XOR d"

definition sha1_f3 :: "u32 \<Rightarrow> u32 \<Rightarrow> u32 \<Rightarrow> u32" where
  "sha1_f3 b c d = (b AND c) OR (d AND (b OR c))"

definition sha1_left :: "u32 \<Rightarrow> u32" where
  "sha1_left x = push_bit 1 x OR drop_bit 31 x"

definition sha1_Initialize :: "u32 list" where
  "sha1_Initialize = [0x67452301, 0xEFCDAB89, 0x98BADCFE, 0x10325476, 0xC3D2E1F0]"

text \<open>\<^verbatim>\<open>Round\<close>: the new values of the reference parameters \<open>b\<close> and \<open>e\<close>.\<close>

definition sha1_Round :: "u32 \<Rightarrow> u32 \<Rightarrow> u32 \<Rightarrow> u32 \<Rightarrow> u32 \<Rightarrow> u32 \<Rightarrow> u32 \<Rightarrow> u32 \<Rightarrow> u32 \<times> u32" where
  "sha1_Round a b c d e f k w =
     (push_bit 30 b OR drop_bit 2 b, e + ((push_bit 5 a OR drop_bit 27 a) + f + k + w))"

text \<open>The boolean function and constant of call \<open>i\<close>.\<close>

definition sha1_fk :: "nat \<Rightarrow> (u32 \<Rightarrow> u32 \<Rightarrow> u32 \<Rightarrow> u32) \<times> u32" where
  "sha1_fk i = (if i < 20 then (sha1_f1, 0x5A827999)
     else if i < 40 then (sha1_f2, 0x6ED9EBA1)
     else if i < 60 then (sha1_f3, 0x8F1BBCDC)
     else (sha1_f2, 0xCA62C1D6))"

definition sha1_word :: "bytes \<Rightarrow> nat \<Rightarrow> u32 list \<Rightarrow> u32" where
  "sha1_word chunk i ws =
     (if i < 16 then ReadBE32 (drop (4 * i) chunk)
      else sha1_left (ws ! (i mod 16) XOR ws ! ((i + 13) mod 16) XOR ws ! ((i + 8) mod 16) XOR ws ! ((i + 2) mod 16)))"

definition sha1_step :: "bytes \<Rightarrow> nat \<Rightarrow> u32 list \<times> u32 list \<Rightarrow> u32 list \<times> u32 list" where
  "sha1_step chunk i vw =
     (let v = fst vw; ws = snd vw; x = (\<lambda>p. v ! arg5 i p); w = sha1_word chunk i ws;
          (f, k) = sha1_fk i;
          (b, e) = sha1_Round (x 0) (x 1) (x 2) (x 3) (x 4) (f (x 1) (x 2) (x 3)) k w
      in (v[arg5 i 1 := b, arg5 i 4 := e], ws[i mod 16 := w]))"

definition sha1_Transform :: "u32 list \<Rightarrow> bytes \<Rightarrow> u32 list" where
  "sha1_Transform s chunk = map2 (+) s (fst (fold (sha1_step chunk) [0..<80] (s, replicate 16 0)))"

definition CSHA1 :: "u32 hasher" where
  "CSHA1 = \<lparr>hs = sha1_Initialize, hbuf = replicate 64 0, hbytes = 0\<rparr>"

definition CSHA1_Write :: "bytes \<Rightarrow> u32 hasher \<Rightarrow> u32 hasher" where
  "CSHA1_Write = hasher_Write 64 sha1_Transform"

definition CSHA1_Finalize :: "u32 hasher \<Rightarrow> bytes \<times> u32 hasher" where
  "CSHA1_Finalize st =
     (let pad = 0x80 # replicate 63 0;
          sizedesc = WriteBE64 (push_bit 3 (hbytes st));
          st1 = CSHA1_Write (take (1 + (119 - unat (hbytes st) mod 64) mod 64) pad) st;
          st2 = CSHA1_Write sizedesc st1
      in (concat (map WriteBE32 (hs st2)), st2))"

definition CSHA1_Reset :: "u32 hasher \<Rightarrow> u32 hasher" where
  "CSHA1_Reset st = st\<lparr>hs := sha1_Initialize, hbytes := 0\<rparr>"

section \<open>RIPEMD-160\<close>

definition ripemd160_f1 :: "u32 \<Rightarrow> u32 \<Rightarrow> u32 \<Rightarrow> u32" where
  "ripemd160_f1 x y z = x XOR y XOR z"

definition ripemd160_f2 :: "u32 \<Rightarrow> u32 \<Rightarrow> u32 \<Rightarrow> u32" where
  "ripemd160_f2 x y z = (x AND y) OR (NOT x AND z)"

definition ripemd160_f3 :: "u32 \<Rightarrow> u32 \<Rightarrow> u32 \<Rightarrow> u32" where
  "ripemd160_f3 x y z = (x OR NOT y) XOR z"

definition ripemd160_f4 :: "u32 \<Rightarrow> u32 \<Rightarrow> u32 \<Rightarrow> u32" where
  "ripemd160_f4 x y z = (x AND z) OR (y AND NOT z)"

definition ripemd160_f5 :: "u32 \<Rightarrow> u32 \<Rightarrow> u32 \<Rightarrow> u32" where
  "ripemd160_f5 x y z = x XOR (y OR NOT z)"

definition ripemd160_Initialize :: "u32 list" where
  "ripemd160_Initialize = [0x67452301, 0xEFCDAB89, 0x98BADCFE, 0x10325476, 0xC3D2E1F0]"

definition rol :: "u32 \<Rightarrow> nat \<Rightarrow> u32" where
  "rol x i = push_bit i x OR drop_bit (32 - i) x"

text \<open>\<^verbatim>\<open>Round\<close>: the new values of the reference parameters \<open>a\<close> and \<open>c\<close>.\<close>

definition ripemd160_Round :: "u32 \<Rightarrow> u32 \<Rightarrow> u32 \<Rightarrow> u32 \<Rightarrow> u32 \<Rightarrow> u32 \<Rightarrow> u32 \<Rightarrow> u32 \<Rightarrow> nat \<Rightarrow> u32 \<times> u32" where
  "ripemd160_Round a b c d e f x k r = (rol (a + f + x + k) r + e, rol c 10)"

text \<open>The functions and constants of \<^verbatim>\<open>R11 .. R51\<close> and \<^verbatim>\<open>R12 .. R52\<close>, by group of sixteen calls.\<close>

definition ripemd160_left :: "((u32 \<Rightarrow> u32 \<Rightarrow> u32 \<Rightarrow> u32) \<times> u32) list" where
  "ripemd160_left = [(ripemd160_f1, 0), (ripemd160_f2, 0x5A827999), (ripemd160_f3, 0x6ED9EBA1),
     (ripemd160_f4, 0x8F1BBCDC), (ripemd160_f5, 0xA953FD4E)]"

definition ripemd160_right :: "((u32 \<Rightarrow> u32 \<Rightarrow> u32 \<Rightarrow> u32) \<times> u32) list" where
  "ripemd160_right = [(ripemd160_f5, 0x50A28BE6), (ripemd160_f4, 0x5C4DD124), (ripemd160_f3, 0x6D703EF3),
     (ripemd160_f2, 0x7A6D76E9), (ripemd160_f1, 0)]"

text \<open>Message word and rotation of each call, in the order of the source.\<close>

definition ripemd160_w1 :: "nat list" where
  "ripemd160_w1 =
     [0, 1, 2, 3, 4, 5, 6, 7, 8, 9, 10, 11, 12, 13, 14, 15,
      7, 4, 13, 1, 10, 6, 15, 3, 12, 0, 9, 5, 2, 14, 11, 8,
      3, 10, 14, 4, 9, 15, 8, 1, 2, 7, 0, 6, 13, 11, 5, 12,
      1, 9, 11, 10, 0, 8, 12, 4, 13, 3, 7, 15, 14, 5, 6, 2,
      4, 0, 5, 9, 7, 12, 2, 10, 14, 1, 3, 8, 11, 6, 15, 13]"

definition ripemd160_r1 :: "nat list" where
  "ripemd160_r1 =
     [11, 14, 15, 12, 5, 8, 7, 9, 11, 13, 14, 15, 6, 7, 9, 8,
      7, 6, 8, 13, 11, 9, 7, 15, 7, 12, 15, 9, 11, 7, 13, 12,
      11, 13, 6, 7, 14, 9, 13, 15, 14, 8, 13, 6, 5, 12, 7, 5,
      11, 12, 14, 15, 14, 15, 9, 8, 9, 14, 5, 6, 8, 6, 5, 12,
      9, 15, 5, 11, 6, 8, 13, 12, 5, 12, 13, 14, 11, 8, 5, 6]"

definition ripemd160_w2 :: "nat list" where
  "ripemd160_w2 =
     [5, 14, 7, 0, 9, 2, 11, 4, 13, 6, 15, 8, 1, 10, 3, 12,
      6, 11, 3, 7, 0, 13, 5, 10, 14, 15, 8, 12, 4, 9, 1, 2,
      15, 5, 1, 3, 7, 14, 6, 9, 11, 8, 12, 2, 10, 0, 4, 13,
      8, 6, 4, 1, 3, 11, 15, 0, 5, 12, 2, 13, 9, 7, 10, 14,
      12, 15, 10, 4, 1, 5, 8, 7, 6, 2, 13, 14, 0, 3, 9, 11]"

definition ripemd160_r2 :: "nat list" where
  "ripemd160_r2 =
     [8, 9, 9, 11, 13, 15, 15, 5, 7, 7, 8, 11, 14, 14, 12, 6,
      9, 13, 15, 7, 12, 8, 9, 11, 7, 7, 12, 7, 6, 15, 13, 11,
      9, 7, 15, 11, 8, 6, 6, 14, 12, 13, 5, 14, 13, 13, 7, 5,
      15, 5, 8, 11, 14, 14, 6, 14, 6, 9, 12, 9, 12, 5, 15, 8,
      8, 5, 12, 9, 12, 5, 14, 6, 8, 13, 6, 5, 15, 13, 11, 11]"

definition ripemd160_call ::
  "((u32 \<Rightarrow> u32 \<Rightarrow> u32 \<Rightarrow> u32) \<times> u32) list \<Rightarrow> nat list \<Rightarrow> nat list \<Rightarrow> bytes \<Rightarrow> nat \<Rightarrow> u32 list \<Rightarrow> u32 list" where
  "ripemd160_call fk w r chunk i v =
     (let (f, k) = fk ! (i div 16); x = (\<lambda>p. v ! arg5 i p);
          (a, c) = ripemd160_Round (x 0) (x 1) (x 2) (x 3) (x 4) (f (x 1) (x 2) (x 3))
                     (ReadLE32 (drop (4 * (w ! i)) chunk)) k (r ! i)
      in v[arg5 i 0 := a, arg5 i 2 := c])"

definition ripemd160_Transform :: "u32 list \<Rightarrow> bytes \<Rightarrow> u32 list" where
  "ripemd160_Transform s chunk =
     (let (v1, v2) = fold (\<lambda>i (v1, v2).
            (ripemd160_call ripemd160_left ripemd160_w1 ripemd160_r1 chunk i v1,
             ripemd160_call ripemd160_right ripemd160_w2 ripemd160_r2 chunk i v2)) [0..<80] (s, s)
      in [s ! 1 + v1 ! 2 + v2 ! 3, s ! 2 + v1 ! 3 + v2 ! 4, s ! 3 + v1 ! 4 + v2 ! 0,
          s ! 4 + v1 ! 0 + v2 ! 1, s ! 0 + v1 ! 1 + v2 ! 2])"

definition CRIPEMD160 :: "u32 hasher" where
  "CRIPEMD160 = \<lparr>hs = ripemd160_Initialize, hbuf = replicate 64 0, hbytes = 0\<rparr>"

definition CRIPEMD160_Write :: "bytes \<Rightarrow> u32 hasher \<Rightarrow> u32 hasher" where
  "CRIPEMD160_Write = hasher_Write 64 ripemd160_Transform"

definition CRIPEMD160_Finalize :: "u32 hasher \<Rightarrow> bytes \<times> u32 hasher" where
  "CRIPEMD160_Finalize st =
     (let pad = 0x80 # replicate 63 0;
          sizedesc = WriteLE64 (push_bit 3 (hbytes st));
          st1 = CRIPEMD160_Write (take (1 + (119 - unat (hbytes st) mod 64) mod 64) pad) st;
          st2 = CRIPEMD160_Write sizedesc st1
      in (concat (map WriteLE32 (hs st2)), st2))"

definition CRIPEMD160_Reset :: "u32 hasher \<Rightarrow> u32 hasher" where
  "CRIPEMD160_Reset st = st\<lparr>hs := ripemd160_Initialize, hbytes := 0\<rparr>"

section \<open>HMAC\<close>

definition CHMAC_SHA256 :: "bytes \<Rightarrow> u32 hasher hmac" where
  "CHMAC_SHA256 = hmac_new 64 32 CSHA256 CSHA256_Write CSHA256_Finalize"

definition CHMAC_SHA256_Write :: "bytes \<Rightarrow> u32 hasher hmac \<Rightarrow> u32 hasher hmac" where
  "CHMAC_SHA256_Write = hmac_Write CSHA256_Write"

definition CHMAC_SHA256_Finalize :: "u32 hasher hmac \<Rightarrow> bytes" where
  "CHMAC_SHA256_Finalize = hmac_Finalize CSHA256_Write CSHA256_Finalize"

definition CHMAC_SHA512 :: "bytes \<Rightarrow> u64 hasher hmac" where
  "CHMAC_SHA512 = hmac_new 128 64 CSHA512 CSHA512_Write CSHA512_Finalize"

definition CHMAC_SHA512_Write :: "bytes \<Rightarrow> u64 hasher hmac \<Rightarrow> u64 hasher hmac" where
  "CHMAC_SHA512_Write = hmac_Write CSHA512_Write"

definition CHMAC_SHA512_Finalize :: "u64 hasher hmac \<Rightarrow> bytes" where
  "CHMAC_SHA512_Finalize = hmac_Finalize CSHA512_Write CSHA512_Finalize"

section \<open>hash.h and hash.cpp\<close>

text \<open>\<^verbatim>\<open>CHash256\<close> and \<^verbatim>\<open>CHash160\<close> hold one \<^verbatim>\<open>CSHA256\<close>; construction, \<^verbatim>\<open>Write\<close> and \<^verbatim>\<open>Reset\<close> are
  those of the member.\<close>

definition CHash256_Finalize :: "u32 hasher \<Rightarrow> bytes \<times> u32 hasher" where
  "CHash256_Finalize sha =
     (let (buf, sha1) = CSHA256_Finalize sha
      in CSHA256_Finalize (CSHA256_Write buf (CSHA256_Reset sha1)))"

definition CHash160_Finalize :: "u32 hasher \<Rightarrow> bytes \<times> u32 hasher" where
  "CHash160_Finalize sha =
     (let (buf, sha1) = CSHA256_Finalize sha
      in (fst (CRIPEMD160_Finalize (CRIPEMD160_Write buf CRIPEMD160)), sha1))"

definition Hash :: "bytes \<Rightarrow> uint256" where
  "Hash p = of_nat (le_to_nat (fst (CHash256_Finalize (CSHA256_Write p CSHA256))))"

definition Hash2 :: "bytes \<Rightarrow> bytes \<Rightarrow> uint256" where
  "Hash2 p1 p2 = of_nat (le_to_nat (fst (CHash256_Finalize (CSHA256_Write p2 (CSHA256_Write p1 CSHA256)))))"

definition Hash3 :: "bytes \<Rightarrow> bytes \<Rightarrow> bytes \<Rightarrow> uint256" where
  "Hash3 p1 p2 p3 = of_nat (le_to_nat (fst (CHash256_Finalize
     (CSHA256_Write p3 (CSHA256_Write p2 (CSHA256_Write p1 CSHA256))))))"

definition Hash160 :: "bytes \<Rightarrow> 160 word" where
  "Hash160 p = of_nat (le_to_nat (fst (CHash160_Finalize (CSHA256_Write p CSHA256))))"

text \<open>\<^verbatim>\<open>CHashWriter\<close>: serialization calls \<^verbatim>\<open>write\<close> once per primitive field; \<open>ds\<close> are those calls.\<close>

definition CHashWriter_write :: "bytes \<Rightarrow> u32 hasher \<Rightarrow> u32 hasher" where
  "CHashWriter_write d ctx = CSHA256_Write d ctx"

definition CHashWriter_GetHash :: "u32 hasher \<Rightarrow> uint256" where
  "CHashWriter_GetHash ctx = of_nat (le_to_nat (fst (CHash256_Finalize ctx)))"

definition SerializeHash :: "bytes list \<Rightarrow> uint256" where
  "SerializeHash ds = CHashWriter_GetHash (fold CHashWriter_write ds CSHA256)"

definition ROTL32 :: "u32 \<Rightarrow> nat \<Rightarrow> u32" where
  "ROTL32 x r = push_bit r x OR drop_bit (32 - r) x"

definition MurmurHash3 :: "u32 \<Rightarrow> bytes \<Rightarrow> u32" where
  "MurmurHash3 nHashSeed vDataToHash =
     (let c1 = 0xcc9e2d51; c2 = 0x1b873593;
          mix = (\<lambda>k. ROTL32 (k * c1) 15 * c2);
          n = length vDataToHash; nblocks = n div 4;
          body = fold (\<lambda>i h1. ROTL32 (h1 XOR mix (ReadLE32 (drop (4 * i) vDataToHash))) 13 * 5 + 0xe6546b64)
                   [0..<nblocks] nHashSeed;
          tail = drop (4 * nblocks) vDataToHash;
          h1 = (if n mod 4 = 0 then body
                else let k3 = (if 3 \<le> n mod 4 then push_bit 16 (ucast (tail ! 2)) else 0);
                         k2 = (if 2 \<le> n mod 4 then k3 XOR push_bit 8 (ucast (tail ! 1)) else k3);
                         k1 = k2 XOR ucast (tail ! 0)
                     in body XOR mix k1);
          f0 = h1 XOR of_nat n;
          f1 = (f0 XOR drop_bit 16 f0) * 0x85ebca6b;
          f2 = (f1 XOR drop_bit 13 f1) * 0xc2b2ae35
      in f2 XOR drop_bit 16 f2)"

definition BIP32Hash :: "bytes \<Rightarrow> u32 \<Rightarrow> byte \<Rightarrow> bytes \<Rightarrow> bytes" where
  "BIP32Hash chainCode nChild header dat =
     (let num = [ucast (drop_bit 24 nChild AND 0xFF), ucast (drop_bit 16 nChild AND 0xFF),
                 ucast (drop_bit 8 nChild AND 0xFF), ucast (nChild AND 0xFF)]
      in CHMAC_SHA512_Finalize (CHMAC_SHA512_Write num (CHMAC_SHA512_Write dat
           (CHMAC_SHA512_Write [header] (CHMAC_SHA512 chainCode)))))"

section \<open>The hash functions the classes compute\<close>

definition sha1_digest :: "bytes \<Rightarrow> bytes" where
  "sha1_digest m = concat (map WriteBE32 (md_compress 64 sha1_Transform sha1_Initialize
     (m @ md_pad 64 8 (\<lambda>l. rev (nat_to_le 8 (8 * l))) m)))"

definition ripemd160_digest :: "bytes \<Rightarrow> bytes" where
  "ripemd160_digest m = concat (map WriteLE32 (md_compress 64 ripemd160_Transform ripemd160_Initialize
     (m @ md_pad 64 8 (\<lambda>l. nat_to_le 8 (8 * l)) m)))"

interpretation sha1_block: block_hasher 64 sha1_Transform sha1_Initialize
  by unfold_locales (simp_all add: dvd_def)

interpretation ripemd160_block: block_hasher 64 ripemd160_Transform ripemd160_Initialize
  by unfold_locales (simp_all add: dvd_def)

context block_hasher
begin

text \<open>The two calls of \<^verbatim>\<open>Write\<close> in the \<^verbatim>\<open>Finalize\<close> methods with a 64-byte block.\<close>

lemma Finalize_rep:
  assumes B: "B = 64" and rep: "hasher_rep B T s0 st m"
  shows "hasher_rep B T s0
     (hasher_Write B T (field (length m))
       (hasher_Write B T (take (1 + (119 - unat (hbytes st) mod 64) mod 64) (0x80 # replicate 63 0)) st))
     (m @ md_pad B 8 field m)"
proof -
  have "md_zeros 64 8 (length m) = (119 - unat (hbytes st) mod 64) mod 64"
    using bufsize_rep [OF rep] B by (simp add: md_zeros_64)
  moreover have "(119 - unat (hbytes st) mod 64) mod 64 \<le> 63" by (simp add: less_Suc_eq_le [symmetric])
  ultimately show ?thesis
    using Write_rep [OF Write_rep [OF rep],
        of "field (length m)" "0x80 # replicate (md_zeros 64 8 (length m)) 0"]
    by (simp add: md_pad_def min_def B)
qed

end

lemma hasher_rep_bytes: "hasher_rep B T s0 st m \<Longrightarrow> hbytes st = of_nat (length m)"
  by (simp add: hasher_rep_def)

lemma sha1_Finalize_rep:
  "hasher_rep 64 sha1_Transform sha1_Initialize st m \<Longrightarrow>
   hasher_rep 64 sha1_Transform sha1_Initialize (snd (CSHA1_Finalize st))
    (m @ md_pad 64 8 (\<lambda>l. rev (nat_to_le 8 (8 * l))) m)"
  using sha1_block.Finalize_rep [of st m "\<lambda>l. rev (nat_to_le 8 (8 * l))"]
  by (simp add: CSHA1_Finalize_def CSHA1_Write_def Let_def bit_length_be hasher_rep_bytes)

lemma ripemd160_Finalize_rep:
  "hasher_rep 64 ripemd160_Transform ripemd160_Initialize st m \<Longrightarrow>
   hasher_rep 64 ripemd160_Transform ripemd160_Initialize (snd (CRIPEMD160_Finalize st))
    (m @ md_pad 64 8 (\<lambda>l. nat_to_le 8 (8 * l)) m)"
  using ripemd160_block.Finalize_rep [of st m "\<lambda>l. nat_to_le 8 (8 * l)"]
  by (simp add: CRIPEMD160_Finalize_def CRIPEMD160_Write_def Let_def bit_length_le hasher_rep_bytes)

interpretation sha1_stream: stream_hasher CSHA1 CSHA1_Write CSHA1_Finalize CSHA1_Reset
  "hasher_rep 64 sha1_Transform sha1_Initialize" sha1_digest
proof unfold_locales
  show "hasher_rep 64 sha1_Transform sha1_Initialize CSHA1 []"
    using sha1_block.rep_fresh [of CSHA1] by (simp add: CSHA1_def)
  fix h m d assume rep: "hasher_rep 64 sha1_Transform sha1_Initialize h m"
  show "hasher_rep 64 sha1_Transform sha1_Initialize (CSHA1_Write d h) (m @ d)"
    unfolding CSHA1_Write_def by (rule sha1_block.Write_rep [OF rep])
  show "fst (CSHA1_Finalize h) = sha1_digest m"
    using sha1_Finalize_rep [OF rep] by (simp add: hasher_rep_def sha1_digest_def CSHA1_Finalize_def Let_def)
  show "\<exists>m'. hasher_rep 64 sha1_Transform sha1_Initialize (snd (CSHA1_Finalize h)) m'"
    using sha1_Finalize_rep [OF rep] by blast
  show "hasher_rep 64 sha1_Transform sha1_Initialize (CSHA1_Reset h) []"
    using sha1_block.rep_fresh [of h] rep by (simp add: CSHA1_Reset_def hasher_rep_def)
qed

interpretation ripemd160_stream: stream_hasher CRIPEMD160 CRIPEMD160_Write CRIPEMD160_Finalize CRIPEMD160_Reset
  "hasher_rep 64 ripemd160_Transform ripemd160_Initialize" ripemd160_digest
proof unfold_locales
  show "hasher_rep 64 ripemd160_Transform ripemd160_Initialize CRIPEMD160 []"
    using ripemd160_block.rep_fresh [of CRIPEMD160] by (simp add: CRIPEMD160_def)
  fix h m d assume rep: "hasher_rep 64 ripemd160_Transform ripemd160_Initialize h m"
  show "hasher_rep 64 ripemd160_Transform ripemd160_Initialize (CRIPEMD160_Write d h) (m @ d)"
    unfolding CRIPEMD160_Write_def by (rule ripemd160_block.Write_rep [OF rep])
  show "fst (CRIPEMD160_Finalize h) = ripemd160_digest m"
    using ripemd160_Finalize_rep [OF rep]
    by (simp add: hasher_rep_def ripemd160_digest_def CRIPEMD160_Finalize_def Let_def)
  show "\<exists>m'. hasher_rep 64 ripemd160_Transform ripemd160_Initialize (snd (CRIPEMD160_Finalize h)) m'"
    using ripemd160_Finalize_rep [OF rep] by blast
  show "hasher_rep 64 ripemd160_Transform ripemd160_Initialize (CRIPEMD160_Reset h) []"
    using ripemd160_block.rep_fresh [of h] rep by (simp add: CRIPEMD160_Reset_def hasher_rep_def)
qed

text \<open>A double hasher is again a hasher.\<close>

interpretation hash256_stream: stream_hasher CSHA256 CSHA256_Write CHash256_Finalize CSHA256_Reset
  "hasher_rep 64 sha256_Transform sha256_Initialize" "\<lambda>m. fips_sha256 (fips_sha256 m)"
proof unfold_locales
  fix h m d assume rep: "hasher_rep 64 sha256_Transform sha256_Initialize h m"
  obtain m' where rep': "hasher_rep 64 sha256_Transform sha256_Initialize (snd (CSHA256_Finalize h)) m'"
    using sha256_stream.final_rep [OF rep] by blast
  note again = sha256_stream.rep_write [OF sha256_stream.reset_rep [OF rep']]
  show "fst (CHash256_Finalize h) = fips_sha256 (fips_sha256 m)"
    using sha256_stream.digest_again [OF rep'] sha256_stream.final_digest [OF rep]
    by (simp add: CHash256_Finalize_def split_beta)
  show "\<exists>m'. hasher_rep 64 sha256_Transform sha256_Initialize (snd (CHash256_Finalize h)) m'"
    using sha256_stream.final_rep [OF again] by (simp add: CHash256_Finalize_def split_beta)
qed (auto intro: sha256_stream.rep_init sha256_stream.rep_write sha256_stream.reset_rep)

interpretation hash160_stream: stream_hasher CSHA256 CSHA256_Write CHash160_Finalize CSHA256_Reset
  "hasher_rep 64 sha256_Transform sha256_Initialize" "\<lambda>m. ripemd160_digest (fips_sha256 m)"
proof unfold_locales
  fix h m d assume rep: "hasher_rep 64 sha256_Transform sha256_Initialize h m"
  show "fst (CHash160_Finalize h) = ripemd160_digest (fips_sha256 m)"
    using sha256_stream.final_digest [OF rep] ripemd160_stream.digest_once
    by (simp add: CHash160_Finalize_def split_beta)
  show "\<exists>m'. hasher_rep 64 sha256_Transform sha256_Initialize (snd (CHash160_Finalize h)) m'"
    using sha256_stream.final_rep [OF rep] by (simp add: CHash160_Finalize_def split_beta)
qed (auto intro: sha256_stream.rep_init sha256_stream.rep_write sha256_stream.reset_rep)

section \<open>Properties\<close>

lemma length_concat_map: "(\<And>x. x \<in> set xs \<Longrightarrow> length (f x) = n) \<Longrightarrow> length (concat (map f xs)) = n * length xs"
  by (induction xs) auto

lemma length_fips_sha256: "length (fips_sha256 m) = 32"
  using sha256_compress_fips
  by (subst fips_sha256_eq, subst length_concat_map [where n = 4]) (simp_all add: WriteBE32_def)

lemma length_sha512_digest: "length (sha512_digest m) = 64"
  using sha512_compress_fips
  by (subst sha512_digest_def, subst length_concat_map [where n = 8]) (simp_all add: WriteBE64_def)

lemma nat_to_le_small: "v < 256 ^ n \<Longrightarrow> nat_to_le (n + k) v = nat_to_le n v @ replicate k 0"
proof (induction n arbitrary: v)
  case 0
  have "nat_to_le k 0 = replicate k 0" by (induction k) simp_all
  then show ?case using 0 by simp
next
  case (Suc n)
  then show ?case by (simp add: less_mult_imp_div_less mult.commute)
qed

lemma sha512_digest_fips:
  assumes "length m < 2 ^ 61"
  shows "sha512_digest m = fips_sha512 m"
proof -
  have "rev (nat_to_le 16 (8 * length m)) = replicate 8 0 @ rev (nat_to_le 8 (8 * length m))"
    using nat_to_le_small [of "8 * length m" 8 8] assms by simp
  then show ?thesis by (simp add: sha512_digest_def fips_sha512_eq md_pad_def)
qed

text \<open>C37: The SHA-256 class computes the SHA-256 of FIPS 180-4: whatever the sequence of \<^verbatim>\<open>Write\<close>
  calls, and for messages of every length (the standard's length field is taken modulo \<open>2 ^ 64\<close>),
  \<^verbatim>\<open>Finalize\<close> returns the digest the standard gives for the concatenation of the written data.  The reference takes
  nothing from the code: its constants are the fractional parts of the cube and square roots of the first primes, and
  it has its own byte order, padding, schedule and rounds.\<close>

theorem CSHA256_correct:
  "fst (CSHA256_Finalize (fold CSHA256_Write ds CSHA256)) = fips_sha256 (concat ds)"
  by (rule sha256_stream.digest_writes)

text \<open>The SHA-512 class computes the SHA-512 of FIPS 180-4 for every sequence of \<^verbatim>\<open>Write\<close> calls,
  as long as the message is shorter than \<open>2 ^ 61\<close> bytes: \<^verbatim>\<open>Finalize\<close> writes 64 of the 128 bits of
  the length field.\<close>

theorem CSHA512_correct:
  assumes "length (concat ds) < 2 ^ 61"
  shows "fst (CSHA512_Finalize (fold CSHA512_Write ds CSHA512)) = fips_sha512 (concat ds)"
  using sha512_stream.digest_writes [of ds] sha512_digest_fips [OF assms] by simp

theorem CSHA512_correct_witness:
  "fst (CSHA512_Finalize (fold CSHA512_Write [[0x61, 0x62], [0x63]] CSHA512)) = fips_sha512 [0x61, 0x62, 0x63]"
  using CSHA512_correct [of "[[0x61, 0x62], [0x63]]"] by simp

text \<open>The HMAC classes compute RFC 2104 over SHA-256 and SHA-512: for every key, whether it is
  shorter or longer than a block, and every sequence of \<^verbatim>\<open>Write\<close> calls.\<close>

theorem CHMAC_correct:
  "CHMAC_SHA256_Finalize (fold CHMAC_SHA256_Write ds (CHMAC_SHA256 key)) = rfc2104 64 fips_sha256 key (concat ds)
   \<and> CHMAC_SHA512_Finalize (fold CHMAC_SHA512_Write ds (CHMAC_SHA512 key)) = rfc2104 128 sha512_digest key (concat ds)"
  unfolding CHMAC_SHA256_def CHMAC_SHA256_Write_def CHMAC_SHA256_Finalize_def
    CHMAC_SHA512_def CHMAC_SHA512_Write_def CHMAC_SHA512_Finalize_def
  using sha256_stream.hmac_rfc2104 [OF length_fips_sha256] sha512_stream.hmac_rfc2104 [OF length_sha512_digest]
  by blast

text \<open>The hash of an object does not depend on how its serialization is cut into \<^verbatim>\<open>write\<close> calls:
  \<^verbatim>\<open>SerializeHash\<close>, and \<^verbatim>\<open>Hash\<close> over two or three ranges, are the double SHA-256 of the
  concatenated bytes; \<^verbatim>\<open>Hash160\<close> is RIPEMD-160 of SHA-256.\<close>

theorem Hash_concat:
  "SerializeHash ds = of_nat (le_to_nat (fips_sha256 (fips_sha256 (concat ds)))) \<and>
   Hash p = SerializeHash [p] \<and> Hash2 p q = Hash (p @ q) \<and> Hash3 p q r = Hash (p @ q @ r) \<and>
   Hash160 p = of_nat (le_to_nat (ripemd160_digest (fips_sha256 p)))"
  using hash256_stream.digest_writes [of ds] hash256_stream.digest_writes [of "[p]"]
    hash256_stream.digest_writes [of "[p, q]"] hash256_stream.digest_writes [of "[p, q, r]"]
    hash256_stream.digest_once [of "p @ q"] hash256_stream.digest_once [of "p @ q @ r"]
    hash160_stream.digest_once [of p]
  by (simp add: SerializeHash_def CHashWriter_GetHash_def CHashWriter_write_def [abs_def]
      Hash_def Hash2_def Hash3_def Hash160_def)

end
