(* ===== verification/Zc_Transaction.thy ===== *)
theory Zc_Transaction
  imports Zc_Serialize Zc_Hash
begin

text \<open>
  Transactions: \<^verbatim>\<open>src/amount.h\<close>, \<^verbatim>\<open>src/amount.cpp\<close>, \<^verbatim>\<open>src/primitives/transaction.h\<close>,
  \<^verbatim>\<open>src/primitives/transaction.cpp\<close> and the proof encodings of \<^verbatim>\<open>src/zcash/Proof.hpp\<close>.  Every class of
  the sources is a record with the source's fields; its \<^verbatim>\<open>SerializationOp\<close> is a pair of a writer and a
  reader, interpreted against the contract \<^verbatim>\<open>codec\<close>.  Reading a transaction overwrites an existing
  object, so fields that the wire format leaves out keep the value they had: the old object is an
  argument of the reader.  \<^verbatim>\<open>CTransaction\<close> extends \<^verbatim>\<open>CMutableTransaction\<close> by the cached hash.
\<close>

unbundle bit_operations_syntax

section \<open>Amounts\<close>

definition COIN :: int where "COIN = 100000000"

definition MAX_MONEY :: int where "MAX_MONEY = 21000000 * COIN"

definition MoneyRange :: "int \<Rightarrow> bool" where
  "MoneyRange nValue \<longleftrightarrow> 0 \<le> nValue \<and> nValue \<le> MAX_MONEY"

text \<open>The product and quotient with a \<^verbatim>\<open>size_t\<close> operand are computed on unsigned 64-bit values.\<close>

definition CFeeRate :: "int \<Rightarrow> nat \<Rightarrow> int" where
  "CFeeRate nFeePaid nSize =
     (if 0 < nSize then to_signed 64 (of_signed 64 (wrap64 (nFeePaid * 1000)) div nSize) else 0)"

definition GetFee :: "int \<Rightarrow> nat \<Rightarrow> int" where
  "GetFee nSatoshisPerK nSize =
     (let nFee = to_signed 64 ((of_signed 64 nSatoshisPerK * nSize) mod 2 ^ 64 div 1000)
      in if nFee = 0 \<and> 0 < nSatoshisPerK then nSatoshisPerK else nFee)"

section \<open>Proof encodings\<close>

record CompressedG1 =
  y_lsb :: bool
  g1_x :: uint256

record CompressedG2 =
  y_gt :: bool
  g2_x :: bytes

definition Serialize_G1 :: "CompressedG1 \<Rightarrow> bytes" where
  "Serialize_G1 p = ser_writedata8 (if y_lsb p then 0x02 OR 1 else 0x02) @ Serialize_uint256 (g1_x p)"

definition Unserialize_G1 :: "CompressedG1 sparser" where
  "Unserialize_G1 =
     pbind ser_readdata8 (\<lambda>leadingByte.
     pbind (pguard (leadingByte AND NOT 1 = 0x02) BadG1LeadByte) (\<lambda>_.
     pbind Unserialize_uint256 (\<lambda>x.
     preturn \<lparr>y_lsb = (leadingByte AND 1 \<noteq> 0), g1_x = x\<rparr>)))"

definition Serialize_G2 :: "CompressedG2 \<Rightarrow> bytes" where
  "Serialize_G2 p = ser_writedata8 (if y_gt p then 0x0a OR 1 else 0x0a) @ Serialize_array ser_writedata8 (g2_x p)"

definition Unserialize_G2 :: "CompressedG2 sparser" where
  "Unserialize_G2 =
     pbind ser_readdata8 (\<lambda>leadingByte.
     pbind (pguard (leadingByte AND NOT 1 = 0x0a) BadG2LeadByte) (\<lambda>_.
     pbind (Unserialize_array 64 ser_readdata8) (\<lambda>x.
     preturn \<lparr>y_gt = (leadingByte AND 1 \<noteq> 0), g2_x = x\<rparr>)))"

record PHGRProof =
  g_A :: CompressedG1
  g_A_prime :: CompressedG1
  g_B :: CompressedG2
  g_B_prime :: CompressedG1
  g_C :: CompressedG1
  g_C_prime :: CompressedG1
  g_K :: CompressedG1
  g_H :: CompressedG1

definition Serialize_PHGRProof :: "PHGRProof \<Rightarrow> bytes" where
  "Serialize_PHGRProof p =
     Serialize_G1 (g_A p) @ Serialize_G1 (g_A_prime p) @ Serialize_G2 (g_B p) @ Serialize_G1 (g_B_prime p) @
     Serialize_G1 (g_C p) @ Serialize_G1 (g_C_prime p) @ Serialize_G1 (g_K p) @ Serialize_G1 (g_H p)"

definition Unserialize_PHGRProof :: "PHGRProof sparser" where
  "Unserialize_PHGRProof =
     pbind Unserialize_G1 (\<lambda>a. pbind Unserialize_G1 (\<lambda>a'. pbind Unserialize_G2 (\<lambda>b.
     pbind Unserialize_G1 (\<lambda>b'. pbind Unserialize_G1 (\<lambda>c. pbind Unserialize_G1 (\<lambda>c'.
     pbind Unserialize_G1 (\<lambda>k. pbind Unserialize_G1 (\<lambda>h.
     preturn \<lparr>g_A = a, g_A_prime = a', g_B = b, g_B_prime = b', g_C = c, g_C_prime = c', g_K = k, g_H = h\<rparr>))))))))"

text \<open>\<^verbatim>\<open>GrothProof\<close> is \<^verbatim>\<open>std::array<unsigned char, 48 + 96 + 48>\<close>; \<^verbatim>\<open>SproutProof\<close> a variant.\<close>

definition GROTH_PROOF_SIZE :: nat where "GROTH_PROOF_SIZE = 192"

datatype SproutProof = PHGR PHGRProof | Groth bytes

text \<open>Byte arrays of fixed length.\<close>

definition Serialize_arr :: "bytes \<Rightarrow> bytes" where
  "Serialize_arr = Serialize_array ser_writedata8"

definition Unserialize_arr :: "nat \<Rightarrow> bytes sparser" where
  "Unserialize_arr n = Unserialize_array n ser_readdata8"

definition Serialize_SproutProof :: "bool \<Rightarrow> SproutProof \<Rightarrow> ser_error + bytes" where
  "Serialize_SproutProof useGroth p = (case p of
      PHGR q \<Rightarrow> if useGroth then Inl InvalidSproutProof else Inr (Serialize_PHGRProof q)
    | Groth q \<Rightarrow> if \<not> useGroth then Inl InvalidSproutProof else Inr (Serialize_arr q))"

definition Unserialize_SproutProof :: "bool \<Rightarrow> SproutProof sparser" where
  "Unserialize_SproutProof useGroth =
     (if useGroth then pbind (Unserialize_arr GROTH_PROOF_SIZE) (\<lambda>q. preturn (Groth q))
      else pbind Unserialize_PHGRProof (\<lambda>q. preturn (PHGR q)))"

section \<open>Parts of a transaction\<close>

record COutPoint =
  op_hash :: uint256
  op_n :: u32

definition COutPoint_null :: COutPoint where
  "COutPoint_null = \<lparr>op_hash = 0, op_n = - 1\<rparr>"

definition COutPoint_IsNull :: "COutPoint \<Rightarrow> bool" where
  "COutPoint_IsNull p \<longleftrightarrow> op_hash p = 0 \<and> op_n p = - 1"

definition Serialize_COutPoint :: "COutPoint \<Rightarrow> bytes" where
  "Serialize_COutPoint p = Serialize_uint256 (op_hash p) @ ser_writedata32 (op_n p)"

definition Unserialize_COutPoint :: "COutPoint sparser" where
  "Unserialize_COutPoint =
     pbind Unserialize_uint256 (\<lambda>h. pbind ser_readdata32 (\<lambda>n. preturn \<lparr>op_hash = h, op_n = n\<rparr>))"

type_synonym CScript = bytes

record CTxIn =
  prevout :: COutPoint
  scriptSig :: CScript
  nSequence :: u32

definition CTxIn_IsFinal :: "CTxIn \<Rightarrow> bool" where
  "CTxIn_IsFinal i \<longleftrightarrow> nSequence i = - 1"

definition Serialize_CTxIn :: "CTxIn \<Rightarrow> bytes" where
  "Serialize_CTxIn i = Serialize_COutPoint (prevout i) @ Serialize_bytes (scriptSig i) @ ser_writedata32 (nSequence i)"

definition Unserialize_CTxIn :: "CTxIn sparser" where
  "Unserialize_CTxIn =
     pbind Unserialize_COutPoint (\<lambda>p. pbind Unserialize_bytes (\<lambda>s. pbind ser_readdata32 (\<lambda>q.
     preturn \<lparr>prevout = p, scriptSig = s, nSequence = q\<rparr>)))"

record CTxOut =
  nValue :: int
  scriptPubKey :: CScript

definition CTxOut_null :: CTxOut where
  "CTxOut_null = \<lparr>nValue = -1, scriptPubKey = []\<rparr>"

definition CTxOut_IsNull :: "CTxOut \<Rightarrow> bool" where
  "CTxOut_IsNull o' \<longleftrightarrow> nValue o' = -1"

definition Serialize_CTxOut :: "CTxOut \<Rightarrow> bytes" where
  "Serialize_CTxOut o' = Serialize_int64 (nValue o') @ Serialize_bytes (scriptPubKey o')"

definition Unserialize_CTxOut :: "CTxOut sparser" where
  "Unserialize_CTxOut =
     pbind Unserialize_int64 (\<lambda>v. pbind Unserialize_bytes (\<lambda>s. preturn \<lparr>nValue = v, scriptPubKey = s\<rparr>))"

record SpendDescription =
  sd_cv :: uint256
  sd_anchor :: uint256
  sd_nullifier :: uint256
  sd_rk :: uint256
  sd_zkproof :: bytes
  spendAuthSig :: bytes

definition Serialize_Spend :: "SpendDescription \<Rightarrow> bytes" where
  "Serialize_Spend d =
     Serialize_uint256 (sd_cv d) @ Serialize_uint256 (sd_anchor d) @ Serialize_uint256 (sd_nullifier d) @
     Serialize_uint256 (sd_rk d) @ Serialize_arr (sd_zkproof d) @ Serialize_arr (spendAuthSig d)"

definition Unserialize_Spend :: "SpendDescription sparser" where
  "Unserialize_Spend =
     pbind Unserialize_uint256 (\<lambda>cv. pbind Unserialize_uint256 (\<lambda>rt. pbind Unserialize_uint256 (\<lambda>nf.
     pbind Unserialize_uint256 (\<lambda>rk. pbind (Unserialize_arr GROTH_PROOF_SIZE) (\<lambda>zk. pbind (Unserialize_arr 64) (\<lambda>sg.
     preturn \<lparr>sd_cv = cv, sd_anchor = rt, sd_nullifier = nf, sd_rk = rk, sd_zkproof = zk, spendAuthSig = sg\<rparr>))))))"

record OutputDescription =
  od_cv :: uint256
  od_cmu :: uint256
  od_ephemeralKey :: uint256
  od_encCiphertext :: bytes
  od_outCiphertext :: bytes
  od_zkproof :: bytes

definition ZC_SAPLING_ENCCIPHERTEXT_SIZE :: nat where
  "ZC_SAPLING_ENCCIPHERTEXT_SIZE = (1 + 11 + 8 + 32 + 512) + 16"

definition ZC_SAPLING_OUTCIPHERTEXT_SIZE :: nat where
  "ZC_SAPLING_OUTCIPHERTEXT_SIZE = (32 + 32) + 16"

definition Serialize_Output :: "OutputDescription \<Rightarrow> bytes" where
  "Serialize_Output d =
     Serialize_uint256 (od_cv d) @ Serialize_uint256 (od_cmu d) @ Serialize_uint256 (od_ephemeralKey d) @
     Serialize_arr (od_encCiphertext d) @ Serialize_arr (od_outCiphertext d) @ Serialize_arr (od_zkproof d)"

definition Unserialize_Output :: "OutputDescription sparser" where
  "Unserialize_Output =
     pbind Unserialize_uint256 (\<lambda>cv. pbind Unserialize_uint256 (\<lambda>cm. pbind Unserialize_uint256 (\<lambda>ek.
     pbind (Unserialize_arr ZC_SAPLING_ENCCIPHERTEXT_SIZE) (\<lambda>en.
     pbind (Unserialize_arr ZC_SAPLING_OUTCIPHERTEXT_SIZE) (\<lambda>ou.
     pbind (Unserialize_arr GROTH_PROOF_SIZE) (\<lambda>zk.
     preturn \<lparr>od_cv = cv, od_cmu = cm, od_ephemeralKey = ek, od_encCiphertext = en, od_outCiphertext = ou,
       od_zkproof = zk\<rparr>))))))"

record JSDescription =
  vpub_old :: int
  vpub_new :: int
  js_anchor :: uint256
  js_nullifiers :: "uint256 list"
  js_commitments :: "uint256 list"
  js_ephemeralKey :: uint256
  js_ciphertexts :: "bytes list"
  js_randomSeed :: uint256
  js_macs :: "uint256 list"
  js_proof :: SproutProof

definition ZC_NUM_JS_INPUTS :: nat where "ZC_NUM_JS_INPUTS = 2"

definition ZC_NUM_JS_OUTPUTS :: nat where "ZC_NUM_JS_OUTPUTS = 2"

text \<open>A Sprout ciphertext: \<^verbatim>\<open>ZC_NOTEPLAINTEXT_SIZE + NOTEENCRYPTION_AUTH_BYTES\<close> bytes.\<close>

definition ZC_CLEN :: nat where
  "ZC_CLEN = (1 + 8 + 32 + 32 + 512) + 16"

definition Serialize_JSDescription :: "bool \<Rightarrow> JSDescription \<Rightarrow> ser_error + bytes" where
  "Serialize_JSDescription useGroth d =
     rbind (Serialize_SproutProof useGroth (js_proof d)) (\<lambda>p.
     Inr (Serialize_int64 (vpub_old d) @ Serialize_int64 (vpub_new d) @ Serialize_uint256 (js_anchor d) @
       Serialize_array Serialize_uint256 (js_nullifiers d) @ Serialize_array Serialize_uint256 (js_commitments d) @
       Serialize_uint256 (js_ephemeralKey d) @ Serialize_uint256 (js_randomSeed d) @
       Serialize_array Serialize_uint256 (js_macs d) @ p @ Serialize_array Serialize_arr (js_ciphertexts d)))"

definition Unserialize_JSDescription :: "bool \<Rightarrow> JSDescription sparser" where
  "Unserialize_JSDescription useGroth =
     pbind Unserialize_int64 (\<lambda>vo. pbind Unserialize_int64 (\<lambda>vn. pbind Unserialize_uint256 (\<lambda>rt.
     pbind (Unserialize_array ZC_NUM_JS_INPUTS Unserialize_uint256) (\<lambda>nf.
     pbind (Unserialize_array ZC_NUM_JS_OUTPUTS Unserialize_uint256) (\<lambda>cm.
     pbind Unserialize_uint256 (\<lambda>ek. pbind Unserialize_uint256 (\<lambda>rs.
     pbind (Unserialize_array ZC_NUM_JS_INPUTS Unserialize_uint256) (\<lambda>mac.
     pbind (Unserialize_SproutProof useGroth) (\<lambda>pr.
     pbind (Unserialize_array ZC_NUM_JS_OUTPUTS (Unserialize_arr ZC_CLEN)) (\<lambda>ct.
     preturn \<lparr>vpub_old = vo, vpub_new = vn, js_anchor = rt, js_nullifiers = nf, js_commitments = cm,
       js_ephemeralKey = ek, js_ciphertexts = ct, js_randomSeed = rs, js_macs = mac, js_proof = pr\<rparr>))))))))))"

section \<open>Transactions\<close>

record CMutableTransaction =
  fOverwintered :: bool
  nVersion :: int
  nVersionGroupId :: u32
  vin :: "CTxIn list"
  vout :: "CTxOut list"
  nLockTime :: u32
  nExpiryHeight :: u32
  valueBalance :: int
  vShieldedSpend :: "SpendDescription list"
  vShieldedOutput :: "OutputDescription list"
  vJoinSplit :: "JSDescription list"
  joinSplitPubKey :: uint256
  joinSplitSig :: bytes
  bindingSig :: bytes

record CTransaction = CMutableTransaction +
  txhash :: uint256

definition OVERWINTER_TX_VERSION :: int where "OVERWINTER_TX_VERSION = 3"

definition SAPLING_TX_VERSION :: int where "SAPLING_TX_VERSION = 4"

definition OVERWINTER_VERSION_GROUP_ID :: u32 where "OVERWINTER_VERSION_GROUP_ID = 0x03C48270"

definition SAPLING_VERSION_GROUP_ID :: u32 where "SAPLING_VERSION_GROUP_ID = 0x892F2085"

text \<open>The default constructor of \<^verbatim>\<open>CMutableTransaction\<close>.\<close>

definition CMutableTransaction0 :: CMutableTransaction where
  "CMutableTransaction0 = \<lparr>fOverwintered = False, nVersion = 1, nVersionGroupId = 0, vin = [], vout = [],
     nLockTime = 0, nExpiryHeight = 0, valueBalance = 0, vShieldedSpend = [], vShieldedOutput = [],
     vJoinSplit = [], joinSplitPubKey = 0, joinSplitSig = replicate 64 0, bindingSig = replicate 64 0\<rparr>"

definition CTransaction0 :: CTransaction where
  "CTransaction0 = CMutableTransaction.extend CMutableTransaction0 \<lparr>txhash = 0\<rparr>"

definition GetHeader :: "('z) CMutableTransaction_scheme \<Rightarrow> u32" where
  "GetHeader tx =
     (let header = of_int (nVersion tx) in if fOverwintered tx then header OR push_bit 31 1 else header)"

definition isOverwinterV3 :: "bool \<Rightarrow> u32 \<Rightarrow> int \<Rightarrow> bool" where
  "isOverwinterV3 ow vg v \<longleftrightarrow> ow \<and> vg = OVERWINTER_VERSION_GROUP_ID \<and> v = OVERWINTER_TX_VERSION"

definition isSaplingV4 :: "bool \<Rightarrow> u32 \<Rightarrow> int \<Rightarrow> bool" where
  "isSaplingV4 ow vg v \<longleftrightarrow> ow \<and> vg = SAPLING_VERSION_GROUP_ID \<and> v = SAPLING_TX_VERSION"

text \<open>JoinSplits read the header back from the version of the stream they are given.\<close>

definition useGroth :: "u32 \<Rightarrow> bool" where
  "useGroth header \<longleftrightarrow>
     drop_bit 31 header \<noteq> 0 \<and> int (unat (header AND 0x7FFFFFFF)) \<ge> SAPLING_TX_VERSION"

fun rtraverse :: "('a \<Rightarrow> 'e + 'b) \<Rightarrow> 'a list \<Rightarrow> 'e + 'b list" where
  "rtraverse f [] = Inr []"
| "rtraverse f (x # xs) = rbind (f x) (\<lambda>y. rbind (rtraverse f xs) (\<lambda>ys. Inr (y # ys)))"

definition Serialize_vJoinSplit :: "bool \<Rightarrow> JSDescription list \<Rightarrow> ser_error + bytes" where
  "Serialize_vJoinSplit g js =
     rbind (rtraverse (Serialize_JSDescription g) js) (\<lambda>ds.
     Inr (WriteCompactSize (of_nat (length js)) @ concat ds))"

text \<open>\<^verbatim>\<open>sizeof\<close> only sets the allocation step of the vector reader.\<close>

definition sizeof_CTxIn :: nat where "sizeof_CTxIn = 72"
definition sizeof_CTxOut :: nat where "sizeof_CTxOut = 40"
definition sizeof_SpendDescription :: nat where "sizeof_SpendDescription = 384"
definition sizeof_OutputDescription :: nat where "sizeof_OutputDescription = 948"
definition sizeof_JSDescription :: nat where "sizeof_JSDescription = 1808"

definition Serialize_tx :: "('z) CMutableTransaction_scheme \<Rightarrow> ser_error + bytes" where
  "Serialize_tx tx =
     (let header = GetHeader tx;
          v3 = isOverwinterV3 (fOverwintered tx) (nVersionGroupId tx) (nVersion tx);
          v4 = isSaplingV4 (fOverwintered tx) (nVersionGroupId tx) (nVersion tx)
      in if fOverwintered tx \<and> \<not> (v3 \<or> v4) then Inl UnknownTransactionFormat
         else rbind (if 2 \<le> nVersion tx then Serialize_vJoinSplit (useGroth header) (vJoinSplit tx) else Inr []) (\<lambda>js.
           Inr (ser_writedata32 header @
             (if fOverwintered tx then ser_writedata32 (nVersionGroupId tx) else []) @
             Serialize_vector Serialize_CTxIn (vin tx) @
             Serialize_vector Serialize_CTxOut (vout tx) @
             ser_writedata32 (nLockTime tx) @
             (if v3 \<or> v4 then ser_writedata32 (nExpiryHeight tx) else []) @
             (if v4 then Serialize_int64 (valueBalance tx) else []) @
             (if v4 then Serialize_vector Serialize_Spend (vShieldedSpend tx) else []) @
             (if v4 then Serialize_vector Serialize_Output (vShieldedOutput tx) else []) @
             js @
             (if 2 \<le> nVersion tx \<and> vJoinSplit tx \<noteq> [] then Serialize_uint256 (joinSplitPubKey tx) else []) @
             (if 2 \<le> nVersion tx \<and> vJoinSplit tx \<noteq> [] then Serialize_arr (joinSplitSig tx) else []) @
             (if v4 \<and> \<not> (vShieldedSpend tx = [] \<and> vShieldedOutput tx = []) then Serialize_arr (bindingSig tx) else []))))"

definition Unserialize_tx :: "('z) CMutableTransaction_scheme \<Rightarrow> ('z) CMutableTransaction_scheme sparser" where
  "Unserialize_tx old =
     pbind ser_readdata32 (\<lambda>header.
     let ow = (drop_bit 31 header \<noteq> 0); v = int (unat (header AND 0x7FFFFFFF)) in
     pbind (pwhen ow ser_readdata32 (nVersionGroupId old)) (\<lambda>vg.
     let v3 = isOverwinterV3 ow vg v; v4 = isSaplingV4 ow vg v in
     pbind (pguard (\<not> (ow \<and> \<not> (v3 \<or> v4))) UnknownTransactionFormat) (\<lambda>_.
     pbind (Unserialize_vector sizeof_CTxIn Unserialize_CTxIn) (\<lambda>vi.
     pbind (Unserialize_vector sizeof_CTxOut Unserialize_CTxOut) (\<lambda>vo.
     pbind ser_readdata32 (\<lambda>lt.
     pbind (pwhen (v3 \<or> v4) ser_readdata32 (nExpiryHeight old)) (\<lambda>eh.
     pbind (pwhen v4 Unserialize_int64 (valueBalance old)) (\<lambda>vb.
     pbind (pwhen v4 (Unserialize_vector sizeof_SpendDescription Unserialize_Spend) (vShieldedSpend old)) (\<lambda>sp.
     pbind (pwhen v4 (Unserialize_vector sizeof_OutputDescription Unserialize_Output) (vShieldedOutput old)) (\<lambda>ou.
     pbind (pwhen (2 \<le> v) (Unserialize_vector sizeof_JSDescription (Unserialize_JSDescription (useGroth header)))
              (vJoinSplit old)) (\<lambda>js.
     pbind (pwhen (2 \<le> v \<and> js \<noteq> []) Unserialize_uint256 (joinSplitPubKey old)) (\<lambda>pk.
     pbind (pwhen (2 \<le> v \<and> js \<noteq> []) (Unserialize_arr 64) (joinSplitSig old)) (\<lambda>sg.
     pbind (pwhen (v4 \<and> \<not> (sp = [] \<and> ou = [])) (Unserialize_arr 64) (bindingSig old)) (\<lambda>bs.
     preturn (old\<lparr>fOverwintered := ow, nVersion := v, nVersionGroupId := vg, vin := vi, vout := vo, nLockTime := lt,
       nExpiryHeight := eh, valueBalance := vb, vShieldedSpend := sp, vShieldedOutput := ou, vJoinSplit := js,
       joinSplitPubKey := pk, joinSplitSig := sg, bindingSig := bs\<rparr>)))))))))))))))"

section \<open>Transaction objects\<close>

definition UpdateHash :: "CTransaction \<Rightarrow> ser_error + CTransaction" where
  "UpdateHash tx = rbind (Serialize_tx tx) (\<lambda>b. Inr (tx\<lparr>txhash := SerializeHash [b]\<rparr>))"

definition CMutableTransaction_GetHash :: "CMutableTransaction \<Rightarrow> ser_error + uint256" where
  "CMutableTransaction_GetHash tx = rbind (Serialize_tx tx) (\<lambda>b. Inr (SerializeHash [b]))"

definition CTransaction_Unserialize :: "CTransaction \<Rightarrow> CTransaction sparser" where
  "CTransaction_Unserialize old =
     pbind (Unserialize_tx old) (\<lambda>tx bs. rbind (UpdateHash tx) (\<lambda>tx'. Inr (tx', bs)))"

text \<open>The constructors from a mutable transaction: by copy, and by move.  The member initialisers
  of the moving one stop at \<^verbatim>\<open>joinSplitSig\<close>, so \<^verbatim>\<open>bindingSig\<close> keeps its default, all zero.\<close>

definition CTransaction_copy :: "CMutableTransaction \<Rightarrow> ser_error + CTransaction" where
  "CTransaction_copy tx = UpdateHash (CMutableTransaction.extend tx \<lparr>txhash = 0\<rparr>)"

definition CTransaction_move :: "CMutableTransaction \<Rightarrow> ser_error + CTransaction" where
  "CTransaction_move tx =
     UpdateHash (CMutableTransaction.extend (tx\<lparr>bindingSig := replicate 64 0\<rparr>) \<lparr>txhash = 0\<rparr>)"

definition CMutableTransaction_of :: "CTransaction \<Rightarrow> CMutableTransaction" where
  "CMutableTransaction_of tx = CMutableTransaction.truncate tx"

text \<open>\<^verbatim>\<open>CTransaction(deserialize, s)\<close>: read a mutable transaction, then move it.  The constructor
  \<^verbatim>\<open>CMutableTransaction(deserialize_type, Stream&)\<close> initialises none of the scalar members; \<open>mem\<close>
  holds what they are in memory.\<close>

definition deserialize_CTransaction :: "CMutableTransaction \<Rightarrow> CTransaction sparser" where
  "deserialize_CTransaction mem =
     pbind (Unserialize_tx (mem\<lparr>vin := [], vout := [], vShieldedSpend := [], vShieldedOutput := [], vJoinSplit := [],
       joinSplitPubKey := 0, joinSplitSig := replicate 64 0, bindingSig := replicate 64 0\<rparr>))
     (\<lambda>tx bs. rbind (CTransaction_move tx) (\<lambda>tx'. Inr (tx', bs)))"

definition IsNull_tx :: "('z) CMutableTransaction_scheme \<Rightarrow> bool" where
  "IsNull_tx tx \<longleftrightarrow> vin tx = [] \<and> vout tx = []"

definition IsCoinBase :: "('z) CMutableTransaction_scheme \<Rightarrow> bool" where
  "IsCoinBase tx \<longleftrightarrow> length (vin tx) = 1 \<and> COutPoint_IsNull (prevout (vin tx ! 0))"

datatype value_error = ValueOutOfRange

text \<open>The step \<^verbatim>\<open>nValueOut += x; if (!MoneyRange(x) || !MoneyRange(nValueOut)) throw\<close>.\<close>

definition add_value :: "int \<Rightarrow> int \<Rightarrow> value_error + int" where
  "add_value x v =
     (let v' = wrap64 (v + x)
      in if \<not> MoneyRange x \<or> \<not> MoneyRange v' then Inl ValueOutOfRange else Inr v')"

definition GetValueOut :: "('z) CMutableTransaction_scheme \<Rightarrow> value_error + int" where
  "GetValueOut tx =
     rbind (rfold (\<lambda>o'. add_value (nValue o')) (vout tx) 0) (\<lambda>v.
     rbind (if valueBalance tx \<le> 0 then add_value (wrap64 (- valueBalance tx)) v else Inr v) (\<lambda>v.
     rfold (\<lambda>js. add_value (vpub_old js)) (vJoinSplit tx) v))"

definition GetShieldedValueIn :: "('z) CMutableTransaction_scheme \<Rightarrow> value_error + int" where
  "GetShieldedValueIn tx =
     rbind (if 0 \<le> valueBalance tx then add_value (valueBalance tx) 0 else Inr 0) (\<lambda>v.
     rfold (\<lambda>js. add_value (vpub_new js)) (vJoinSplit tx) v)"

definition CalculateModifiedSize :: "('z) CMutableTransaction_scheme \<Rightarrow> u32 \<Rightarrow> ser_error + u32" where
  "CalculateModifiedSize tx nTxSize =
     rbind (if nTxSize = 0 then rbind (Serialize_tx tx) (\<lambda>b. Inr (of_nat (length b))) else Inr nTxSize) (\<lambda>n.
     Inr (fold (\<lambda>i n. let offset = 41 + min 110 (of_nat (length (scriptSig i)))
                     in if offset < n then n - offset else n) (vin tx) n))"

section \<open>Codecs of the parts\<close>

context codec
begin

lemma pwhen_dec_iff:
  "pwhen c dec d bs = Inr (a, r) \<longleftrightarrow> (c \<longrightarrow> ok a) \<and> (\<not> c \<longrightarrow> a = d) \<and> bs = (if c then enc a else []) @ r"
  by (cases c) (auto simp: parser_simps dec_iff)

lemma pwhen_dec_enc:
  "(c \<Longrightarrow> ok a) \<Longrightarrow> (\<not> c \<Longrightarrow> a = d) \<Longrightarrow> pwhen c dec d ((if c then enc a else []) @ r) = Inr (a, r)"
  by (cases c) (auto simp: parser_simps dec_enc)

lemma pbind_dec: "ok a \<Longrightarrow> pbind dec f (enc a @ r) = f a r"
  by (simp add: pbind_apply dec_enc)

lemma pbind_decE:
  assumes "pbind dec f bs = Inr z"
  obtains a r where "ok a" "bs = enc a @ r" "f a r = Inr z"
  using assms by (auto simp: pbind_eq_Inr dec_iff)

lemma pbind_pwhenE:
  assumes "pbind (pwhen c dec d) f bs = Inr z"
  obtains a r where "c \<longrightarrow> ok a" "\<not> c \<longrightarrow> a = d" "bs = (if c then enc a else []) @ r" "f a r = Inr z"
  using assms by (auto simp: pbind_eq_Inr pwhen_dec_iff)

lemma pbind_pwhen:
  "(c \<Longrightarrow> ok a) \<Longrightarrow> (\<not> c \<Longrightarrow> a = d) \<Longrightarrow> pbind (pwhen c dec d) f ((if c then enc a else []) @ r) = f a r"
  by (cases c) (simp_all add: parser_simps pbind_dec)

end

lemma pbind_pguardE:
  assumes "pbind (pguard c e) f bs = Inr z"
  obtains "c" "f () bs = Inr z"
  using assms by (auto simp: parser_simps)

lemma preturn_InrE:
  assumes "preturn a bs = Inr (b, r)"
  obtains "b = a" "r = bs"
  using assms by (auto simp: preturn_apply)

lemma byte_lead:
  fixes b m :: byte
  assumes "b AND NOT 1 = m"
  shows "b = (if b AND 1 \<noteq> 0 then m OR 1 else m)"
proof -
  have "b = (b AND NOT 1) OR (b AND 1)" by (rule bit_eqI) (auto simp: bit_simps)
  moreover have "b AND 1 = 0 \<or> b AND 1 = 1"
    by (metis and_one_eq even_iff_mod_2_eq_zero odd_iff_mod_2_eq_one)
  ultimately show ?thesis using assms by auto
qed

definition G2_ok :: "CompressedG2 \<Rightarrow> bool" where
  "G2_ok p \<longleftrightarrow> length (g2_x p) = 64"

definition PHGRProof_ok :: "PHGRProof \<Rightarrow> bool" where
  "PHGRProof_ok p \<longleftrightarrow> G2_ok (g_B p)"

definition SproutProof_ok :: "bool \<Rightarrow> SproutProof \<Rightarrow> bool" where
  "SproutProof_ok g p \<longleftrightarrow> (case p of PHGR q \<Rightarrow> \<not> g \<and> PHGRProof_ok q | Groth q \<Rightarrow> g \<and> length q = GROTH_PROOF_SIZE)"

definition CTxIn_ok :: "CTxIn \<Rightarrow> bool" where
  "CTxIn_ok i \<longleftrightarrow> length (scriptSig i) \<le> unat MAX_SIZE"

definition CTxOut_ok :: "CTxOut \<Rightarrow> bool" where
  "CTxOut_ok o' \<longleftrightarrow> int64_range (nValue o') \<and> length (scriptPubKey o') \<le> unat MAX_SIZE"

definition Spend_ok :: "SpendDescription \<Rightarrow> bool" where
  "Spend_ok d \<longleftrightarrow> length (sd_zkproof d) = GROTH_PROOF_SIZE \<and> length (spendAuthSig d) = 64"

definition Output_ok :: "OutputDescription \<Rightarrow> bool" where
  "Output_ok d \<longleftrightarrow> length (od_encCiphertext d) = ZC_SAPLING_ENCCIPHERTEXT_SIZE \<and>
     length (od_outCiphertext d) = ZC_SAPLING_OUTCIPHERTEXT_SIZE \<and> length (od_zkproof d) = GROTH_PROOF_SIZE"

definition JSDescription_ok :: "bool \<Rightarrow> JSDescription \<Rightarrow> bool" where
  "JSDescription_ok g d \<longleftrightarrow> int64_range (vpub_old d) \<and> int64_range (vpub_new d) \<and>
     length (js_nullifiers d) = ZC_NUM_JS_INPUTS \<and> length (js_commitments d) = ZC_NUM_JS_OUTPUTS \<and>
     length (js_macs d) = ZC_NUM_JS_INPUTS \<and> SproutProof_ok g (js_proof d) \<and>
     length (js_ciphertexts d) = ZC_NUM_JS_OUTPUTS \<and> (\<forall>c \<in> set (js_ciphertexts d). length c = ZC_CLEN)"

interpretation arr: codec Serialize_arr "Unserialize_arr n" "\<lambda>v. length v = n" for n
  unfolding Serialize_arr_def Unserialize_arr_def using u8.array_codec [of n] by (simp add: list.pred_True)

interpretation arr256: codec "Serialize_array Serialize_uint256" "Unserialize_array n Unserialize_uint256"
  "\<lambda>v. length v = n" for n
  using u256.array_codec [of n] by (simp add: list.pred_True)

interpretation ciphertexts: codec "Serialize_array Serialize_arr" "Unserialize_array n (Unserialize_arr k)"
  "\<lambda>v. length v = n \<and> (\<forall>c \<in> set v. length c = k)" for n k
  using arr.array_codec [of n k] by (simp add: list_all_iff)

interpretation g1: codec Serialize_G1 Unserialize_G1 "\<lambda>_. True"
proof
  show "Unserialize_G1 (Serialize_G1 a @ r) = Inr (a, r)" for a r
    by (cases a) (auto simp: Serialize_G1_def Unserialize_G1_def parser_simps u8.dec_enc u256.dec_enc)
  show "True \<and> bs = Serialize_G1 a @ r" if D: "Unserialize_G1 bs = Inr (a, r)" for bs a r
  proof -
    obtain b x where b: "b AND NOT 1 = 0x02" "bs = ser_writedata8 b @ Serialize_uint256 x @ r"
        "a = \<lparr>y_lsb = (b AND 1 \<noteq> 0), g1_x = x\<rparr>"
      using D by (auto simp: Unserialize_G1_def parser_simps u8.dec_iff u256.dec_iff)
    then show ?thesis
      using byte_lead [OF b(1)] by (cases "b AND 1 = 0") (simp_all add: Serialize_G1_def)
  qed
qed

interpretation g2: codec Serialize_G2 Unserialize_G2 G2_ok
proof
  show "Unserialize_G2 (Serialize_G2 a @ r) = Inr (a, r)" if "G2_ok a" for a r
    using that arr.dec_enc [of "g2_x a" 64]
    by (cases a) (auto simp: G2_ok_def Serialize_G2_def Unserialize_G2_def parser_simps u8.dec_enc
        simp flip: Serialize_arr_def Unserialize_arr_def)
  show "G2_ok a \<and> bs = Serialize_G2 a @ r" if D: "Unserialize_G2 bs = Inr (a, r)" for bs a r
  proof -
    obtain b x where b: "b AND NOT 1 = 0x0a" "bs = ser_writedata8 b @ Serialize_arr x @ r"
        "a = \<lparr>y_gt = (b AND 1 \<noteq> 0), g2_x = x\<rparr>" "length x = 64"
      using D by (auto simp: Unserialize_G2_def parser_simps u8.dec_iff arr.dec_iff
          simp flip: Unserialize_arr_def)
    then show ?thesis
      using byte_lead [OF b(1)]
      by (cases "b AND 1 = 0") (simp_all add: G2_ok_def Serialize_G2_def flip: Serialize_arr_def)
  qed
qed

interpretation phgr: codec Serialize_PHGRProof Unserialize_PHGRProof PHGRProof_ok
proof
  show "Unserialize_PHGRProof (Serialize_PHGRProof a @ r) = Inr (a, r)" if "PHGRProof_ok a" for a r
    using that by (simp add: PHGRProof_ok_def Serialize_PHGRProof_def Unserialize_PHGRProof_def parser_simps
        g1.dec_enc g2.dec_enc)
  show "PHGRProof_ok a \<and> bs = Serialize_PHGRProof a @ r" if "Unserialize_PHGRProof bs = Inr (a, r)" for bs a r
    using that by (auto simp: PHGRProof_ok_def Serialize_PHGRProof_def Unserialize_PHGRProof_def parser_simps
        g1.dec_iff g2.dec_iff)
qed

interpretation outpoint: codec Serialize_COutPoint Unserialize_COutPoint "\<lambda>_. True"
proof
  show "Unserialize_COutPoint (Serialize_COutPoint a @ r) = Inr (a, r)" for a r
    by (simp add: Serialize_COutPoint_def Unserialize_COutPoint_def parser_simps u32.dec_enc u256.dec_enc)
  show "True \<and> bs = Serialize_COutPoint a @ r" if "Unserialize_COutPoint bs = Inr (a, r)" for bs a r
    using that
    by (auto simp: Serialize_COutPoint_def Unserialize_COutPoint_def parser_simps u32.dec_iff u256.dec_iff)
qed

interpretation txin: codec Serialize_CTxIn Unserialize_CTxIn CTxIn_ok
proof
  show "Unserialize_CTxIn (Serialize_CTxIn a @ r) = Inr (a, r)" if "CTxIn_ok a" for a r
    using that by (simp add: CTxIn_ok_def Serialize_CTxIn_def Unserialize_CTxIn_def parser_simps
        u32.dec_enc outpoint.dec_enc vbytes.dec_enc)
  show "CTxIn_ok a \<and> bs = Serialize_CTxIn a @ r" if "Unserialize_CTxIn bs = Inr (a, r)" for bs a r
    using that by (auto simp: CTxIn_ok_def Serialize_CTxIn_def Unserialize_CTxIn_def parser_simps
        u32.dec_iff outpoint.dec_iff vbytes.dec_iff)
qed

interpretation txout: codec Serialize_CTxOut Unserialize_CTxOut CTxOut_ok
proof
  show "Unserialize_CTxOut (Serialize_CTxOut a @ r) = Inr (a, r)" if "CTxOut_ok a" for a r
    using that by (simp add: CTxOut_ok_def Serialize_CTxOut_def Unserialize_CTxOut_def parser_simps
        i64.dec_enc vbytes.dec_enc)
  show "CTxOut_ok a \<and> bs = Serialize_CTxOut a @ r" if "Unserialize_CTxOut bs = Inr (a, r)" for bs a r
    using that by (auto simp: CTxOut_ok_def Serialize_CTxOut_def Unserialize_CTxOut_def parser_simps
        i64.dec_iff vbytes.dec_iff)
qed

interpretation spend: codec Serialize_Spend Unserialize_Spend Spend_ok
proof
  show "Unserialize_Spend (Serialize_Spend a @ r) = Inr (a, r)" if "Spend_ok a" for a r
    using that by (simp add: Spend_ok_def Serialize_Spend_def Unserialize_Spend_def parser_simps
        u256.dec_enc arr.dec_enc)
  show "Spend_ok a \<and> bs = Serialize_Spend a @ r" if "Unserialize_Spend bs = Inr (a, r)" for bs a r
    using that by (auto simp: Spend_ok_def Serialize_Spend_def Unserialize_Spend_def parser_simps
        u256.dec_iff arr.dec_iff)
qed

interpretation outdesc: codec Serialize_Output Unserialize_Output Output_ok
proof
  show "Unserialize_Output (Serialize_Output a @ r) = Inr (a, r)" if "Output_ok a" for a r
    using that by (simp add: Output_ok_def Serialize_Output_def Unserialize_Output_def parser_simps
        u256.dec_enc arr.dec_enc)
  show "Output_ok a \<and> bs = Serialize_Output a @ r" if "Unserialize_Output bs = Inr (a, r)" for bs a r
    using that by (auto simp: Output_ok_def Serialize_Output_def Unserialize_Output_def parser_simps
        u256.dec_iff arr.dec_iff)
qed

interpretation sprout_proof: codec "\<lambda>p. projr (Serialize_SproutProof g p)" "Unserialize_SproutProof g" "SproutProof_ok g" for g
proof
  show "Unserialize_SproutProof g (projr (Serialize_SproutProof g a) @ r) = Inr (a, r)" if "SproutProof_ok g a" for a r
    using that by (auto simp: SproutProof_ok_def Serialize_SproutProof_def Unserialize_SproutProof_def parser_simps
        arr.dec_enc phgr.dec_enc split: SproutProof.splits)
  show "SproutProof_ok g a \<and> bs = projr (Serialize_SproutProof g a) @ r"
    if "Unserialize_SproutProof g bs = Inr (a, r)" for bs a r
    using that by (auto simp: SproutProof_ok_def Serialize_SproutProof_def Unserialize_SproutProof_def parser_simps
        arr.dec_iff phgr.dec_iff split: if_splits)
qed

lemma Serialize_SproutProof_ok: "SproutProof_ok g p \<Longrightarrow> \<exists>b. Serialize_SproutProof g p = Inr b"
  by (auto simp: SproutProof_ok_def Serialize_SproutProof_def split: SproutProof.splits)

lemma rbind_SproutProof:
  "SproutProof_ok g p \<Longrightarrow> rbind (Serialize_SproutProof g p) f = f (projr (Serialize_SproutProof g p))"
  using Serialize_SproutProof_ok [of g p] by auto

lemma Serialize_JSDescription_ok:
  "SproutProof_ok g (js_proof d) \<Longrightarrow> Serialize_JSDescription g d = Inr (projr (Serialize_JSDescription g d))"
  using Serialize_SproutProof_ok [of g "js_proof d"] by (auto simp: Serialize_JSDescription_def)

interpretation joinsplit: codec "\<lambda>d. projr (Serialize_JSDescription g d)" "Unserialize_JSDescription g"
  "JSDescription_ok g" for g
proof
  show "Unserialize_JSDescription g (projr (Serialize_JSDescription g a) @ r) = Inr (a, r)"
    if "JSDescription_ok g a" for a r
  proof -
    have "SproutProof_ok g (js_proof a)" using that by (simp add: JSDescription_ok_def)
    then obtain b where b: "Serialize_SproutProof g (js_proof a) = Inr b"
      using Serialize_SproutProof_ok by blast
    have "Unserialize_SproutProof g (b @ q) = Inr (js_proof a, q)" for q
      using that b sprout_proof.dec_enc [of g "js_proof a" q] by (simp add: JSDescription_ok_def)
    then show ?thesis
      using that by (simp add: JSDescription_ok_def Serialize_JSDescription_def Unserialize_JSDescription_def
          parser_simps b u256.dec_enc i64.dec_enc arr256.dec_enc ciphertexts.dec_enc)
  qed
  show "JSDescription_ok g a \<and> bs = projr (Serialize_JSDescription g a) @ r"
    if "Unserialize_JSDescription g bs = Inr (a, r)" for bs a r
    using that by (auto simp: JSDescription_ok_def Serialize_JSDescription_def Unserialize_JSDescription_def
        parser_simps u256.dec_iff i64.dec_iff arr256.dec_iff ciphertexts.dec_iff sprout_proof.dec_iff
        rbind_SproutProof)
qed

lemma sizeof_pos:
  "0 < sizeof_CTxIn" "0 < sizeof_CTxOut" "0 < sizeof_SpendDescription" "0 < sizeof_OutputDescription"
  "0 < sizeof_JSDescription" "sizeof_CTxIn \<le> 5000000" "sizeof_CTxOut \<le> 5000000"
  "sizeof_SpendDescription \<le> 5000000" "sizeof_OutputDescription \<le> 5000000" "sizeof_JSDescription \<le> 5000000"
  by (simp_all add: sizeof_CTxIn_def sizeof_CTxOut_def sizeof_SpendDescription_def sizeof_OutputDescription_def
      sizeof_JSDescription_def)

abbreviation vec_ok :: "('a \<Rightarrow> bool) \<Rightarrow> 'a list \<Rightarrow> bool" where
  "vec_ok P xs \<equiv> length xs \<le> unat MAX_SIZE \<and> list_all P xs"

interpretation vins: codec "Serialize_vector Serialize_CTxIn" "Unserialize_vector sizeof_CTxIn Unserialize_CTxIn"
  "vec_ok CTxIn_ok"
  by (rule txin.vector_codec [OF sizeof_pos(1,6)])

interpretation vouts: codec "Serialize_vector Serialize_CTxOut" "Unserialize_vector sizeof_CTxOut Unserialize_CTxOut"
  "vec_ok CTxOut_ok"
  by (rule txout.vector_codec [OF sizeof_pos(2,7)])

interpretation spends: codec "Serialize_vector Serialize_Spend"
  "Unserialize_vector sizeof_SpendDescription Unserialize_Spend" "vec_ok Spend_ok"
  by (rule spend.vector_codec [OF sizeof_pos(3,8)])

interpretation outputs: codec "Serialize_vector Serialize_Output"
  "Unserialize_vector sizeof_OutputDescription Unserialize_Output" "vec_ok Output_ok"
  by (rule outdesc.vector_codec [OF sizeof_pos(4,9)])

interpretation joinsplits: codec "Serialize_vector (\<lambda>d. projr (Serialize_JSDescription g d))"
  "Unserialize_vector sizeof_JSDescription (Unserialize_JSDescription g)" "vec_ok (JSDescription_ok g)" for g
  by (rule joinsplit.vector_codec [OF sizeof_pos(5,10)])

lemma rtraverse_Inr:
  "(\<And>x. x \<in> set xs \<Longrightarrow> f x = Inr (g x)) \<Longrightarrow> rtraverse f xs = Inr (map g xs)"
  by (induction xs) auto

lemma Serialize_vJoinSplit_ok:
  assumes "list_all (JSDescription_ok g) js"
  shows "Serialize_vJoinSplit g js = Inr (Serialize_vector (\<lambda>d. projr (Serialize_JSDescription g d)) js)"
proof -
  have "rtraverse (Serialize_JSDescription g) js = Inr (map (\<lambda>d. projr (Serialize_JSDescription g d)) js)"
    using assms Serialize_JSDescription_ok
    by (intro rtraverse_Inr) (auto simp: list_all_iff JSDescription_ok_def)
  then show ?thesis by (simp add: Serialize_vJoinSplit_def Serialize_vector_def)
qed

section \<open>The transaction codec\<close>

text \<open>The header packs the flag and a 31-bit version.\<close>

lemma drop_bit_31: "drop_bit 31 (h :: u32) = of_bool (bit h 31)"
proof (rule bit_eqI)
  fix n
  have "\<not> bit h (31 + n)" if "n \<noteq> 0" using that bit_imp_le_length [of h "31 + n"] by auto
  then show "bit (drop_bit 31 h) n = bit (of_bool (bit h 31) :: u32) n"
    by (cases "n = 0") (simp_all add: bit_simps)
qed

lemma bit_31: "bit (push_bit 31 1 :: u32) i \<longleftrightarrow> i = 31"
  unfolding bit_push_bit_iff bit_1_iff by auto

lemma mask_31: "(0x7FFFFFFF :: u32) = mask 31"
  by (simp add: mask_eq_exp_minus_1)

lemma header_unpack:
  assumes "0 \<le> nVersion tx" "nVersion tx < 2 ^ 31"
  shows "drop_bit 31 (GetHeader tx) \<noteq> 0 \<longleftrightarrow> fOverwintered tx"
    and "int (unat (GetHeader tx AND 0x7FFFFFFF)) = nVersion tx"
proof -
  define w :: u32 where "w = of_int (nVersion tx)"
  have u: "uint w = nVersion tx" using assms by (simp add: w_def uint_word_of_int_eq take_bit_int_eq_self)
  have "uint (take_bit 31 w) = uint w"
    using u assms by (simp add: unsigned_take_bit_eq take_bit_int_eq_self)
  then have tw: "take_bit 31 w = w" by (rule word_uint_eqI)
  then have hi: "bit w i \<Longrightarrow> i < 31" for i by (metis bit_take_bit_iff)
  have h: "GetHeader tx = (if fOverwintered tx then w OR push_bit 31 1 else w)"
    by (simp add: GetHeader_def w_def)
  show "drop_bit 31 (GetHeader tx) \<noteq> 0 \<longleftrightarrow> fOverwintered tx"
    unfolding drop_bit_31 h using hi [of 31] bit_31 [of 31] by (auto simp: bit_or_iff)
  have "GetHeader tx AND mask 31 = w"
    unfolding h by (rule bit_eqI) (auto simp only: bit_and_iff bit_or_iff bit_mask_iff bit_31 split: if_splits dest: hi)
  then show "int (unat (GetHeader tx AND 0x7FFFFFFF)) = nVersion tx"
    unfolding mask_31 using u by simp
qed

lemma header_pack:
  assumes "fOverwintered tx \<longleftrightarrow> drop_bit 31 h \<noteq> 0" "nVersion tx = int (unat (h AND 0x7FFFFFFF))"
  shows "GetHeader tx = h" "0 \<le> nVersion tx" "nVersion tx < 2 ^ 31"
proof -
  have "uint (take_bit 31 h) < 2 ^ 31" by (simp only: unsigned_take_bit_eq take_bit_int_less_exp)
  then show "nVersion tx < 2 ^ 31" using assms(2) unfolding mask_31 take_bit_eq_mask [symmetric] by simp
  show "0 \<le> nVersion tx" using assms(2) by simp
  have w: "of_int (nVersion tx) = take_bit 31 h"
    using assms(2) unfolding mask_31 by (simp add: take_bit_eq_mask)
  show "GetHeader tx = h"
    unfolding GetHeader_def w Let_def assms(1) drop_bit_31
  proof (rule bit_eqI)
    fix n
    have "n < 32 \<or> \<not> bit h n" using bit_imp_le_length [of h n] by auto
    then show "bit (if of_bool (bit h 31) \<noteq> (0 :: u32) then take_bit 31 h OR push_bit 31 1 else take_bit 31 h) n = bit h n"
      using bit_31 [of n] by (cases "n = 31") (auto simp: bit_or_iff bit_take_bit_iff)
  qed
qed

text \<open>
  The transactions the wire format can carry, given the object they are read into: known formats,
  fields in range, and absent fields as in the old object.
\<close>

definition tx_v3 :: "('z) CMutableTransaction_scheme \<Rightarrow> bool" where
  "tx_v3 tx \<longleftrightarrow> isOverwinterV3 (fOverwintered tx) (nVersionGroupId tx) (nVersion tx)"

definition tx_v4 :: "('z) CMutableTransaction_scheme \<Rightarrow> bool" where
  "tx_v4 tx \<longleftrightarrow> isSaplingV4 (fOverwintered tx) (nVersionGroupId tx) (nVersion tx)"

definition tx_body_ok :: "('z) CMutableTransaction_scheme \<Rightarrow> bool \<Rightarrow> ('z) CMutableTransaction_scheme \<Rightarrow> bool" where
  "tx_body_ok old g tx \<longleftrightarrow>
     \<not> (fOverwintered tx \<and> \<not> (tx_v3 tx \<or> tx_v4 tx)) \<and>
     (\<not> fOverwintered tx \<longrightarrow> nVersionGroupId tx = nVersionGroupId old) \<and>
     vec_ok CTxIn_ok (vin tx) \<and> vec_ok CTxOut_ok (vout tx) \<and>
     (\<not> (tx_v3 tx \<or> tx_v4 tx) \<longrightarrow> nExpiryHeight tx = nExpiryHeight old) \<and>
     (tx_v4 tx \<longrightarrow> int64_range (valueBalance tx)) \<and> (\<not> tx_v4 tx \<longrightarrow> valueBalance tx = valueBalance old) \<and>
     (tx_v4 tx \<longrightarrow> vec_ok Spend_ok (vShieldedSpend tx)) \<and> (\<not> tx_v4 tx \<longrightarrow> vShieldedSpend tx = vShieldedSpend old) \<and>
     (tx_v4 tx \<longrightarrow> vec_ok Output_ok (vShieldedOutput tx)) \<and> (\<not> tx_v4 tx \<longrightarrow> vShieldedOutput tx = vShieldedOutput old) \<and>
     (2 \<le> nVersion tx \<longrightarrow> vec_ok (JSDescription_ok g) (vJoinSplit tx)) \<and>
     (\<not> 2 \<le> nVersion tx \<longrightarrow> vJoinSplit tx = vJoinSplit old) \<and>
     (\<not> (2 \<le> nVersion tx \<and> vJoinSplit tx \<noteq> []) \<longrightarrow> joinSplitPubKey tx = joinSplitPubKey old) \<and>
     (2 \<le> nVersion tx \<and> vJoinSplit tx \<noteq> [] \<longrightarrow> length (joinSplitSig tx) = 64) \<and>
     (\<not> (2 \<le> nVersion tx \<and> vJoinSplit tx \<noteq> []) \<longrightarrow> joinSplitSig tx = joinSplitSig old) \<and>
     (tx_v4 tx \<and> \<not> (vShieldedSpend tx = [] \<and> vShieldedOutput tx = []) \<longrightarrow> length (bindingSig tx) = 64) \<and>
     (\<not> (tx_v4 tx \<and> \<not> (vShieldedSpend tx = [] \<and> vShieldedOutput tx = [])) \<longrightarrow> bindingSig tx = bindingSig old) \<and>
     CMutableTransaction.more tx = CMutableTransaction.more old"

definition tx_ok :: "('z) CMutableTransaction_scheme \<Rightarrow> ('z) CMutableTransaction_scheme \<Rightarrow> bool" where
  "tx_ok old tx \<longleftrightarrow> 0 \<le> nVersion tx \<and> nVersion tx < 2 ^ 31 \<and> tx_body_ok old (useGroth (GetHeader tx)) tx"

text \<open>The bytes of a transaction in a known format, given its header.\<close>

definition tx_wire :: "u32 \<Rightarrow> ('z) CMutableTransaction_scheme \<Rightarrow> bytes" where
  "tx_wire h tx = ser_writedata32 h @
     (if fOverwintered tx then ser_writedata32 (nVersionGroupId tx) else []) @
     Serialize_vector Serialize_CTxIn (vin tx) @
     Serialize_vector Serialize_CTxOut (vout tx) @
     ser_writedata32 (nLockTime tx) @
     (if tx_v3 tx \<or> tx_v4 tx then ser_writedata32 (nExpiryHeight tx) else []) @
     (if tx_v4 tx then Serialize_int64 (valueBalance tx) else []) @
     (if tx_v4 tx then Serialize_vector Serialize_Spend (vShieldedSpend tx) else []) @
     (if tx_v4 tx then Serialize_vector Serialize_Output (vShieldedOutput tx) else []) @
     (if 2 \<le> nVersion tx then Serialize_vector (\<lambda>d. projr (Serialize_JSDescription (useGroth h) d)) (vJoinSplit tx)
      else []) @
     (if 2 \<le> nVersion tx \<and> vJoinSplit tx \<noteq> [] then Serialize_uint256 (joinSplitPubKey tx) else []) @
     (if 2 \<le> nVersion tx \<and> vJoinSplit tx \<noteq> [] then Serialize_arr (joinSplitSig tx) else []) @
     (if tx_v4 tx \<and> \<not> (vShieldedSpend tx = [] \<and> vShieldedOutput tx = []) then Serialize_arr (bindingSig tx) else [])"

lemma tx_okD:
  assumes "tx_ok old tx"
  shows "\<not> (fOverwintered tx \<and> \<not> (tx_v3 tx \<or> tx_v4 tx))"
    and "\<not> fOverwintered tx \<Longrightarrow> nVersionGroupId tx = nVersionGroupId old"
    and "vec_ok CTxIn_ok (vin tx)" "vec_ok CTxOut_ok (vout tx)"
    and "\<not> (tx_v3 tx \<or> tx_v4 tx) \<Longrightarrow> nExpiryHeight tx = nExpiryHeight old"
    and "tx_v4 tx \<Longrightarrow> int64_range (valueBalance tx)" "\<not> tx_v4 tx \<Longrightarrow> valueBalance tx = valueBalance old"
    and "tx_v4 tx \<Longrightarrow> vec_ok Spend_ok (vShieldedSpend tx)" "\<not> tx_v4 tx \<Longrightarrow> vShieldedSpend tx = vShieldedSpend old"
    and "tx_v4 tx \<Longrightarrow> vec_ok Output_ok (vShieldedOutput tx)" "\<not> tx_v4 tx \<Longrightarrow> vShieldedOutput tx = vShieldedOutput old"
    and "2 \<le> nVersion tx \<Longrightarrow> vec_ok (JSDescription_ok (useGroth (GetHeader tx))) (vJoinSplit tx)"
    and "\<not> 2 \<le> nVersion tx \<Longrightarrow> vJoinSplit tx = vJoinSplit old"
    and "\<not> (2 \<le> nVersion tx \<and> vJoinSplit tx \<noteq> []) \<Longrightarrow> joinSplitPubKey tx = joinSplitPubKey old"
    and "2 \<le> nVersion tx \<and> vJoinSplit tx \<noteq> [] \<Longrightarrow> length (joinSplitSig tx) = 64"
    and "\<not> (2 \<le> nVersion tx \<and> vJoinSplit tx \<noteq> []) \<Longrightarrow> joinSplitSig tx = joinSplitSig old"
    and "tx_v4 tx \<and> \<not> (vShieldedSpend tx = [] \<and> vShieldedOutput tx = []) \<Longrightarrow> length (bindingSig tx) = 64"
    and "\<not> (tx_v4 tx \<and> \<not> (vShieldedSpend tx = [] \<and> vShieldedOutput tx = [])) \<Longrightarrow> bindingSig tx = bindingSig old"
    and "CMutableTransaction.more tx = CMutableTransaction.more old"
  using assms unfolding tx_ok_def tx_body_ok_def by simp_all

lemma Serialize_tx_ok:
  assumes "tx_ok old tx"
  shows "Serialize_tx tx = Inr (tx_wire (GetHeader tx) tx)"
proof -
  note ok = tx_okD [OF assms]
  have "(if 2 \<le> nVersion tx then Serialize_vJoinSplit (useGroth (GetHeader tx)) (vJoinSplit tx) else Inr []) =
    Inr (if 2 \<le> nVersion tx
         then Serialize_vector (\<lambda>d. projr (Serialize_JSDescription (useGroth (GetHeader tx)) d)) (vJoinSplit tx) else [])"
    using ok(12) by (simp add: Serialize_vJoinSplit_ok)
  then show ?thesis
    unfolding Serialize_tx_def Let_def tx_v3_def [symmetric] tx_v4_def [symmetric] tx_wire_def
    using ok(1) by simp
qed

lemma Unserialize_Serialize_tx:
  assumes "tx_ok old tx"
  shows "Unserialize_tx old (projr (Serialize_tx tx) @ r) = Inr (tx, r)"
proof -
  have v: "0 \<le> nVersion tx" "nVersion tx < 2 ^ 31" using assms by (simp_all add: tx_ok_def)
  note ok = tx_okD [OF assms]
  have eq: "old\<lparr>fOverwintered := fOverwintered tx, nVersion := nVersion tx, nVersionGroupId := nVersionGroupId tx,
      vin := vin tx, vout := vout tx, nLockTime := nLockTime tx, nExpiryHeight := nExpiryHeight tx,
      valueBalance := valueBalance tx, vShieldedSpend := vShieldedSpend tx, vShieldedOutput := vShieldedOutput tx,
      vJoinSplit := vJoinSplit tx, joinSplitPubKey := joinSplitPubKey tx, joinSplitSig := joinSplitSig tx,
      bindingSig := bindingSig tx\<rparr> = tx"
    using ok(19) by (cases old; cases tx) simp
  show ?thesis
    unfolding Serialize_tx_ok [OF assms] tx_wire_def Unserialize_tx_def Let_def sum.sel append.assoc
    by (simp only: header_unpack [OF v] tx_v3_def [symmetric] tx_v4_def [symmetric] eq preturn_apply
        u32.pbind_dec [OF TrueI] vins.pbind_dec [OF ok(3)] vouts.pbind_dec [OF ok(4)]
        u32.pbind_pwhen [OF TrueI ok(2)] u32.pbind_pwhen [OF TrueI ok(5)]
        i64.pbind_pwhen [OF ok(6,7)] spends.pbind_pwhen [OF ok(8,9)]
        outputs.pbind_pwhen [OF ok(10,11)] joinsplits.pbind_pwhen [OF ok(12,13)]
        u256.pbind_pwhen [OF TrueI ok(14)] arr.pbind_pwhen [OF ok(15,16)]
        arr.pbind_pwhen [OF ok(17,18)] ok(1) not_False_eq_True pbind_Inr [OF pguard_True])
qed

lemma Unserialize_tx_parts:
  assumes "Unserialize_tx old bs = Inr (tx, r)"
  defines "h \<equiv> fst (projr (ser_readdata32 bs))"
  shows "((fOverwintered tx \<longleftrightarrow> drop_bit 31 h \<noteq> 0) \<and> nVersion tx = int (unat (h AND 0x7FFFFFFF))) \<and>
    tx_body_ok old (useGroth h) tx \<and> bs = tx_wire h tx @ r"
  using assms(1) unfolding Unserialize_tx_def Let_def h_def tx_body_ok_def tx_wire_def tx_v3_def tx_v4_def append.assoc
  apply (cases old)
  apply (elim u32.pbind_decE u32.pbind_pwhenE pbind_pguardE vins.pbind_decE vouts.pbind_decE i64.pbind_pwhenE
      spends.pbind_pwhenE outputs.pbind_pwhenE joinsplits.pbind_pwhenE u256.pbind_pwhenE arr.pbind_pwhenE preturn_InrE)
  apply hypsubst+
  apply (simp (no_asm_use) only: u32.dec_enc [OF TrueI] sum.sel prod.sel CMutableTransaction.simps)
  done

lemma Serialize_Unserialize_tx:
  assumes "Unserialize_tx old bs = Inr (tx, r)"
  shows "tx_ok old tx \<and> bs = projr (Serialize_tx tx) @ r"
proof -
  define h where "h = fst (projr (ser_readdata32 bs))"
  note parts = Unserialize_tx_parts [OF assms, folded h_def]
  have GH: "GetHeader tx = h" and v: "0 \<le> nVersion tx" "nVersion tx < 2 ^ 31"
    using header_pack [of tx h] parts by blast+
  then have ok: "tx_ok old tx" using parts by (simp add: tx_ok_def)
  then show ?thesis using parts by (simp add: Serialize_tx_ok GH)
qed

interpretation tx: codec "\<lambda>tx. projr (Serialize_tx tx)" "Unserialize_tx old" "tx_ok old" for old
  using Unserialize_Serialize_tx Serialize_Unserialize_tx by unfold_locales

section \<open>Value sums\<close>

lemma MAX_MONEY_eq: "MAX_MONEY = 2100000000000000"
  by (simp add: MAX_MONEY_def COIN_def)

lemma add_value_eq:
  assumes "MoneyRange v"
  shows "add_value x v = (if 0 \<le> x \<and> v + x \<le> MAX_MONEY then Inr (v + x) else Inl ValueOutOfRange)"
proof (cases "MoneyRange x")
  case True
  then have "int64_range (v + x)"
    using assms by (simp add: MoneyRange_def int64_range_def MAX_MONEY_eq)
  then show ?thesis using True assms by (auto simp: add_value_def Let_def MoneyRange_def)
next
  case False
  then show ?thesis using assms by (auto simp: add_value_def Let_def MoneyRange_def)
qed

lemma rfold_add_value:
  assumes "MoneyRange v"
  shows "rfold (\<lambda>o'. add_value (f o')) xs v =
    (if (\<forall>x \<in> set xs. 0 \<le> f x) \<and> v + sum_list (map f xs) \<le> MAX_MONEY then Inr (v + sum_list (map f xs))
     else Inl ValueOutOfRange)"
  using assms
proof (induction xs arbitrary: v)
  case Nil
  then show ?case by (simp add: MoneyRange_def)
next
  case (Cons x xs)
  show ?case
  proof (cases "0 \<le> f x \<and> v + f x \<le> MAX_MONEY")
    case True
    then have "MoneyRange (v + f x)" using Cons.prems by (simp add: MoneyRange_def)
    then show ?thesis using Cons.IH [of "v + f x"] True by (simp add: add_value_eq [OF Cons.prems] add.assoc)
  next
    case False
    have "0 \<le> sum_list (map f xs)" if "\<forall>x \<in> set xs. 0 \<le> f x"
      using that by (intro sum_list_nonneg) auto
    then show ?thesis using False by (auto simp: add_value_eq [OF Cons.prems])
  qed
qed

text \<open>The mathematical totals.\<close>

definition total_out :: "('z) CMutableTransaction_scheme \<Rightarrow> int" where
  "total_out tx = sum_list (map nValue (vout tx)) + max 0 (- valueBalance tx) + sum_list (map vpub_old (vJoinSplit tx))"

definition total_shielded_in :: "('z) CMutableTransaction_scheme \<Rightarrow> int" where
  "total_shielded_in tx = max 0 (valueBalance tx) + sum_list (map vpub_new (vJoinSplit tx))"

definition nonneg_out :: "('z) CMutableTransaction_scheme \<Rightarrow> bool" where
  "nonneg_out tx \<longleftrightarrow> (\<forall>o' \<in> set (vout tx). 0 \<le> nValue o') \<and> (\<forall>js \<in> set (vJoinSplit tx). 0 \<le> vpub_old js)"

lemma GetValueOut_eq:
  assumes "int64_range (valueBalance tx)"
  shows "GetValueOut tx =
    (if nonneg_out tx \<and> total_out tx \<le> MAX_MONEY then Inr (total_out tx) else Inl ValueOutOfRange)"
proof -
  define A B C where "A = sum_list (map nValue (vout tx))" and "B = max 0 (- valueBalance tx)"
    and "C = sum_list (map vpub_old (vJoinSplit tx))"
  have zero: "MoneyRange 0" by (simp add: MoneyRange_def MAX_MONEY_eq)
  have BC: "0 \<le> B" "(\<forall>js \<in> set (vJoinSplit tx). 0 \<le> vpub_old js) \<Longrightarrow> 0 \<le> C"
    by (auto simp: B_def C_def intro!: sum_list_nonneg)
  show ?thesis
  proof (cases "(\<forall>o' \<in> set (vout tx). 0 \<le> nValue o') \<and> A \<le> MAX_MONEY")
    case True
    then have A: "MoneyRange A" by (auto simp: MoneyRange_def A_def intro!: sum_list_nonneg)
    have vb: "(if valueBalance tx \<le> 0 then add_value (wrap64 (- valueBalance tx)) A else Inr A) =
        (if A + B \<le> MAX_MONEY then Inr (A + B) else Inl ValueOutOfRange)"
    proof (cases "valueBalance tx = - (2 ^ 63)")
      case True
      then show ?thesis using A by (simp add: B_def add_value_eq wrap64_def MoneyRange_def MAX_MONEY_eq)
    next
      case False
      then have "int64_range (- valueBalance tx)" using assms by (simp add: int64_range_def)
      then show ?thesis using A by (auto simp: B_def add_value_eq MoneyRange_def)
    qed
    show ?thesis
    proof (cases "A + B \<le> MAX_MONEY")
      case AB: True
      then have "MoneyRange (A + B)" using A BC by (simp add: MoneyRange_def)
      then show ?thesis
        using True vb AB rfold_add_value [OF zero, of nValue "vout tx"]
          rfold_add_value [of "A + B" vpub_old "vJoinSplit tx"]
        by (auto simp: GetValueOut_def total_out_def nonneg_out_def A_def B_def)
    next
      case False
      then show ?thesis
        using True vb BC rfold_add_value [OF zero, of nValue "vout tx"]
        by (auto simp: GetValueOut_def total_out_def nonneg_out_def A_def [symmetric] B_def [symmetric] C_def [symmetric])
    qed
  next
    case False
    then show ?thesis
      using BC rfold_add_value [OF zero, of nValue "vout tx"]
      by (auto simp: GetValueOut_def total_out_def nonneg_out_def A_def [symmetric] B_def [symmetric] C_def [symmetric])
  qed
qed

lemma GetShieldedValueIn_eq:
  "GetShieldedValueIn tx =
    (if (\<forall>js \<in> set (vJoinSplit tx). 0 \<le> vpub_new js) \<and> total_shielded_in tx \<le> MAX_MONEY
     then Inr (total_shielded_in tx) else Inl ValueOutOfRange)"
proof -
  define B C where "B = max 0 (valueBalance tx)" and "C = sum_list (map vpub_new (vJoinSplit tx))"
  have zero: "MoneyRange 0" by (simp add: MoneyRange_def MAX_MONEY_eq)
  have C: "(\<forall>js \<in> set (vJoinSplit tx). 0 \<le> vpub_new js) \<Longrightarrow> 0 \<le> C"
    by (auto simp: C_def intro!: sum_list_nonneg)
  have vb: "(if 0 \<le> valueBalance tx then add_value (valueBalance tx) 0 else Inr 0) =
      (if B \<le> MAX_MONEY then Inr B else Inl ValueOutOfRange)"
    by (auto simp: B_def add_value_eq [OF zero] MAX_MONEY_eq)
  show ?thesis
  proof (cases "B \<le> MAX_MONEY")
    case True
    then have "MoneyRange B" by (simp add: MoneyRange_def B_def)
    then show ?thesis
      using vb True rfold_add_value [of B vpub_new "vJoinSplit tx"]
      by (simp add: GetShieldedValueIn_def total_shielded_in_def B_def)
  next
    case False
    then show ?thesis using vb C
      by (auto simp: GetShieldedValueIn_def total_shielded_in_def B_def [symmetric] C_def [symmetric])
  qed
qed

section \<open>Properties\<close>

lemma Serialize_tx_more: "Serialize_tx (CMutableTransaction.extend t x) = Serialize_tx t" for t :: CMutableTransaction
  unfolding Serialize_tx_def GetHeader_def Let_def by (cases t) (simp add: CMutableTransaction.defs)

lemma Serialize_tx_txhash [simp]: "Serialize_tx (tx\<lparr>txhash := x\<rparr>) = Serialize_tx tx"
  unfolding Serialize_tx_def GetHeader_def Let_def by (cases tx) simp

text \<open>C1: The transaction format is canonical.  Reading succeeds on exactly the byte strings that begin
  with the serialization of a transaction, it returns that transaction and leaves the rest of the stream;
  so no two byte strings decode to the same transaction, for every format (Sprout, Overwinter, Sapling)
  and whatever object the transaction is read into (fields that the format leaves out keep the value
  of the old object).\<close>

theorem tx_wire_canonical:
  "Unserialize_tx old bs = Inr (tx, r) \<longleftrightarrow> (\<exists>b. Serialize_tx tx = Inr b \<and> tx_ok old tx \<and> bs = b @ r)"
  using tx.dec_iff [of old bs tx r] Serialize_tx_ok [of old tx] by auto

text \<open>The transaction id is the double SHA-256 of the bytes the transaction was read from: after
  reading, the cached hash, the bytes consumed and the re-serialization agree.\<close>

theorem txid_of_wire:
  assumes "CTransaction_Unserialize old bs = Inr (tx, r)"
  shows "\<exists>b. bs = b @ r \<and> Serialize_tx tx = Inr b \<and> txhash tx = Hash b"
proof -
  obtain t where t: "Unserialize_tx old bs = Inr (t, r)" "UpdateHash t = Inr tx"
    using assms by (auto simp: CTransaction_Unserialize_def pbind_eq_Inr rbind_eq_Inr)
  obtain b where b: "Serialize_tx t = Inr b" "bs = b @ r"
    using tx.dec_iff [of old bs t r] Serialize_tx_ok [of old t] t(1) by auto
  have "SerializeHash [b] = Hash b"
    by (simp add: SerializeHash_def Hash_def CHashWriter_GetHash_def CHashWriter_write_def)
  then show ?thesis using t(2) b by (auto simp: UpdateHash_def)
qed

text \<open>A small transaction of each kind, for the concrete cases below.\<close>

definition sample_v1 :: CTransaction where
  "sample_v1 = CTransaction0\<lparr>nLockTime := 7, vout := [\<lparr>nValue = 5, scriptPubKey = [0x51]\<rparr>]\<rparr>"

definition sample_output :: OutputDescription where
  "sample_output = \<lparr>od_cv = 1, od_cmu = 2, od_ephemeralKey = 3,
     od_encCiphertext = replicate ZC_SAPLING_ENCCIPHERTEXT_SIZE 0,
     od_outCiphertext = replicate ZC_SAPLING_OUTCIPHERTEXT_SIZE 0, od_zkproof = replicate GROTH_PROOF_SIZE 0\<rparr>"

definition sample_v4 :: CMutableTransaction where
  "sample_v4 = CMutableTransaction0\<lparr>fOverwintered := True, nVersion := 4, nVersionGroupId := SAPLING_VERSION_GROUP_ID,
     vShieldedOutput := [sample_output], valueBalance := - 10, bindingSig := replicate 64 1\<rparr>"

lemma MAX_SIZE_nat: "unat MAX_SIZE = 33554432"
  by (simp add: MAX_SIZE_def)

lemma sample_v1_ok: "tx_ok CTransaction0 sample_v1"
  by (simp add: sample_v1_def tx_ok_def tx_body_ok_def tx_v3_def tx_v4_def isOverwinterV3_def isSaplingV4_def
      CTransaction0_def CMutableTransaction0_def CMutableTransaction.defs CTxOut_ok_def int64_range_def MAX_SIZE_nat)

lemma sample_v4_ok: "tx_ok (mem\<lparr>vin := [], vout := [], vShieldedSpend := [], vShieldedOutput := [], vJoinSplit := [],
       joinSplitPubKey := 0, joinSplitSig := replicate 64 0, bindingSig := replicate 64 0\<rparr>) sample_v4"
  by (simp add: sample_v4_def tx_ok_def tx_body_ok_def tx_v3_def tx_v4_def isOverwinterV3_def isSaplingV4_def
      CMutableTransaction0_def SAPLING_TX_VERSION_def Output_ok_def sample_output_def int64_range_def MAX_SIZE_nat)

theorem txid_of_wire_witness:
  "\<exists>b tx. CTransaction_Unserialize CTransaction0 (b @ [0xff]) = Inr (tx, [0xff]) \<and> nLockTime tx = 7 \<and> txhash tx = Hash b"
proof -
  define b where "b = projr (Serialize_tx sample_v1)"
  have b: "Serialize_tx sample_v1 = Inr b" using Serialize_tx_ok [OF sample_v1_ok] by (simp add: b_def)
  have "CTransaction_Unserialize CTransaction0 (b @ [0xff]) = Inr (sample_v1\<lparr>txhash := SerializeHash [b]\<rparr>, [0xff])"
    using tx.dec_enc [OF sample_v1_ok, of "[0xff]"] b
    by (simp add: CTransaction_Unserialize_def pbind_apply UpdateHash_def)
  moreover from txid_of_wire [OF this] have "SerializeHash [b] = Hash b" by (auto simp: b)
  ultimately show ?thesis
    by (intro exI [of _ b] exI [of _ "sample_v1\<lparr>txhash := SerializeHash [b]\<rparr>"]) (simp add: sample_v1_def)
qed

text \<open>C3: \<^verbatim>\<open>GetValueOut\<close> and \<^verbatim>\<open>GetShieldedValueIn\<close> return the exact mathematical totals, or throw: the
  64-bit additions never wrap unnoticed, a total is returned exactly when every term is non-negative and
  the total is at most \<^verbatim>\<open>MAX_MONEY\<close>.\<close>

theorem value_totals_exact:
  assumes "int64_range (valueBalance tx)"
  shows "GetValueOut tx =
      (if nonneg_out tx \<and> total_out tx \<le> MAX_MONEY then Inr (total_out tx) else Inl ValueOutOfRange) \<and>
    GetShieldedValueIn tx =
      (if (\<forall>js \<in> set (vJoinSplit tx). 0 \<le> vpub_new js) \<and> total_shielded_in tx \<le> MAX_MONEY
       then Inr (total_shielded_in tx) else Inl ValueOutOfRange)"
  using GetValueOut_eq [OF assms] GetShieldedValueIn_eq by blast

theorem value_totals_exact_witness:
  "GetValueOut sample_v1 = Inr 5 \<and> GetValueOut sample_v4 = Inr 10 \<and>
   GetValueOut (sample_v4\<lparr>valueBalance := - (2 ^ 63)\<rparr>) = Inl ValueOutOfRange"
  using value_totals_exact [of sample_v1] value_totals_exact [of sample_v4]
    value_totals_exact [of "sample_v4\<lparr>valueBalance := - (2 ^ 63)\<rparr>"]
  by (simp add: sample_v1_def sample_v4_def CTransaction0_def CMutableTransaction0_def CMutableTransaction.defs
      int64_range_def total_out_def nonneg_out_def MAX_MONEY_eq)

text \<open>C38: The constructor \<^verbatim>\<open>CTransaction(deserialize, s)\<close> does not return what was read: it drops the
  Sapling binding signature, because the moving constructor does not initialise it.  There is a byte string
  that ordinary reading decodes to a transaction with a non-zero binding signature, and that this
  constructor decodes, whatever the memory it starts from, to a transaction with another one.\<close>

theorem deserialize_drops_bindingSig:
  "\<exists>bs tx. CTransaction_Unserialize CTransaction0 bs = Inr (tx, []) \<and> bindingSig tx = replicate 64 1 \<and>
     (\<forall>mem. \<exists>tx'. deserialize_CTransaction mem bs = Inr (tx', []) \<and> bindingSig tx' = replicate 64 0)"
proof -
  define t :: CTransaction where "t = CMutableTransaction.extend sample_v4 \<lparr>txhash = 0\<rparr>"
  define b where "b = projr (Serialize_tx sample_v4)"
  have b: "Serialize_tx sample_v4 = Inr b" using Serialize_tx_ok [OF sample_v4_ok] by (simp add: b_def)
  then have bt: "Serialize_tx t = Inr b" by (simp add: t_def Serialize_tx_more)
  have tok: "tx_ok CTransaction0 t"
    by (simp add: t_def sample_v4_def tx_ok_def tx_body_ok_def tx_v3_def tx_v4_def isOverwinterV3_def isSaplingV4_def
      CTransaction0_def CMutableTransaction0_def CMutableTransaction.defs SAPLING_TX_VERSION_def Output_ok_def
      sample_output_def int64_range_def MAX_SIZE_nat)
  have "CTransaction_Unserialize CTransaction0 b = Inr (t\<lparr>txhash := SerializeHash [b]\<rparr>, [])"
    using tx.dec_enc [OF tok, of "[]"] bt
    by (simp add: CTransaction_Unserialize_def pbind_apply UpdateHash_def)
  moreover have "\<exists>tx'. deserialize_CTransaction mem b = Inr (tx', []) \<and> bindingSig tx' = replicate 64 0" for mem
  proof -
    have mok: "tx_ok mem (sample_v4\<lparr>bindingSig := replicate 64 0\<rparr>)"
      if "mem = CMutableTransaction0" for mem :: CMutableTransaction
      using that by (simp add: sample_v4_def tx_ok_def tx_body_ok_def tx_v3_def tx_v4_def isOverwinterV3_def
        isSaplingV4_def CMutableTransaction0_def SAPLING_TX_VERSION_def Output_ok_def sample_output_def
        int64_range_def MAX_SIZE_nat)
    note wire = Serialize_tx_ok [OF mok [OF refl]]
    show ?thesis
      using tx.dec_enc [OF sample_v4_ok, of mem "[]"] b wire
      by (simp add: deserialize_CTransaction_def pbind_apply CTransaction_move_def UpdateHash_def
          Serialize_tx_more) (simp add: CMutableTransaction.defs)
  qed
  ultimately show ?thesis
    by (intro exI [of _ b] exI [of _ "t\<lparr>txhash := SerializeHash [b]\<rparr>"])
       (simp add: t_def sample_v4_def CMutableTransaction.defs)
qed

end
