(* ===== verification/Zc_Script.thy ===== *)
theory Zc_Script
  imports Zc_Transaction
begin

text \<open>
  Scripts as data: \<^verbatim>\<open>src/script/script.h\<close>, \<^verbatim>\<open>src/script/script.cpp\<close>, the size rules of
  \<^verbatim>\<open>src/pubkey.h\<close> and the output templates of \<^verbatim>\<open>src/script/standard.cpp\<close>.  A script is its bytes; an
  iterator into it is the suffix it points at.  The lemmas show that script numbers, pushes and the
  standard templates round-trip.
\<close>

unbundle bit_operations_syntax

section \<open>Opcodes\<close>

abbreviation (input) "OP_0 \<equiv> (0x00 :: byte)"
abbreviation (input) "OP_PUSHDATA1 \<equiv> (0x4c :: byte)"
abbreviation (input) "OP_PUSHDATA2 \<equiv> (0x4d :: byte)"
abbreviation (input) "OP_PUSHDATA4 \<equiv> (0x4e :: byte)"
abbreviation (input) "OP_1NEGATE \<equiv> (0x4f :: byte)"
abbreviation (input) "OP_1 \<equiv> (0x51 :: byte)"
abbreviation (input) "OP_16 \<equiv> (0x60 :: byte)"
abbreviation (input) "OP_RETURN \<equiv> (0x6a :: byte)"
abbreviation (input) "OP_DUP \<equiv> (0x76 :: byte)"
abbreviation (input) "OP_EQUAL \<equiv> (0x87 :: byte)"
abbreviation (input) "OP_EQUALVERIFY \<equiv> (0x88 :: byte)"
abbreviation (input) "OP_HASH160 \<equiv> (0xa9 :: byte)"
abbreviation (input) "OP_CHECKSIG \<equiv> (0xac :: byte)"
abbreviation (input) "OP_CHECKSIGVERIFY \<equiv> (0xad :: byte)"
abbreviation (input) "OP_CHECKMULTISIG \<equiv> (0xae :: byte)"
abbreviation (input) "OP_CHECKMULTISIGVERIFY \<equiv> (0xaf :: byte)"

definition MAX_SCRIPT_ELEMENT_SIZE :: nat where "MAX_SCRIPT_ELEMENT_SIZE = 520"

definition MAX_SCRIPT_SIZE :: nat where "MAX_SCRIPT_SIZE = 10000"

section \<open>Script numbers\<close>

datatype scriptnum_error = ScriptNumOverflow | ScriptNumNonMinimal

text \<open>\<^verbatim>\<open>while (absvalue) { push_back(absvalue & 0xff); absvalue >>= 8; }\<close>\<close>

fun abs_bytes :: "nat \<Rightarrow> bytes" where
  "abs_bytes v = (if v = 0 then [] else of_nat v # abs_bytes (v div 256))"

declare abs_bytes.simps [simp del]

definition CScriptNum_serialize :: "int \<Rightarrow> bytes" where
  "CScriptNum_serialize x =
     (if x = 0 then []
      else if x = - (2 ^ 63) then [0, 0, 0, 0, 0, 0, 0, 128, 128]
      else let neg = x < 0; result = abs_bytes (nat \<bar>x\<bar>)
           in if last result AND 0x80 \<noteq> 0 then result @ [if neg then 0x80 else 0]
              else if neg then butlast result @ [last result OR 0x80] else result)"

text \<open>The bytes are combined with \<open>OR\<close> at distinct shifts, that is, read little-endian; clearing the
  sign bit of the last byte subtracts it.\<close>

definition CScriptNum_set_vch :: "bytes \<Rightarrow> scriptnum_error + int" where
  "CScriptNum_set_vch v =
     (if v = [] then Inr 0
      else if v = [0, 0, 0, 0, 0, 0, 0, 128, 128] then Inr (- (2 ^ 63))
      else if 8 < length v then Inl ScriptNumOverflow
      else let result = le_to_nat v
           in if last v AND 0x80 \<noteq> 0
              then Inr (- int (result - 0x80 * 256 ^ (length v - 1)))
              else Inr (int result))"

definition CScriptNum :: "bytes \<Rightarrow> bool \<Rightarrow> nat \<Rightarrow> scriptnum_error + int" where
  "CScriptNum v fRequireMinimal nMaxNumSize =
     (if nMaxNumSize < length v then Inl ScriptNumOverflow
      else if fRequireMinimal \<and> 0 < length v \<and> last v AND 0x7f = 0 \<and>
              (length v \<le> 1 \<or> v ! (length v - 2) AND 0x80 = 0)
           then Inl ScriptNumNonMinimal
      else CScriptNum_set_vch v)"

definition CScriptNum_getint :: "int \<Rightarrow> int" where
  "CScriptNum_getint x = (if 2 ^ 31 - 1 < x then 2 ^ 31 - 1 else if x < - (2 ^ 31) then - (2 ^ 31) else x)"

section \<open>Building and parsing scripts\<close>

text \<open>\<^verbatim>\<open>operator<<\<close> for byte vectors, integers and opcodes: what is appended.\<close>

definition push_vch :: "bytes \<Rightarrow> CScript" where
  "push_vch b =
     (if length b < 0x4c then [of_nat (length b)]
      else if length b \<le> 0xff then [OP_PUSHDATA1, of_nat (length b)]
      else if length b \<le> 0xffff then OP_PUSHDATA2 # nat_to_le 2 (length b)
      else OP_PUSHDATA4 # nat_to_le 4 (length b)) @ b"

definition push_int64 :: "int \<Rightarrow> CScript" where
  "push_int64 n =
     (if n = -1 \<or> (1 \<le> n \<and> n \<le> 16) then [of_int (n + 0x50)]
      else if n = 0 then [OP_0]
      else push_vch (CScriptNum_serialize n))"

text \<open>\<^verbatim>\<open>GetOp2\<close>: the opcode, the pushed data and the iterator after them; None when it returns false.\<close>

definition GetOp :: "CScript \<Rightarrow> (byte \<times> bytes \<times> CScript) option" where
  "GetOp pc = (case pc of [] \<Rightarrow> None | opcode # pc1 \<Rightarrow>
     (if opcode \<le> OP_PUSHDATA4
      then let hdr = (if opcode < OP_PUSHDATA1 then Some (unat opcode, pc1)
                      else if opcode = OP_PUSHDATA1 then
                        (if length pc1 < 1 then None else Some (unat (hd pc1), tl pc1))
                      else if opcode = OP_PUSHDATA2 then
                        (if length pc1 < 2 then None else Some (le_to_nat (take 2 pc1), drop 2 pc1))
                      else
                        (if length pc1 < 4 then None else Some (le_to_nat (take 4 pc1), drop 4 pc1)))
           in (case hdr of None \<Rightarrow> None | Some (nSize, pc2) \<Rightarrow>
                 if length pc2 < nSize then None else Some (opcode, take nSize pc2, drop nSize pc2))
      else Some (opcode, [], pc1)))"

lemma GetOp_shorter:
  assumes "GetOp pc = Some (opcode, data, rest)"
  shows "length rest < length pc" and "length data \<le> length pc"
proof -
  obtain opc pc1 where pc: "pc = opc # pc1" using assms by (cases pc) (simp_all add: GetOp_def)
  have "length rest \<le> length pc1 \<and> length data \<le> length pc1"
    using assms unfolding pc GetOp_def
    by (auto simp: Let_def split: if_splits option.splits)
  then show "length rest < length pc" "length data \<le> length pc" by (simp_all add: pc)
qed

definition DecodeOP_N :: "byte \<Rightarrow> int option" where
  "DecodeOP_N opcode =
     (if opcode = OP_0 then Some 0
      else if OP_1 \<le> opcode \<and> opcode \<le> OP_16 then Some (int (unat opcode) - 0x50) else None)"

definition EncodeOP_N :: "int \<Rightarrow> byte option" where
  "EncodeOP_N n = (if 0 \<le> n \<and> n \<le> 16 then (if n = 0 then Some OP_0 else Some (of_int (0x51 + n - 1))) else None)"

text \<open>\<^verbatim>\<open>GetSigOpCount(bool)\<close>: what one opcode adds, and the loop over the opcodes with the last one
  seen.\<close>

definition sigop_cost :: "bool \<Rightarrow> byte \<Rightarrow> byte \<Rightarrow> u32" where
  "sigop_cost fAccurate lastOpcode opcode =
     (if opcode = OP_CHECKSIG \<or> opcode = OP_CHECKSIGVERIFY then 1
      else if opcode = OP_CHECKMULTISIG \<or> opcode = OP_CHECKMULTISIGVERIFY then
        (if fAccurate \<and> OP_1 \<le> lastOpcode \<and> lastOpcode \<le> OP_16
         then of_int (the (DecodeOP_N lastOpcode)) else 20)
      else 0)"

function GetSigOpCount_loop :: "bool \<Rightarrow> byte \<Rightarrow> u32 \<Rightarrow> CScript \<Rightarrow> u32" where
  "GetSigOpCount_loop fAccurate lastOpcode n pc =
     (case GetOp pc of None \<Rightarrow> n | Some (opcode, _, rest) \<Rightarrow>
        GetSigOpCount_loop fAccurate opcode (n + sigop_cost fAccurate lastOpcode opcode) rest)"
  by pat_completeness auto
termination
  by (relation "measure (\<lambda>(_, _, _, pc). length pc)") (auto dest: GetOp_shorter)

declare GetSigOpCount_loop.simps [simp del]

definition GetSigOpCount :: "bool \<Rightarrow> CScript \<Rightarrow> u32" where
  "GetSigOpCount fAccurate s = GetSigOpCount_loop fAccurate 0xff 0 s"

definition IsPayToPublicKeyHash :: "CScript \<Rightarrow> bool" where
  "IsPayToPublicKeyHash s \<longleftrightarrow> length s = 25 \<and> s ! 0 = OP_DUP \<and> s ! 1 = OP_HASH160 \<and> s ! 2 = 0x14 \<and>
     s ! 23 = OP_EQUALVERIFY \<and> s ! 24 = OP_CHECKSIG"

definition IsPayToScriptHash :: "CScript \<Rightarrow> bool" where
  "IsPayToScriptHash s \<longleftrightarrow> length s = 23 \<and> s ! 0 = OP_HASH160 \<and> s ! 1 = 0x14 \<and> s ! 22 = OP_EQUAL"

text \<open>\<^verbatim>\<open>GetSigOpCount(const CScript& scriptSig)\<close>: walk the scriptSig to its last push.\<close>

function last_push :: "CScript \<Rightarrow> bytes \<Rightarrow> bytes option" where
  "last_push pc data =
     (if pc = [] then Some data
      else case GetOp pc of None \<Rightarrow> None | Some (opcode, d, rest) \<Rightarrow>
        if OP_16 < opcode then None else last_push rest d)"
  by pat_completeness auto
termination
  by (relation "measure (\<lambda>(pc, _). length pc)") (auto dest: GetOp_shorter)

declare last_push.simps [simp del]

definition GetSigOpCount_P2SH :: "CScript \<Rightarrow> CScript \<Rightarrow> u32" where
  "GetSigOpCount_P2SH s sSig =
     (if \<not> IsPayToScriptHash s then GetSigOpCount True s
      else case last_push sSig [] of None \<Rightarrow> 0 | Some data \<Rightarrow> GetSigOpCount True data)"

function IsPushOnly :: "CScript \<Rightarrow> bool" where
  "IsPushOnly pc \<longleftrightarrow>
     (if pc = [] then True
      else case GetOp pc of None \<Rightarrow> False | Some (opcode, _, rest) \<Rightarrow>
        if OP_16 < opcode then False else IsPushOnly rest)"
  by pat_completeness auto
termination
  by (relation "measure length") (auto dest: GetOp_shorter)

declare IsPushOnly.simps [simp del]

definition IsUnspendable :: "CScript \<Rightarrow> bool" where
  "IsUnspendable s \<longleftrightarrow> (0 < length s \<and> hd s = OP_RETURN) \<or> MAX_SCRIPT_SIZE < length s"

datatype ScriptType = UNKNOWN | P2PKH | P2SH

definition GetType :: "CScript \<Rightarrow> ScriptType" where
  "GetType s = (if IsPayToPublicKeyHash s then P2PKH else if IsPayToScriptHash s then P2SH else UNKNOWN)"

text \<open>A \<^verbatim>\<open>uint160\<close> is the little-endian reading of its 20 bytes.\<close>

definition uint160_of :: "bytes \<Rightarrow> 160 word" where
  "uint160_of b = of_nat (le_to_nat b)"

definition uint160_bytes :: "160 word \<Rightarrow> bytes" where
  "uint160_bytes w = nat_to_le 20 (unat w)"

definition AddressHash :: "CScript \<Rightarrow> 160 word" where
  "AddressHash s =
     (if IsPayToPublicKeyHash s then uint160_of (take 20 (drop 3 s))
      else if IsPayToScriptHash s then uint160_of (take 20 (drop 2 s))
      else 0)"

section \<open>Public key sizes\<close>

definition CPubKey_GetLen :: "byte \<Rightarrow> nat" where
  "CPubKey_GetLen chHeader =
     (if chHeader = 2 \<or> chHeader = 3 then 33
      else if chHeader = 4 \<or> chHeader = 6 \<or> chHeader = 7 then 65 else 0)"

definition CPubKey_ValidSize :: "bytes \<Rightarrow> bool" where
  "CPubKey_ValidSize v \<longleftrightarrow> 0 < length v \<and> CPubKey_GetLen (hd v) = length v"

text \<open>\<^verbatim>\<open>CPubKey(vch)\<close>: the key bytes, or None for an invalidated key (first byte \<open>0xFF\<close>, size 0).\<close>

definition CPubKey :: "bytes \<Rightarrow> bytes option" where
  "CPubKey v = (let len = (if v = [] then 0 else CPubKey_GetLen (hd v))
                in if len \<noteq> 0 \<and> len = length v then Some v else None)"

section \<open>Standard templates\<close>

datatype txnouttype = TX_NONSTANDARD | TX_PUBKEY | TX_PUBKEYHASH | TX_SCRIPTHASH | TX_MULTISIG | TX_NULL_DATA

datatype CTxDestination = CNoDestination | CKeyID "160 word" | CScriptID "160 word"

definition MatchPayToPubkey :: "CScript \<Rightarrow> bytes option" where
  "MatchPayToPubkey s =
     (if length s = 67 \<and> s ! 0 = 65 \<and> last s = OP_CHECKSIG then
        (let k = take 65 (drop 1 s) in if CPubKey_ValidSize k then Some k else None)
      else if length s = 35 \<and> s ! 0 = 33 \<and> last s = OP_CHECKSIG then
        (let k = take 33 (drop 1 s) in if CPubKey_ValidSize k then Some k else None)
      else None)"

definition MatchPayToPubkeyHash :: "CScript \<Rightarrow> bytes option" where
  "MatchPayToPubkeyHash s =
     (if length s = 25 \<and> s ! 0 = OP_DUP \<and> s ! 1 = OP_HASH160 \<and> s ! 2 = 20 \<and> s ! 23 = OP_EQUALVERIFY \<and> s ! 24 = OP_CHECKSIG
      then Some (take 20 (drop 3 s)) else None)"

definition IsSmallInteger :: "byte \<Rightarrow> bool" where
  "IsSmallInteger opcode \<longleftrightarrow> OP_1 \<le> opcode \<and> opcode \<le> OP_16"

text \<open>The loop over the keys: the keys, the opcode that ended it and the iterator after that opcode.\<close>

function multisig_keys :: "CScript \<Rightarrow> bytes list \<times> byte \<times> CScript" where
  "multisig_keys it =
     (case GetOp it of None \<Rightarrow> ([], 0xff, it) | Some (opcode, data, rest) \<Rightarrow>
        if CPubKey_ValidSize data
        then (let (ks, opc, r) = multisig_keys rest in (data # ks, opc, r))
        else ([], opcode, rest))"
  by pat_completeness auto
termination
  by (relation "measure length") (auto dest: GetOp_shorter)

declare multisig_keys.simps [simp del]

definition MatchMultisig :: "CScript \<Rightarrow> (nat \<times> bytes list) option" where
  "MatchMultisig s =
     (if length s < 1 \<or> last s \<noteq> OP_CHECKMULTISIG then None
      else case GetOp s of None \<Rightarrow> None | Some (opcode, _, it) \<Rightarrow>
        if \<not> IsSmallInteger opcode then None
        else let required = nat (the (DecodeOP_N opcode)); (pubkeys, opc, it2) = multisig_keys it in
          if \<not> IsSmallInteger opc then None
          else let keys = nat (the (DecodeOP_N opc)) in
            if length pubkeys \<noteq> keys \<or> keys < required then None
            else if length it2 = 1 then Some (required, pubkeys) else None)"

text \<open>\<^verbatim>\<open>Solver\<close>: the type and the solutions; the return value is whether the type is standard.\<close>

definition Solver :: "CScript \<Rightarrow> txnouttype \<times> bytes list" where
  "Solver s =
     (if IsPayToScriptHash s then (TX_SCRIPTHASH, [take 20 (drop 2 s)])
      else if 1 \<le> length s \<and> s ! 0 = OP_RETURN \<and> IsPushOnly (drop 1 s) then (TX_NULL_DATA, [])
      else case MatchPayToPubkey s of Some k \<Rightarrow> (TX_PUBKEY, [k]) | None \<Rightarrow>
        (case MatchPayToPubkeyHash s of Some h \<Rightarrow> (TX_PUBKEYHASH, [h]) | None \<Rightarrow>
          (case MatchMultisig s of
             Some (required, keys) \<Rightarrow> (TX_MULTISIG, [of_nat required] # keys @ [[of_nat (length keys)]])
           | None \<Rightarrow> (TX_NONSTANDARD, []))))"

definition ScriptSigArgsExpected :: "txnouttype \<Rightarrow> bytes list \<Rightarrow> int" where
  "ScriptSigArgsExpected t vSolutions = (case t of
      TX_NONSTANDARD \<Rightarrow> -1 | TX_NULL_DATA \<Rightarrow> -1 | TX_PUBKEY \<Rightarrow> 1 | TX_PUBKEYHASH \<Rightarrow> 2
    | TX_MULTISIG \<Rightarrow> (if length vSolutions < 1 \<or> length (hd vSolutions) < 1 then -1
                     else int (unat (hd (hd vSolutions))) + 1)
    | TX_SCRIPTHASH \<Rightarrow> 1)"

definition ExtractDestination :: "CScript \<Rightarrow> CTxDestination option" where
  "ExtractDestination s = (let (t, sol) = Solver s in
     if t = TX_NONSTANDARD then None
     else if t = TX_PUBKEY then (case CPubKey (hd sol) of None \<Rightarrow> None | Some k \<Rightarrow> Some (CKeyID (Hash160 k)))
     else if t = TX_PUBKEYHASH then Some (CKeyID (uint160_of (hd sol)))
     else if t = TX_SCRIPTHASH then Some (CScriptID (uint160_of (hd sol)))
     else None)"

text \<open>The results on success; when it returns false, \<^verbatim>\<open>typeRet\<close> is still the type \<^const>\<open>Solver\<close> gives.\<close>

definition ExtractDestinations :: "CScript \<Rightarrow> (txnouttype \<times> CTxDestination list \<times> nat) option" where
  "ExtractDestinations s = (let (t, sol) = Solver s in
     if t = TX_NONSTANDARD \<or> t = TX_NULL_DATA then None
     else if t = TX_MULTISIG then
       (let ds = List.map_filter (\<lambda>v. map_option (\<lambda>k. CKeyID (Hash160 k)) (CPubKey v)) (butlast (tl sol))
        in if ds = [] then None else Some (t, ds, unat (hd (hd sol))))
     else (case ExtractDestination s of None \<Rightarrow> None | Some d \<Rightarrow> Some (t, [d], 1)))"

definition GetScriptForDestination :: "CTxDestination \<Rightarrow> CScript" where
  "GetScriptForDestination dest = (case dest of
      CNoDestination \<Rightarrow> []
    | CKeyID keyID \<Rightarrow> [OP_DUP, OP_HASH160] @ push_vch (uint160_bytes keyID) @ [OP_EQUALVERIFY, OP_CHECKSIG]
    | CScriptID scriptID \<Rightarrow> [OP_HASH160] @ push_vch (uint160_bytes scriptID) @ [OP_EQUAL])"

definition GetScriptForRawPubKey :: "bytes \<Rightarrow> CScript" where
  "GetScriptForRawPubKey pubKey = push_vch pubKey @ [OP_CHECKSIG]"

definition GetScriptForMultisig :: "int \<Rightarrow> bytes list \<Rightarrow> CScript option" where
  "GetScriptForMultisig nRequired keys =
     (case (EncodeOP_N nRequired, EncodeOP_N (int (length keys))) of
        (Some m, Some n) \<Rightarrow> Some ([m] @ concat (map push_vch keys) @ [n, OP_CHECKMULTISIG])
      | _ \<Rightarrow> None)"

definition IsValidDestination :: "CTxDestination \<Rightarrow> bool" where
  "IsValidDestination d \<longleftrightarrow> d \<noteq> CNoDestination"

definition IsKeyDestination :: "CTxDestination \<Rightarrow> bool" where
  "IsKeyDestination d \<longleftrightarrow> (case d of CKeyID _ \<Rightarrow> True | _ \<Rightarrow> False)"

definition IsScriptDestination :: "CTxDestination \<Rightarrow> bool" where
  "IsScriptDestination d \<longleftrightarrow> (case d of CScriptID _ \<Rightarrow> True | _ \<Rightarrow> False)"

definition DestFromAddressHash :: "ScriptType \<Rightarrow> 160 word \<Rightarrow> CTxDestination" where
  "DestFromAddressHash t h = (case t of P2PKH \<Rightarrow> CKeyID h | P2SH \<Rightarrow> CScriptID h | UNKNOWN \<Rightarrow> CNoDestination)"


section \<open>Script numbers are sign and magnitude, little-endian and minimal\<close>

lemma byte_high: "b AND 0x80 \<noteq> 0 \<longleftrightarrow> 128 \<le> unat (b :: byte)"
proof -
  have "b AND 0x80 \<noteq> 0 \<longleftrightarrow> bit b 7"
    using bit_iff_and_push_bit_not_eq_0 [of b 7] by (simp add: push_bit_eq_mult)
  also have "\<dots> \<longleftrightarrow> bit (unat b) 7" by (simp add: bit_unsigned_iff)
  also have "\<dots> \<longleftrightarrow> odd (unat b div 128)" by (simp add: bit_iff_odd)
  also have "\<dots> \<longleftrightarrow> 128 \<le> unat b"
  proof -
    have "unat b div 128 < 2" by (rule less_mult_imp_div_less) (use unat_byte_less [of b] in simp)
    then have "unat b div 128 = 0 \<or> unat b div 128 = 1" by linarith
    then show ?thesis by auto
  qed
  finally show ?thesis .
qed

lemma byte_low: "b AND 0x7f = 0 \<longleftrightarrow> unat (b :: byte) mod 128 = 0"
proof -
  have "b AND 0x7f = take_bit 7 b" by (simp add: take_bit_eq_mask mask_eq_exp_minus_1)
  moreover have "unat (take_bit 7 b) = unat b mod 128"
    by (simp add: take_bit_eq_mod unat_mod)
  ultimately show ?thesis by (metis unat_eq_zero)
qed

lemma byte_set_high:
  assumes "unat (b :: byte) < 128"
  shows "unat (b OR 0x80) = unat b + 128"
proof -
  have "b AND 0x80 = 0" using byte_high [of b] assms by simp
  then have "b OR 0x80 = b + 0x80" by (metis disjunctive_add_eq_or)
  then show ?thesis using assms by (simp add: unat_word_ariths)
qed

lemma le_to_nat_snoc: "le_to_nat (bs @ [b]) = le_to_nat bs + 256 ^ length bs * unat b"
  by (induction bs) (simp_all add: algebra_simps)

lemma abs_bytes_0 [simp]: "abs_bytes 0 = []" by (simp add: abs_bytes.simps)

lemma abs_bytes_eq_Nil [simp]: "abs_bytes v = [] \<longleftrightarrow> v = 0" by (subst abs_bytes.simps) simp

lemma le_to_nat_abs_bytes [simp]: "le_to_nat (abs_bytes v) = v"
  by (induction v rule: abs_bytes.induct) (subst abs_bytes.simps, simp add: unat_of_nat_byte)

lemma last_abs_bytes: "0 < v \<Longrightarrow> last (abs_bytes v) \<noteq> 0"
proof (induction v rule: abs_bytes.induct)
  case (1 v)
  show ?case
  proof (cases "v div 256 = 0")
    case True
    then have "unat (of_nat v :: byte) = v" by (simp add: unat_of_nat_byte div_eq_0_iff)
    then have "(of_nat v :: byte) \<noteq> 0" using 1(2) by (metis unat_0 less_irrefl)
    then show ?thesis using 1(2) True by (subst abs_bytes.simps) simp
  next
    case False
    then show ?thesis using 1 by (subst abs_bytes.simps) simp
  qed
qed

lemma abs_bytes_le_to_nat: "v = [] \<or> last v \<noteq> 0 \<Longrightarrow> abs_bytes (le_to_nat v) = v"
proof (induction v)
  case (Cons b bs)
  have e: "abs_bytes (le_to_nat bs) = bs" using Cons by (cases bs) auto
  have "le_to_nat (b # bs) \<noteq> 0"
  proof
    assume z: "le_to_nat (b # bs) = 0"
    then have "bs = []" using e by simp
    then show False using z Cons.prems by (simp add: unat_eq_zero)
  qed
  moreover have "(of_nat (unat b + 256 * le_to_nat bs) :: byte) = b"
    by (rule word_unat_eq_iff [THEN iffD2]) (simp only: unat_of_nat_byte, simp)
  moreover have "(unat b + 256 * le_to_nat bs) div 256 = le_to_nat bs" by simp
  ultimately show ?case using e by (subst abs_bytes.simps) simp
qed simp

text \<open>The value of a sign-and-magnitude string of any length, and the minimality rule.\<close>

definition snum :: "bytes \<Rightarrow> int" where
  "snum v = (if v = [] then 0 else
     (let m = int (le_to_nat (butlast v)) + 256 ^ (length v - 1) * int (unat (last v) mod 128)
      in if 128 \<le> unat (last v) then - m else m))"

definition snum_minimal :: "bytes \<Rightarrow> bool" where
  "snum_minimal v \<longleftrightarrow> v = [] \<or> unat (last v) mod 128 \<noteq> 0 \<or>
     (2 \<le> length v \<and> 128 \<le> unat (last (butlast v)))"

definition snum_bytes :: "int \<Rightarrow> bytes" where
  "snum_bytes x = (if x = 0 then [] else let r = abs_bytes (nat \<bar>x\<bar>) in
     if 128 \<le> unat (last r) then r @ [if x < 0 then 0x80 else 0]
     else if x < 0 then butlast r @ [last r OR 0x80] else r)"

lemma serialize_snum_bytes: "CScriptNum_serialize x = snum_bytes x"
proof (cases "x = - (2 ^ 63)")
  case True
  have e: "abs_bytes 9223372036854775808 = [0, 0, 0, 0, 0, 0, 0, 128]"
    using abs_bytes_le_to_nat [of "[0, 0, 0, 0, 0, 0, 0, 128]"] by simp
  show ?thesis unfolding True CScriptNum_serialize_def snum_bytes_def Let_def by (simp add: e)
next
  case False
  then show ?thesis by (simp add: CScriptNum_serialize_def snum_bytes_def Let_def byte_high)
qed

lemma CScriptNum_minimal_iff:
  "(0 < length v \<and> last v AND 0x7f = 0 \<and> (length v \<le> 1 \<or> v ! (length v - 2) AND 0x80 = 0))
     \<longleftrightarrow> \<not> snum_minimal v"
proof (cases "2 \<le> length v")
  case True
  then obtain w' b where v: "v = w' @ [b]" by (cases v rule: rev_cases) auto
  obtain w a where "w' = w @ [a]" using True v by (cases w' rule: rev_cases) auto
  with v have "v ! (length v - 2) = last (butlast v)" by (simp add: nth_append butlast_append)
  then show ?thesis using True byte_high [of "last (butlast v)"]
    by (auto simp: snum_minimal_def byte_low)
next
  case False
  then have "v = [] \<or> (\<exists>a. v = [a])" by (cases v; cases "tl v") auto
  then show ?thesis by (auto simp: snum_minimal_def byte_low)
qed

lemma snum_magnitude:
  assumes "v \<noteq> []"
  shows "le_to_nat v = le_to_nat (butlast v) + 256 ^ (length v - 1) * unat (last v)"
  using le_to_nat_snoc [of "butlast v" "last v"] assms by simp

lemma set_vch_snum:
  assumes "length v \<le> 8"
  shows "CScriptNum_set_vch v = Inr (snum v)"
proof (cases "v = []")
  case False
  let ?u = "unat (last v)" and ?p = "256 ^ (length v - 1) :: nat"
  note m = snum_magnitude [OF False]
  have "le_to_nat v - 128 * ?p = le_to_nat (butlast v) + ?p * (?u mod 128)" if D: "128 \<le> ?u"
  proof -
    obtain q where q: "?u = 128 + q" using le_Suc_ex [OF D] by auto
    then have "?u mod 128 = q" using unat_byte_less [of "last v"] by (simp add: mod_add_self1)
    then show ?thesis unfolding m q by (simp add: distrib_right distrib_left mult.commute [of q])
  qed
  then have neg: "- int (le_to_nat v - 128 * ?p) = snum v" if "128 \<le> ?u"
    using False that by (simp add: snum_def Let_def)
  have pos: "int (le_to_nat v) = snum v" if "\<not> 128 \<le> ?u"
    using False that by (simp add: snum_def m)
  have "v \<noteq> [0, 0, 0, 0, 0, 0, 0, 128, 128]" using assms by auto
  then show ?thesis
    unfolding CScriptNum_set_vch_def Let_def byte_high using assms False neg pos by simp
qed (simp add: CScriptNum_set_vch_def snum_def)

lemma snum_bytes_snum:
  assumes "snum_minimal v"
  shows "snum_bytes (snum v) = v"
proof (cases "v = []")
  case False
  define w b where "w = butlast v" and "b = last v"
  have v: "v = w @ [b]" using False by (simp add: w_def b_def)
  define c :: byte where "c = of_nat (unat b mod 128)"
  have uc: "unat c = unat b mod 128"
    unfolding c_def unat_of_nat_byte by (rule mod_less) (rule order.strict_trans [of _ 128], simp_all)
  define m where "m = le_to_nat w + 256 ^ length w * (unat b mod 128)"
  have s: "snum v = (if 128 \<le> unat b then - int m else int m)"
    by (simp add: snum_def v m_def Let_def)
  show ?thesis
  proof (cases "unat b mod 128 = 0")
    case True
    then have w: "w \<noteq> []" "128 \<le> unat (last w)" using assms by (auto simp: snum_minimal_def v)
    then have "last w \<noteq> 0" by auto
    then have a: "abs_bytes m = w" using abs_bytes_le_to_nat [of w] True by (simp add: m_def)
    then have "m \<noteq> 0" using w by auto
    have "b = (if 128 \<le> unat b then 0x80 else 0)"
    proof -
      have "unat b = 0 \<or> unat b = 128" using True unat_byte_less [of b] by arith
      then show ?thesis by (auto simp: word_unat_eq_iff)
    qed
    then show ?thesis unfolding s snum_bytes_def Let_def using a w \<open>m \<noteq> 0\<close> v by auto
  next
    case False
    have "last (w @ [c]) \<noteq> 0" using False uc by auto
    then have a: "abs_bytes m = w @ [c]"
      using abs_bytes_le_to_nat [of "w @ [c]"] by (simp add: m_def le_to_nat_snoc uc)
    then have "abs_bytes m \<noteq> []" by simp
    then have "m \<noteq> 0" by simp
    have c: "unat c < 128" by (simp add: uc)
    have "unat b - 128 < 128" using unat_byte_less [of b] by linarith
    then have "unat (c OR 0x80) = unat b" if "128 \<le> unat b"
      using that by (simp add: byte_set_high [OF c] uc le_mod_geq)
    then have "c OR 0x80 = b" if "128 \<le> unat b" using that by (simp add: word_unat_eq_iff)
    moreover have "c = b" if "\<not> 128 \<le> unat b" using that uc by (simp add: word_unat_eq_iff)
    ultimately show ?thesis unfolding s snum_bytes_def Let_def using a c \<open>m \<noteq> 0\<close> v by auto
  qed
qed (simp add: snum_def snum_bytes_def)

lemma snum_of_snum_bytes: "snum_minimal (snum_bytes x) \<and> snum (snum_bytes x) = x"
proof (cases "x = 0")
  case False
  define r where "r = abs_bytes (nat \<bar>x\<bar>)"
  define w b where "w = butlast r" and "b = last r"
  have r0: "r \<noteq> []" using False by (simp add: r_def)
  have r: "r = w @ [b]" using r0 by (simp add: w_def b_def)
  have b0: "unat b \<noteq> 0" using last_abs_bytes [of "nat \<bar>x\<bar>"] False by (auto simp: b_def r_def unat_eq_zero)
  have le: "int (le_to_nat r) = \<bar>x\<bar>" by (simp add: r_def)
  then have m: "int (le_to_nat w) + 256 ^ length w * int (unat b) = \<bar>x\<bar>" by (simp add: r le_to_nat_snoc)
  show ?thesis
  proof (cases "128 \<le> unat b")
    case True
    then have e: "snum_bytes x = (w @ [b]) @ [if x < 0 then 0x80 else 0]"
      using False by (simp add: snum_bytes_def r_def [symmetric] r Let_def)
    show ?thesis unfolding e using True le r by (auto simp: snum_minimal_def snum_def Let_def butlast_append)
  next
    case lo: False
    then have e: "snum_bytes x = w @ [if x < 0 then b OR 0x80 else b]"
      using False by (simp add: snum_bytes_def r_def [symmetric] r Let_def)
    show ?thesis unfolding e using lo m b0 byte_set_high [of b]
      by (auto simp: snum_minimal_def snum_def Let_def)
  qed
qed (simp add: snum_bytes_def snum_def snum_minimal_def)

text \<open>At most eight bytes is exactly the 64-bit range without its least value.\<close>

lemma snum_range:
  assumes "snum_minimal v"
  shows "length v \<le> 8 \<longleftrightarrow> \<bar>snum v\<bar> < 2 ^ 63"
proof (cases "v = []")
  case False
  define w b where "w = butlast v" and "b = last v"
  have v: "v = w @ [b]" using False by (simp add: w_def b_def)
  define q where "q = unat b mod 128"
  have q: "q < 128" by (simp add: q_def)
  define m where "m = le_to_nat w + 256 ^ length w * q"
  have "snum v = (if 128 \<le> unat b then - int m else int m)"
    by (simp add: snum_def v m_def q_def Let_def)
  then have "\<bar>snum v\<bar> = int m" by simp
  then have s: "\<bar>snum v\<bar> = int (le_to_nat w + 256 ^ length w * q)" unfolding m_def .
  have lw: "le_to_nat w < 256 ^ length w" by (rule le_to_nat_less)
  show ?thesis
  proof
    assume "length v \<le> 8"
    then have l: "length w \<le> 7" by (simp add: v)
    have "le_to_nat w + 256 ^ length w * q < 256 ^ length w * Suc q" using lw by simp
    also have "\<dots> \<le> 256 ^ 7 * 128" using q l by (intro mult_mono power_increasing) auto
    finally have "int (le_to_nat w + 256 ^ length w * q) < int (256 ^ 7 * 128)" by (simp only: of_nat_less_iff)
    then show "\<bar>snum v\<bar> < 2 ^ 63" unfolding s by simp
  next
    assume a: "\<bar>snum v\<bar> < 2 ^ 63"
    show "length v \<le> 8"
    proof (rule ccontr)
      assume "\<not> length v \<le> 8"
      then have l: "8 \<le> length w" by (simp add: v)
      have "(256::nat) ^ 7 * 128 \<le> le_to_nat w + 256 ^ length w * q"
      proof (cases "q = 0")
        case True
        then have w: "w \<noteq> []" "128 \<le> unat (last w)"
          using assms by (auto simp: snum_minimal_def v q_def)
        have "(256::nat) ^ 7 * 128 \<le> 256 ^ (length w - 1) * unat (last w)"
          using w l by (intro mult_mono power_increasing) auto
        then show ?thesis unfolding snum_magnitude [OF w(1)] by linarith
      next
        case False
        have "(256::nat) ^ 7 * 128 \<le> 256 ^ 8 * 1" by simp
        also have "\<dots> \<le> 256 ^ length w * q" using False l by (intro mult_mono power_increasing) auto
        finally show ?thesis by linarith
      qed
      then have "int (256 ^ 7 * 128) \<le> \<bar>snum v\<bar>" unfolding s by (simp only: of_nat_le_iff)
      then show False using a by simp
    qed
  qed
qed (simp add: snum_def)

lemma set_vch_iff:
  assumes "snum_minimal v"
  shows "CScriptNum_set_vch v = Inr x \<longleftrightarrow> snum v = x \<and> int64_range x"
proof (cases "length v \<le> 8")
  case True
  then show ?thesis
    using set_vch_snum [OF True] snum_range [OF assms] by (auto simp: int64_range_def)
next
  case False
  let ?sp = "[0, 0, 0, 0, 0, 0, 0, 128, 128] :: bytes"
  have sp: "snum ?sp = - (2 ^ 63)" by (simp add: snum_def Let_def)
  have "v = ?sp" if "snum v = - (2 ^ 63)"
  proof -
    have "snum_minimal ?sp" by (simp add: snum_minimal_def)
    then show ?thesis using snum_bytes_snum [OF assms] snum_bytes_snum [of ?sp] that sp by simp
  qed
  moreover have "CScriptNum_set_vch ?sp = Inr (- (2 ^ 63))" by (simp add: CScriptNum_set_vch_def)
  moreover have "\<not> int64_range (snum v)" if "snum v \<noteq> - (2 ^ 63)"
  proof -
    have "\<not> \<bar>snum v\<bar> < 2 ^ 63" using snum_range [OF assms] False by simp
    then show ?thesis using that unfolding int64_range_def by arith
  qed
  moreover have "CScriptNum_set_vch v = Inl ScriptNumOverflow" if "v \<noteq> ?sp"
    using False that by (auto simp: CScriptNum_set_vch_def)
  moreover have "int64_range (- (2 ^ 63))" by (simp add: int64_range_def)
  ultimately show ?thesis using sp by (cases "v = ?sp") auto
qed

lemma CScriptNum_serialize_iff:
  "CScriptNum v True nMax = Inr x \<longleftrightarrow>
     int64_range x \<and> v = CScriptNum_serialize x \<and> length v \<le> nMax"
proof -
  have "CScriptNum v True nMax = Inr x \<longleftrightarrow>
      length v \<le> nMax \<and> snum_minimal v \<and> CScriptNum_set_vch v = Inr x"
    unfolding CScriptNum_def simp_thms CScriptNum_minimal_iff by simp
  also have "\<dots> \<longleftrightarrow> length v \<le> nMax \<and> snum_minimal v \<and> snum v = x \<and> int64_range x"
    using set_vch_iff by blast
  also have "\<dots> \<longleftrightarrow> int64_range x \<and> v = snum_bytes x \<and> length v \<le> nMax"
    using snum_bytes_snum snum_of_snum_bytes by metis
  finally show ?thesis unfolding serialize_snum_bytes .
qed

text \<open>C2: With the minimality rule on, \<^verbatim>\<open>CScriptNum(vch, true, nMax)\<close> accepts exactly the strings that
  \<^verbatim>\<open>CScriptNum::serialize\<close> produces for 64-bit values, within the size limit, and reads the value back:
  the encoding is canonical, the special-cased \<^verbatim>\<open>INT64_MIN\<close> included.\<close>

theorem CScriptNum_canonical:
  "CScriptNum v True nMax = Inr x \<longleftrightarrow>
     int64_range x \<and> v = CScriptNum_serialize x \<and> length v \<le> nMax"
  by (rule CScriptNum_serialize_iff)

lemma CScriptNum_4_range:
  assumes "CScriptNum v b 4 = Inr x"
  shows "\<bar>x\<bar> < 2 ^ 31"
proof -
  have l: "length v \<le> 4" and s: "CScriptNum_set_vch v = Inr x"
    using assms by (auto simp: CScriptNum_def split: if_splits)
  have x: "x = snum v" using set_vch_snum [of v] l s by simp
  show ?thesis
  proof (cases "v = []")
    case False
    let ?q = "unat (last v) mod 128" and ?w = "butlast v"
    define m where "m = le_to_nat ?w + 256 ^ length ?w * ?q"
    have "m < 256 ^ length ?w * Suc ?q" using le_to_nat_less [of ?w] by (simp add: m_def)
    also have "\<dots> \<le> 256 ^ 3 * 128" using l by (intro mult_mono power_increasing) auto
    finally have "int m < 2 ^ 31" by simp
    moreover have "x = (if 128 \<le> unat (last v) then - int m else int m)"
      using False by (simp add: x snum_def m_def Let_def)
    ultimately show ?thesis by simp
  qed (simp add: x snum_def)
qed

section \<open>Pushes\<close>

lemma GetOp_push_vch:
  assumes "length b < 2 ^ 32"
  shows "\<exists>opcode. GetOp (push_vch b @ rest) = Some (opcode, b, rest) \<and> opcode \<le> OP_PUSHDATA4"
proof -
  consider "length b < 76" | "76 \<le> length b" "length b \<le> 255" | "255 < length b" "length b \<le> 65535"
    | "65535 < length b" by linarith
  then show ?thesis
  proof cases
    case 1
    have "unat (of_nat (length b) :: byte) = length b" using 1 by (simp add: unat_of_nat_byte)
    then show ?thesis using 1
      by (simp add: push_vch_def GetOp_def word_le_nat_alt word_less_nat_alt)
  next
    case 2
    have "unat (of_nat (length b) :: byte) = length b" using 2 by (simp add: unat_of_nat_byte)
    then show ?thesis using 2 by (simp add: push_vch_def GetOp_def)
  next
    case 3
    then show ?thesis by (simp add: push_vch_def GetOp_def del: nat_to_le.simps)
  next
    case 4
    then show ?thesis using assms by (simp add: push_vch_def GetOp_def del: nat_to_le.simps)
  qed
qed

text \<open>\<open>pushes\<close>: the data of a script made of pushes only, as \<^verbatim>\<open>GetOp\<close> reads them.\<close>

function script_pushes :: "CScript \<Rightarrow> bytes list option" where
  "script_pushes pc = (if pc = [] then Some [] else
     case GetOp pc of None \<Rightarrow> None | Some (opcode, d, rest) \<Rightarrow>
       if OP_PUSHDATA4 < opcode then None else map_option ((#) d) (script_pushes rest))"
  by pat_completeness auto
termination
  by (relation "measure length") (auto dest: GetOp_shorter)

declare script_pushes.simps [simp del]

lemma push_vch_nonempty [simp]: "push_vch b \<noteq> []"
  by (simp add: push_vch_def)

lemma IsPushOnly_push [simp]:
  assumes "length b < 2 ^ 32"
  shows "IsPushOnly (push_vch b @ s) = IsPushOnly s"
proof -
  obtain opc where o: "GetOp (push_vch b @ s) = Some (opc, b, s)" "opc \<le> OP_PUSHDATA4"
    using GetOp_push_vch [OF assms] by blast
  then have "\<not> OP_16 < opc" by (simp add: word_le_nat_alt word_less_nat_alt)
  then show ?thesis using o by (subst IsPushOnly.simps) simp
qed

text \<open>A script built by \<^verbatim>\<open>operator<<\<close> from byte vectors reads back, opcode by opcode through
  \<^verbatim>\<open>GetOp\<close>, as exactly those vectors, and \<^verbatim>\<open>IsPushOnly\<close> accepts it; each vector must fit the
  32-bit length of \<^verbatim>\<open>OP_PUSHDATA4\<close>.\<close>

theorem pushes_roundtrip:
  assumes "\<forall>b \<in> set bs. length b < 2 ^ 32"
  shows "script_pushes (concat (map push_vch bs)) = Some bs \<and> IsPushOnly (concat (map push_vch bs))"
  using assms
proof (induction bs)
  case Nil
  then show ?case by (simp add: script_pushes.simps IsPushOnly.simps)
next
  case (Cons b bs)
  let ?s = "concat (map push_vch bs)"
  have l: "length b < 2 ^ 32" using Cons.prems by simp
  obtain opc where o: "GetOp (push_vch b @ ?s) = Some (opc, b, ?s)" "opc \<le> OP_PUSHDATA4"
    using GetOp_push_vch [OF l] by blast
  then have "script_pushes (push_vch b @ ?s) = map_option ((#) b) (script_pushes ?s)"
    by (subst script_pushes.simps) (simp add: leD)
  then show ?case using Cons l by simp
qed

theorem pushes_roundtrip_witness:
  "script_pushes (concat (map push_vch [[1, 2], replicate 100 7])) = Some [[1, 2], replicate 100 7]"
  using pushes_roundtrip [of "[[1, 2], replicate 100 7]"] by simp

section \<open>Signature operation counts\<close>

lemma sigop_cost_le: "unat (sigop_cost acc l opcode) \<le> 20"
  and sigop_cost_accurate: "unat (sigop_cost True l opcode) \<le> unat (sigop_cost False l opcode)"
proof -
  have d: "unat (of_int (the (DecodeOP_N l)) :: u32) \<le> 16" if "OP_1 \<le> l" "l \<le> OP_16"
  proof -
    have b: "81 \<le> unat l" "unat l \<le> 96" using that by (simp_all add: word_le_nat_alt)
    have "l \<noteq> 0" using b by auto
    then have "the (DecodeOP_N l) = int (unat l - 80)" using that b by (simp add: DecodeOP_N_def)
    moreover have "unat (of_nat k :: u32) = k" if "k \<le> 16" for k
      using that by (simp add: unat_of_nat)
    ultimately show ?thesis using b by (simp del: of_nat_diff)
  qed
  show "unat (sigop_cost acc l opcode) \<le> 20"
    using d by (auto simp: sigop_cost_def)
  show "unat (sigop_cost True l opcode) \<le> unat (sigop_cost False l opcode)"
    using d by (auto simp: sigop_cost_def)
qed

lemma unat_add_small:
  assumes "unat (a :: u32) + b < 2 ^ 32" "unat c \<le> b"
  shows "unat (a + c) = unat a + unat c"
  using assms by (subst unat_add_lem [THEN iffD1]) auto

lemma GetSigOpCount_loop_bounds:
  assumes "unat na \<le> unat nb" "unat nb + 20 * length pc < 2 ^ 32"
  shows "unat (GetSigOpCount_loop True l na pc) \<le> unat (GetSigOpCount_loop False l nb pc) \<and>
         unat (GetSigOpCount_loop False l nb pc) \<le> unat nb + 20 * length pc"
  using assms
proof (induction pc arbitrary: l na nb rule: length_induct)
  case (1 pc)
  show ?case
  proof (cases "GetOp pc")
    case None
    then show ?thesis using 1 by (simp add: GetSigOpCount_loop.simps)
  next
    case (Some r)
    obtain opc d rest where r: "r = (opc, d, rest)" by (cases r)
    have l: "length rest < length pc" using GetOp_shorter(1) Some r by blast
    let ?ca = "sigop_cost True l opc" and ?cb = "sigop_cost False l opc"
    have c: "unat ?ca \<le> unat ?cb" "unat ?cb \<le> 20"
      by (simp_all add: sigop_cost_le sigop_cost_accurate)
    have s: "unat (na + ?ca) = unat na + unat ?ca" "unat (nb + ?cb) = unat nb + unat ?cb"
      by (rule unat_add_small [of _ 20]; use 1(2,3) l c in linarith)+
    have "unat (na + ?ca) \<le> unat (nb + ?cb)" "unat (nb + ?cb) + 20 * length rest < 2 ^ 32"
      using s c 1(2,3) l by linarith+
    then show ?thesis
      using 1(1) [rule_format, OF l, of "na + ?ca" "nb + ?cb" opc] s c l Some r
      by (subst (1 2 3) GetSigOpCount_loop.simps) simp
  qed
qed

text \<open>The 32-bit signature-operation counter does not wrap on any script of less than
  \<open>2\<^sup>3\<^sup>2 / 20\<close> bytes: the count is at most 20 per byte, and the accurate count never exceeds the
  inaccurate one.\<close>

theorem GetSigOpCount_bounds:
  assumes "20 * length s < 2 ^ 32"
  shows "unat (GetSigOpCount True s) \<le> unat (GetSigOpCount False s) \<and>
         unat (GetSigOpCount False s) \<le> 20 * length s"
  using GetSigOpCount_loop_bounds [of 0 0 s "0xff"] assms by (simp add: GetSigOpCount_def)

theorem GetSigOpCount_bounds_witness:
  "unat (GetSigOpCount True [OP_1 + 1, OP_CHECKMULTISIG]) \<le> unat (GetSigOpCount False [OP_1 + 1, OP_CHECKMULTISIG])"
  using GetSigOpCount_bounds [of "[OP_1 + 1, OP_CHECKMULTISIG]"] by simp

section \<open>Destinations and templates\<close>

lemma uint160_of_bytes [simp]: "uint160_of (uint160_bytes w) = w"
proof -
  have "unat w < 256 ^ 20" using unsigned_less [of w, where ?'a = nat] by simp
  then show ?thesis by (simp add: uint160_of_def uint160_bytes_def del: nat_to_le.simps)
qed

lemma length_uint160_bytes [simp]: "length (uint160_bytes w) = 20"
  by (simp add: uint160_bytes_def del: nat_to_le.simps)

lemma push_vch_20: "length h = 20 \<Longrightarrow> push_vch h = 20 # h"
  by (simp add: push_vch_def)

lemma P2PKH_script:
  assumes "length h = 20"
  defines "s \<equiv> [OP_DUP, OP_HASH160] @ push_vch h @ [OP_EQUALVERIFY, OP_CHECKSIG]"
  shows "IsPayToPublicKeyHash s" "\<not> IsPayToScriptHash s" "Solver s = (TX_PUBKEYHASH, [h])" "take 20 (drop 3 s) = h"
proof -
  have s: "s = OP_DUP # OP_HASH160 # 20 # h @ [OP_EQUALVERIFY, OP_CHECKSIG]"
    by (simp add: s_def push_vch_20 [OF assms(1)])
  have n: "s ! 23 = OP_EQUALVERIFY" "s ! 24 = OP_CHECKSIG" "length s = 25"
    using assms(1) by (simp_all add: s nth_append numeral_eq_Suc)
  show t: "take 20 (drop 3 s) = h" using assms(1) by (simp add: s)
  show p: "IsPayToPublicKeyHash s" "\<not> IsPayToScriptHash s"
    using n by (simp_all add: IsPayToPublicKeyHash_def IsPayToScriptHash_def s)
  have "MatchPayToPubkeyHash s = Some h" using n t by (simp add: MatchPayToPubkeyHash_def) (simp add: s)
  moreover have "MatchPayToPubkey s = None" using n by (simp add: MatchPayToPubkey_def)
  moreover have "s ! 0 = OP_DUP" by (simp add: s)
  ultimately show "Solver s = (TX_PUBKEYHASH, [h])" using p by (simp add: Solver_def)
qed

lemma P2SH_script:
  assumes "length h = 20"
  defines "s \<equiv> [OP_HASH160] @ push_vch h @ [OP_EQUAL]"
  shows "IsPayToScriptHash s" "\<not> IsPayToPublicKeyHash s" "Solver s = (TX_SCRIPTHASH, [h])" "take 20 (drop 2 s) = h"
proof -
  have s: "s = OP_HASH160 # 20 # h @ [OP_EQUAL]"
    by (simp add: s_def push_vch_20 [OF assms(1)])
  have n: "s ! 22 = OP_EQUAL" "length s = 23"
    using assms(1) by (simp_all add: s nth_append numeral_eq_Suc)
  show t: "take 20 (drop 2 s) = h" using assms(1) by (simp add: s)
  show p: "IsPayToScriptHash s" "\<not> IsPayToPublicKeyHash s"
    using n by (simp_all add: IsPayToPublicKeyHash_def IsPayToScriptHash_def s)
  show "Solver s = (TX_SCRIPTHASH, [h])" using p t by (simp add: Solver_def)
qed

text \<open>The script a destination is paid with is recognised as that destination, both by
  \<^verbatim>\<open>ExtractDestination\<close> and by the address-index path (\<^verbatim>\<open>GetType\<close>, \<^verbatim>\<open>AddressHash\<close>,
  \<^verbatim>\<open>DestFromAddressHash\<close>).\<close>

theorem destination_roundtrip:
  assumes "IsValidDestination dest"
  shows "ExtractDestination (GetScriptForDestination dest) = Some dest \<and>
         DestFromAddressHash (GetType (GetScriptForDestination dest))
           (AddressHash (GetScriptForDestination dest)) = dest"
proof (cases dest)
  case CNoDestination
  then show ?thesis using assms by (simp add: IsValidDestination_def)
next
  case (CKeyID h)
  then show ?thesis using P2PKH_script [of "uint160_bytes h"]
    by (simp add: GetScriptForDestination_def ExtractDestination_def GetType_def AddressHash_def
        DestFromAddressHash_def)
next
  case (CScriptID h)
  then show ?thesis using P2SH_script [of "uint160_bytes h"]
    by (simp add: GetScriptForDestination_def ExtractDestination_def GetType_def AddressHash_def
        DestFromAddressHash_def)
qed

theorem destination_roundtrip_witness:
  "ExtractDestination (GetScriptForDestination (CScriptID 5)) = Some (CScriptID 5)"
  using destination_roundtrip [of "CScriptID 5"] by (simp add: IsValidDestination_def)

lemma GetOp_opcode:
  "OP_PUSHDATA4 < opc \<Longrightarrow> GetOp (opc # rest) = Some (opc, [], rest)"
  by (auto simp: GetOp_def word_le_nat_alt word_less_nat_alt)

text \<open>Public keys of a valid size are pushed with a one-byte header and read back.\<close>

lemma ValidSize_length: "CPubKey_ValidSize k \<Longrightarrow> length k = 33 \<or> length k = 65"
  by (auto simp: CPubKey_ValidSize_def CPubKey_GetLen_def split: if_splits)

lemma GetOp_push_key:
  assumes "CPubKey_ValidSize k"
  shows "\<exists>opcode. GetOp (push_vch k @ rest) = Some (opcode, k, rest)"
  using GetOp_push_vch [of k rest] ValidSize_length [OF assms] by auto

lemma multisig_keys_pushes:
  assumes "\<forall>k \<in> set keys. CPubKey_ValidSize k" "OP_PUSHDATA4 < opc"
  shows "multisig_keys (concat (map push_vch keys) @ opc # rest) = (keys, opc, rest)"
  using assms(1)
proof (induction keys)
  case Nil
  have "GetOp (opc # rest) = Some (opc, [], rest)" using assms(2) by (rule GetOp_opcode)
  then show ?case by (subst multisig_keys.simps) (simp add: CPubKey_ValidSize_def)
next
  case (Cons k keys)
  then obtain o1 where
    "GetOp (push_vch k @ concat (map push_vch keys) @ opc # rest) =
       Some (o1, k, concat (map push_vch keys) @ opc # rest)"
    using GetOp_push_key by (metis list.set_intros(1))
  then show ?case using Cons by (subst multisig_keys.simps) simp
qed

lemma EncodeOP_N_small:
  assumes "1 \<le> n" "n \<le> 16"
  shows "\<exists>opc. EncodeOP_N (int n) = Some opc \<and> unat opc = 80 + n \<and> IsSmallInteger opc \<and>
           OP_PUSHDATA4 < opc \<and> the (DecodeOP_N opc) = int n"
proof -
  have u: "unat (of_nat (80 + n) :: byte) = 80 + n" using assms unfolding unat_of_nat_byte by simp
  have "EncodeOP_N (int n) = Some (of_nat (80 + n))" using assms by (simp add: EncodeOP_N_def)
  moreover have "(of_nat (80 + n) :: byte) \<noteq> 0" using u by (metis unat_0 add_is_0 zero_neq_numeral)
  moreover have "IsSmallInteger (of_nat (80 + n))" "OP_PUSHDATA4 < of_nat (80 + n)"
    using assms u by (simp_all add: IsSmallInteger_def word_le_nat_alt word_less_nat_alt)
  ultimately show ?thesis using u by (auto simp: DecodeOP_N_def IsSmallInteger_def)
qed

text \<open>\<^verbatim>\<open>GetScriptForMultisig(m, keys)\<close> for \<open>1 \<le> m \<le> n \<le> 16\<close> keys of valid size produces a script that
  \<^verbatim>\<open>Solver\<close> classifies as \<^verbatim>\<open>TX_MULTISIG\<close> with solutions \<open>m\<close>, the keys in order, and \<open>n\<close>.\<close>

theorem multisig_roundtrip:
  assumes "1 \<le> m" "m \<le> length keys" "length keys \<le> 16" "\<forall>k \<in> set keys. CPubKey_ValidSize k"
  shows "\<exists>s. GetScriptForMultisig (int m) keys = Some s \<and>
           Solver s = (TX_MULTISIG, [of_nat m] # keys @ [[of_nat (length keys)]])"
proof -
  obtain om where om: "EncodeOP_N (int m) = Some om" "unat om = 80 + m" "IsSmallInteger om"
    "OP_PUSHDATA4 < om" "the (DecodeOP_N om) = int m" using EncodeOP_N_small [of m] assms by auto
  obtain on where on: "EncodeOP_N (int (length keys)) = Some on" "IsSmallInteger on"
    "OP_PUSHDATA4 < on" "the (DecodeOP_N on) = int (length keys)"
    using EncodeOP_N_small [of "length keys"] assms by auto
  define it where "it = concat (map push_vch keys) @ on # [OP_CHECKMULTISIG]"
  have "GetScriptForMultisig (int m) keys = Some (om # it)"
    by (simp add: GetScriptForMultisig_def om on it_def)
  moreover have "GetOp (om # it) = Some (om, [], it)" using om(4) by (rule GetOp_opcode)
  moreover have "multisig_keys it = (keys, on, [OP_CHECKMULTISIG])"
    unfolding it_def using multisig_keys_pushes assms(4) on(3) by blast
  moreover have "last (om # it) = OP_CHECKMULTISIG" by (simp add: it_def)
  ultimately have mm: "GetScriptForMultisig (int m) keys = Some (om # it)"
    "MatchMultisig (om # it) = Some (m, keys)"
    using om on assms by (simp_all add: MatchMultisig_def)
  have ne: "om \<noteq> c" if "unat c \<notin> {81..96}" for c using that om(2) assms by auto
  have "om \<noteq> OP_HASH160" "om \<noteq> OP_RETURN" "om \<noteq> 65" "om \<noteq> 33" "om \<noteq> OP_DUP"
    by (rule ne; simp)+
  then have "Solver (om # it) = (TX_MULTISIG, [of_nat m] # keys @ [[of_nat (length keys)]])"
    by (simp add: Solver_def mm(2) IsPayToScriptHash_def MatchPayToPubkey_def MatchPayToPubkeyHash_def)
  with mm show ?thesis by blast
qed

theorem multisig_roundtrip_witness:
  "\<exists>s. GetScriptForMultisig 1 [2 # replicate 32 0] = Some s \<and>
     Solver s = (TX_MULTISIG, [[1], 2 # replicate 32 0, [1]])"
  using multisig_roundtrip [of 1 "[2 # replicate 32 0]"]
  by (simp add: CPubKey_ValidSize_def CPubKey_GetLen_def)

end
