(* ===== verification/Zc_Interpreter.thy ===== *)
theory Zc_Interpreter
  imports Zc_Script
begin

text \<open>
  The script interpreter, \<^verbatim>\<open>src/script/interpreter.cpp\<close>: the encoding checks on signatures, keys and
  pushes, \<^verbatim>\<open>EvalScript\<close> with one definition per group of opcodes of its switch, and \<^verbatim>\<open>VerifyScript\<close>.
  The stack vectors are lists whose head is the \<^verbatim>\<open>back()\<close> of the vector, so \<^verbatim>\<open>stacktop(-i)\<close> is element
  \<open>i - 1\<close>.  A \<^verbatim>\<open>return set_error(serror, e)\<close> is \<open>Inl e\<close>; exceptions end in the \<^verbatim>\<open>catch (...)\<close> of
  \<^verbatim>\<open>EvalScript\<close> and are \<open>Inl SCRIPT_ERR_UNKNOWN_ERROR\<close>.  The lemmas show resource bounds, that
  verification flags only ever restrict (soft-fork safety), that \<^verbatim>\<open>CHECKMULTISIG\<close> decides an
  order-preserving matching, and what the two standard templates accept.
\<close>

unbundle bit_operations_syntax

section \<open>Errors, flags and the environment\<close>

text \<open>\<open>SCRIPT_ABORT\<close> stands for a failed \<^verbatim>\<open>assert\<close>.\<close>

datatype ScriptError =
    SCRIPT_ERR_UNKNOWN_ERROR | SCRIPT_ERR_EVAL_FALSE | SCRIPT_ERR_OP_RETURN
  | SCRIPT_ERR_SCRIPT_SIZE | SCRIPT_ERR_PUSH_SIZE | SCRIPT_ERR_OP_COUNT | SCRIPT_ERR_STACK_SIZE
  | SCRIPT_ERR_SIG_COUNT | SCRIPT_ERR_PUBKEY_COUNT
  | SCRIPT_ERR_VERIFY | SCRIPT_ERR_EQUALVERIFY | SCRIPT_ERR_CHECKMULTISIGVERIFY
  | SCRIPT_ERR_CHECKSIGVERIFY | SCRIPT_ERR_NUMEQUALVERIFY
  | SCRIPT_ERR_BAD_OPCODE | SCRIPT_ERR_DISABLED_OPCODE | SCRIPT_ERR_INVALID_STACK_OPERATION
  | SCRIPT_ERR_INVALID_ALTSTACK_OPERATION | SCRIPT_ERR_UNBALANCED_CONDITIONAL
  | SCRIPT_ERR_NEGATIVE_LOCKTIME | SCRIPT_ERR_UNSATISFIED_LOCKTIME
  | SCRIPT_ERR_SIG_HASHTYPE | SCRIPT_ERR_SIG_DER | SCRIPT_ERR_MINIMALDATA | SCRIPT_ERR_SIG_PUSHONLY
  | SCRIPT_ERR_SIG_HIGH_S | SCRIPT_ERR_SIG_NULLDUMMY | SCRIPT_ERR_PUBKEYTYPE | SCRIPT_ERR_CLEANSTACK
  | SCRIPT_ERR_DISCOURAGE_UPGRADABLE_NOPS | SCRIPT_ABORT

definition SCRIPT_VERIFY_P2SH :: u32 where "SCRIPT_VERIFY_P2SH = 0x001"
definition SCRIPT_VERIFY_STRICTENC :: u32 where "SCRIPT_VERIFY_STRICTENC = 0x002"
definition SCRIPT_VERIFY_LOW_S :: u32 where "SCRIPT_VERIFY_LOW_S = 0x008"
definition SCRIPT_VERIFY_NULLDUMMY :: u32 where "SCRIPT_VERIFY_NULLDUMMY = 0x010"
definition SCRIPT_VERIFY_SIGPUSHONLY :: u32 where "SCRIPT_VERIFY_SIGPUSHONLY = 0x020"
definition SCRIPT_VERIFY_MINIMALDATA :: u32 where "SCRIPT_VERIFY_MINIMALDATA = 0x040"
definition SCRIPT_VERIFY_DISCOURAGE_UPGRADABLE_NOPS :: u32 where
  "SCRIPT_VERIFY_DISCOURAGE_UPGRADABLE_NOPS = 0x080"
definition SCRIPT_VERIFY_CLEANSTACK :: u32 where "SCRIPT_VERIFY_CLEANSTACK = 0x100"
definition SCRIPT_VERIFY_CHECKLOCKTIMEVERIFY :: u32 where "SCRIPT_VERIFY_CHECKLOCKTIMEVERIFY = 0x200"

definition has_flag :: "u32 \<Rightarrow> u32 \<Rightarrow> bool" where
  "has_flag flags f \<longleftrightarrow> flags AND f \<noteq> 0"

text \<open>\<^verbatim>\<open>BaseSignatureChecker\<close>: the virtual functions the interpreter calls; \<open>CheckSig\<close> is None when it
  throws.  \<open>CheckLowS\<close> is \<^verbatim>\<open>CPubKey::CheckLowS\<close>, which asks the elliptic-curve library.\<close>

record signature_checker =
  CheckSig :: "bytes \<Rightarrow> bytes \<Rightarrow> CScript \<Rightarrow> u32 \<Rightarrow> bool option"
  CheckLockTime :: "int \<Rightarrow> bool"
  CheckLowS :: "bytes \<Rightarrow> bool"

text \<open>The arguments of \<^verbatim>\<open>EvalScript\<close> that it does not change, and its local variables.\<close>

record eval_ctx =
  c_script :: CScript
  c_flags :: u32
  c_checker :: signature_checker
  c_branch :: u32

record eval_state =
  stack :: "bytes list"
  altstack :: "bytes list"
  vfExec :: "bool list"
  nOpCount :: int

definition fRequireMinimal :: "eval_ctx \<Rightarrow> bool" where
  "fRequireMinimal c = has_flag (c_flags c) SCRIPT_VERIFY_MINIMALDATA"

section \<open>Encodings\<close>

fun CastToBool :: "bytes \<Rightarrow> bool" where
  "CastToBool [] = False"
| "CastToBool (b # v) = (if b \<noteq> 0 then \<not> (v = [] \<and> b = 0x80) else CastToBool v)"

definition IsCompressedOrUncompressedPubKey :: "bytes \<Rightarrow> bool" where
  "IsCompressedOrUncompressedPubKey k =
     (if length k < 33 then False
      else if k ! 0 = 0x04 then length k = 65
      else if k ! 0 = 0x02 \<or> k ! 0 = 0x03 then length k = 33
      else False)"

definition IsValidSignatureEncoding :: "bytes \<Rightarrow> bool" where
  "IsValidSignatureEncoding sig =
     (if length sig < 9 then False
      else if 73 < length sig then False
      else if sig ! 0 \<noteq> 0x30 then False
      else if unat (sig ! 1) \<noteq> length sig - 3 then False
      else let lenR = unat (sig ! 3) in
        if length sig \<le> 5 + lenR then False
        else let lenS = unat (sig ! (5 + lenR)) in
          if lenR + lenS + 7 \<noteq> length sig then False
          else if sig ! 2 \<noteq> 0x02 then False
          else if lenR = 0 then False
          else if sig ! 4 AND 0x80 \<noteq> 0 then False
          else if 1 < lenR \<and> sig ! 4 = 0 \<and> sig ! 5 AND 0x80 = 0 then False
          else if sig ! (lenR + 4) \<noteq> 0x02 then False
          else if lenS = 0 then False
          else if sig ! (lenR + 6) AND 0x80 \<noteq> 0 then False
          else if 1 < lenS \<and> sig ! (lenR + 6) = 0 \<and> sig ! (lenR + 7) AND 0x80 = 0 then False
          else True)"

text \<open>A high S value makes \<^verbatim>\<open>IsLowDERSignature\<close> return false with the error left as it was,
  \<^verbatim>\<open>SCRIPT_ERR_UNKNOWN_ERROR\<close>.\<close>

definition IsLowDERSignature :: "signature_checker \<Rightarrow> bytes \<Rightarrow> ScriptError + unit" where
  "IsLowDERSignature chk vchSig =
     (if \<not> IsValidSignatureEncoding vchSig then Inl SCRIPT_ERR_SIG_DER
      else if CheckLowS chk (butlast vchSig) then Inr () else Inl SCRIPT_ERR_UNKNOWN_ERROR)"

definition SIGHASH_ALL :: nat where "SIGHASH_ALL = 1"
definition SIGHASH_NONE :: nat where "SIGHASH_NONE = 2"
definition SIGHASH_SINGLE :: nat where "SIGHASH_SINGLE = 3"
definition SIGHASH_ANYONECANPAY :: nat where "SIGHASH_ANYONECANPAY = 0x80"

definition IsDefinedHashtypeSignature :: "bytes \<Rightarrow> bool" where
  "IsDefinedHashtypeSignature vchSig =
     (if length vchSig = 0 then False
      else let nHashType = last vchSig AND NOT (of_nat SIGHASH_ANYONECANPAY)
           in \<not> (unat nHashType < SIGHASH_ALL \<or> SIGHASH_SINGLE < unat nHashType))"

definition CheckSignatureEncoding :: "eval_ctx \<Rightarrow> bytes \<Rightarrow> ScriptError + unit" where
  "CheckSignatureEncoding c vchSig =
     (if length vchSig = 0 then Inr ()
      else if \<not> IsValidSignatureEncoding vchSig then Inl SCRIPT_ERR_SIG_DER
      else rbind (if has_flag (c_flags c) SCRIPT_VERIFY_LOW_S then IsLowDERSignature (c_checker c) vchSig
                  else Inr ()) (\<lambda>_.
        if has_flag (c_flags c) SCRIPT_VERIFY_STRICTENC \<and> \<not> IsDefinedHashtypeSignature vchSig
        then Inl SCRIPT_ERR_SIG_HASHTYPE else Inr ()))"

definition CheckPubKeyEncoding :: "eval_ctx \<Rightarrow> bytes \<Rightarrow> ScriptError + unit" where
  "CheckPubKeyEncoding c k =
     (if has_flag (c_flags c) SCRIPT_VERIFY_STRICTENC \<and> \<not> IsCompressedOrUncompressedPubKey k
      then Inl SCRIPT_ERR_PUBKEYTYPE else Inr ())"

definition CheckMinimalPush :: "bytes \<Rightarrow> byte \<Rightarrow> bool" where
  "CheckMinimalPush data opcode =
     (if length data = 0 then opcode = OP_0
      else if length data = 1 \<and> 1 \<le> data ! 0 \<and> data ! 0 \<le> 16 then opcode = OP_1 + (data ! 0 - 1)
      else if length data = 1 \<and> data ! 0 = 0x81 then opcode = OP_1NEGATE
      else if length data \<le> 75 then unat opcode = length data
      else if length data \<le> 255 then opcode = OP_PUSHDATA1
      else if length data \<le> 65535 then opcode = OP_PUSHDATA2
      else True)"

section \<open>The opcodes, by group\<close>

definition vchFalse :: bytes where "vchFalse = []"
definition vchTrue :: bytes where "vchTrue = [1]"

definition vch_bool :: "bool \<Rightarrow> bytes" where
  "vch_bool b = (if b then vchTrue else vchFalse)"

definition bn_bool :: "bool \<Rightarrow> int" where
  "bn_bool b = (if b then 1 else 0)"

text \<open>\<^verbatim>\<open>CScriptNum(stacktop(-i), fRequireMinimal)\<close> with the default size 4, or a given one.\<close>

definition stack_num :: "eval_ctx \<Rightarrow> nat \<Rightarrow> bytes \<Rightarrow> ScriptError + int" where
  "stack_num c n v = (case CScriptNum v (fRequireMinimal c) n of
     Inl _ \<Rightarrow> Inl SCRIPT_ERR_UNKNOWN_ERROR | Inr x \<Rightarrow> Inr x)"

abbreviation (input) "bad_stack \<equiv> Inl SCRIPT_ERR_INVALID_STACK_OPERATION"

definition op_push_number :: "byte \<Rightarrow> eval_state \<Rightarrow> ScriptError + eval_state" where
  "op_push_number opcode st =
     Inr (st\<lparr>stack := CScriptNum_serialize (int (unat opcode) - 0x50) # stack st\<rparr>)"

definition op_checklocktime :: "eval_ctx \<Rightarrow> eval_state \<Rightarrow> ScriptError + eval_state" where
  "op_checklocktime c st =
     (if \<not> has_flag (c_flags c) SCRIPT_VERIFY_CHECKLOCKTIMEVERIFY then
        (if has_flag (c_flags c) SCRIPT_VERIFY_DISCOURAGE_UPGRADABLE_NOPS
         then Inl SCRIPT_ERR_DISCOURAGE_UPGRADABLE_NOPS else Inr st)
      else case stack st of [] \<Rightarrow> bad_stack | v # _ \<Rightarrow>
        rbind (stack_num c 5 v) (\<lambda>n.
        if n < 0 then Inl SCRIPT_ERR_NEGATIVE_LOCKTIME
        else if \<not> CheckLockTime (c_checker c) n then Inl SCRIPT_ERR_UNSATISFIED_LOCKTIME
        else Inr st))"

definition op_upgradable_nop :: "eval_ctx \<Rightarrow> eval_state \<Rightarrow> ScriptError + eval_state" where
  "op_upgradable_nop c st =
     (if has_flag (c_flags c) SCRIPT_VERIFY_DISCOURAGE_UPGRADABLE_NOPS
      then Inl SCRIPT_ERR_DISCOURAGE_UPGRADABLE_NOPS else Inr st)"

text \<open>\<^verbatim>\<open>OP_IF\<close> 0x63, \<^verbatim>\<open>OP_NOTIF\<close> 0x64, \<^verbatim>\<open>OP_ELSE\<close> 0x67, \<^verbatim>\<open>OP_ENDIF\<close> 0x68, \<^verbatim>\<open>OP_VERIFY\<close> 0x69.\<close>

definition op_if :: "byte \<Rightarrow> bool \<Rightarrow> eval_state \<Rightarrow> ScriptError + eval_state" where
  "op_if opcode fExec st =
     (if fExec then
        (case stack st of [] \<Rightarrow> Inl SCRIPT_ERR_UNBALANCED_CONDITIONAL
         | v # s \<Rightarrow> Inr (st\<lparr>stack := s,
             vfExec := (if opcode = 0x64 then \<not> CastToBool v else CastToBool v) # vfExec st\<rparr>))
      else Inr (st\<lparr>vfExec := False # vfExec st\<rparr>))"

definition op_else :: "eval_state \<Rightarrow> ScriptError + eval_state" where
  "op_else st = (case vfExec st of [] \<Rightarrow> Inl SCRIPT_ERR_UNBALANCED_CONDITIONAL
     | b # v \<Rightarrow> Inr (st\<lparr>vfExec := (\<not> b) # v\<rparr>))"

definition op_endif :: "eval_state \<Rightarrow> ScriptError + eval_state" where
  "op_endif st = (case vfExec st of [] \<Rightarrow> Inl SCRIPT_ERR_UNBALANCED_CONDITIONAL
     | _ # v \<Rightarrow> Inr (st\<lparr>vfExec := v\<rparr>))"

definition op_verify :: "eval_state \<Rightarrow> ScriptError + eval_state" where
  "op_verify st = (case stack st of [] \<Rightarrow> bad_stack
     | v # s \<Rightarrow> if CastToBool v then Inr (st\<lparr>stack := s\<rparr>) else Inl SCRIPT_ERR_VERIFY)"

definition op_altstack :: "byte \<Rightarrow> eval_state \<Rightarrow> ScriptError + eval_state" where
  "op_altstack opcode st =
     (if opcode = 0x6b then
        (case stack st of [] \<Rightarrow> bad_stack
         | v # s \<Rightarrow> Inr (st\<lparr>stack := s, altstack := v # altstack st\<rparr>))
      else
        (case altstack st of [] \<Rightarrow> Inl SCRIPT_ERR_INVALID_ALTSTACK_OPERATION
         | v # a \<Rightarrow> Inr (st\<lparr>stack := v # stack st, altstack := a\<rparr>)))"

text \<open>The operations that only rearrange the stack, on the list with the top first.\<close>

definition stack_shuffle :: "byte \<Rightarrow> bytes list \<Rightarrow> bytes list option" where
  "stack_shuffle opcode s =
     (if opcode = 0x6d then (case s of _ # _ # r \<Rightarrow> Some r | _ \<Rightarrow> None)
      else if opcode = 0x6e then (case s of x2 # x1 # r \<Rightarrow> Some (x2 # x1 # x2 # x1 # r) | _ \<Rightarrow> None)
      else if opcode = 0x6f then
        (case s of x3 # x2 # x1 # r \<Rightarrow> Some (x3 # x2 # x1 # x3 # x2 # x1 # r) | _ \<Rightarrow> None)
      else if opcode = 0x70 then
        (case s of x4 # x3 # x2 # x1 # r \<Rightarrow> Some (x2 # x1 # x4 # x3 # x2 # x1 # r) | _ \<Rightarrow> None)
      else if opcode = 0x71 then
        (case s of x6 # x5 # x4 # x3 # x2 # x1 # r \<Rightarrow> Some (x2 # x1 # x6 # x5 # x4 # x3 # r) | _ \<Rightarrow> None)
      else if opcode = 0x72 then
        (case s of x4 # x3 # x2 # x1 # r \<Rightarrow> Some (x2 # x1 # x4 # x3 # r) | _ \<Rightarrow> None)
      else if opcode = 0x73 then
        (case s of x # r \<Rightarrow> Some (if CastToBool x then x # x # r else x # r) | _ \<Rightarrow> None)
      else if opcode = 0x74 then Some (CScriptNum_serialize (int (length s)) # s)
      else if opcode = 0x75 then (case s of _ # r \<Rightarrow> Some r | _ \<Rightarrow> None)
      else if opcode = 0x76 then (case s of x # r \<Rightarrow> Some (x # x # r) | _ \<Rightarrow> None)
      else if opcode = 0x77 then (case s of x2 # _ # r \<Rightarrow> Some (x2 # r) | _ \<Rightarrow> None)
      else if opcode = 0x78 then (case s of x2 # x1 # r \<Rightarrow> Some (x1 # x2 # x1 # r) | _ \<Rightarrow> None)
      else if opcode = 0x7b then (case s of x3 # x2 # x1 # r \<Rightarrow> Some (x1 # x3 # x2 # r) | _ \<Rightarrow> None)
      else if opcode = 0x7c then (case s of x2 # x1 # r \<Rightarrow> Some (x1 # x2 # r) | _ \<Rightarrow> None)
      else if opcode = 0x7d then (case s of x2 # x1 # r \<Rightarrow> Some (x2 # x1 # x2 # r) | _ \<Rightarrow> None)
      else if opcode = 0x82 then
        (case s of x # r \<Rightarrow> Some (CScriptNum_serialize (int (length x)) # x # r) | _ \<Rightarrow> None)
      else None)"

definition op_stack :: "byte \<Rightarrow> eval_state \<Rightarrow> ScriptError + eval_state" where
  "op_stack opcode st = (case stack_shuffle opcode (stack st) of
      None \<Rightarrow> bad_stack | Some s \<Rightarrow> Inr (st\<lparr>stack := s\<rparr>))"

text \<open>\<^verbatim>\<open>OP_PICK\<close> 0x79 and \<^verbatim>\<open>OP_ROLL\<close> 0x7a.\<close>

definition op_pick_roll :: "eval_ctx \<Rightarrow> byte \<Rightarrow> eval_state \<Rightarrow> ScriptError + eval_state" where
  "op_pick_roll c opcode st =
     (if length (stack st) < 2 then bad_stack
      else rbind (stack_num c 4 (hd (stack st))) (\<lambda>bn.
        let n = CScriptNum_getint bn; s = tl (stack st) in
        if n < 0 \<or> int (length s) \<le> n then bad_stack
        else let k = nat n; v = s ! k;
                 s' = (if opcode = 0x7a then take k s @ drop (Suc k) s else s)
             in Inr (st\<lparr>stack := v # s'\<rparr>)))"

definition op_equal :: "byte \<Rightarrow> eval_state \<Rightarrow> ScriptError + eval_state" where
  "op_equal opcode st = (case stack st of
      x2 # x1 # s \<Rightarrow>
        if opcode = OP_EQUALVERIFY then
          (if x1 = x2 then Inr (st\<lparr>stack := s\<rparr>) else Inl SCRIPT_ERR_EQUALVERIFY)
        else Inr (st\<lparr>stack := vch_bool (x1 = x2) # s\<rparr>)
    | _ \<Rightarrow> bad_stack)"

text \<open>\<^verbatim>\<open>OP_1ADD\<close> 0x8b, \<^verbatim>\<open>OP_1SUB\<close> 0x8c, \<^verbatim>\<open>OP_NEGATE\<close> 0x8f, \<^verbatim>\<open>OP_ABS\<close> 0x90, \<^verbatim>\<open>OP_NOT\<close> 0x91,
  \<^verbatim>\<open>OP_0NOTEQUAL\<close> 0x92.  The operands have at most 31 bits and a sign, so the 64-bit results are exact.\<close>

definition unary_value :: "byte \<Rightarrow> int \<Rightarrow> int" where
  "unary_value opcode bn =
     (if opcode = 0x8b then bn + 1
      else if opcode = 0x8c then bn - 1
      else if opcode = 0x8f then - bn
      else if opcode = 0x90 then (if bn < 0 then - bn else bn)
      else if opcode = 0x91 then bn_bool (bn = 0)
      else bn_bool (bn \<noteq> 0))"

definition op_unary :: "eval_ctx \<Rightarrow> byte \<Rightarrow> eval_state \<Rightarrow> ScriptError + eval_state" where
  "op_unary c opcode st = (case stack st of
      v # s \<Rightarrow> rbind (stack_num c 4 v) (\<lambda>bn.
        Inr (st\<lparr>stack := CScriptNum_serialize (unary_value opcode bn) # s\<rparr>))
    | [] \<Rightarrow> bad_stack)"

text \<open>\<^verbatim>\<open>OP_ADD\<close> 0x93, \<^verbatim>\<open>OP_SUB\<close> 0x94, \<^verbatim>\<open>OP_BOOLAND\<close> 0x9a to \<^verbatim>\<open>OP_MAX\<close> 0xa4 in the order of the enum.\<close>

definition binary_value :: "byte \<Rightarrow> int \<Rightarrow> int \<Rightarrow> int" where
  "binary_value opcode bn1 bn2 =
     (if opcode = 0x93 then bn1 + bn2
      else if opcode = 0x94 then bn1 - bn2
      else if opcode = 0x9a then bn_bool (bn1 \<noteq> 0 \<and> bn2 \<noteq> 0)
      else if opcode = 0x9b then bn_bool (bn1 \<noteq> 0 \<or> bn2 \<noteq> 0)
      else if opcode = 0x9c \<or> opcode = 0x9d then bn_bool (bn1 = bn2)
      else if opcode = 0x9e then bn_bool (bn1 \<noteq> bn2)
      else if opcode = 0x9f then bn_bool (bn1 < bn2)
      else if opcode = 0xa0 then bn_bool (bn1 > bn2)
      else if opcode = 0xa1 then bn_bool (bn1 \<le> bn2)
      else if opcode = 0xa2 then bn_bool (bn1 \<ge> bn2)
      else if opcode = 0xa3 then (if bn1 < bn2 then bn1 else bn2)
      else (if bn1 > bn2 then bn1 else bn2))"

definition op_binary :: "eval_ctx \<Rightarrow> byte \<Rightarrow> eval_state \<Rightarrow> ScriptError + eval_state" where
  "op_binary c opcode st = (case stack st of
      v2 # v1 # s \<Rightarrow> rbind (stack_num c 4 v1) (\<lambda>bn1. rbind (stack_num c 4 v2) (\<lambda>bn2.
        let v = CScriptNum_serialize (binary_value opcode bn1 bn2) in
        if opcode = 0x9d then
          (if CastToBool v then Inr (st\<lparr>stack := s\<rparr>) else Inl SCRIPT_ERR_NUMEQUALVERIFY)
        else Inr (st\<lparr>stack := v # s\<rparr>)))
    | _ \<Rightarrow> bad_stack)"

definition op_within :: "eval_ctx \<Rightarrow> eval_state \<Rightarrow> ScriptError + eval_state" where
  "op_within c st = (case stack st of
      v3 # v2 # v1 # s \<Rightarrow> rbind (stack_num c 4 v1) (\<lambda>bn1. rbind (stack_num c 4 v2) (\<lambda>bn2.
        rbind (stack_num c 4 v3) (\<lambda>bn3. Inr (st\<lparr>stack := vch_bool (bn2 \<le> bn1 \<and> bn1 < bn3) # s\<rparr>))))
    | _ \<Rightarrow> bad_stack)"

text \<open>\<^verbatim>\<open>OP_RIPEMD160\<close> 0xa6, \<^verbatim>\<open>OP_SHA1\<close> 0xa7, \<^verbatim>\<open>OP_SHA256\<close> 0xa8, \<^verbatim>\<open>OP_HASH160\<close> 0xa9, \<^verbatim>\<open>OP_HASH256\<close> 0xaa.\<close>

definition hash_value :: "byte \<Rightarrow> bytes \<Rightarrow> bytes" where
  "hash_value opcode v =
     (if opcode = 0xa6 then fst (CRIPEMD160_Finalize (CRIPEMD160_Write v CRIPEMD160))
      else if opcode = 0xa7 then fst (CSHA1_Finalize (CSHA1_Write v CSHA1))
      else if opcode = 0xa8 then fst (CSHA256_Finalize (CSHA256_Write v CSHA256))
      else if opcode = 0xa9 then fst (CHash160_Finalize (CSHA256_Write v CSHA256))
      else fst (CHash256_Finalize (CSHA256_Write v CSHA256)))"

definition op_hash :: "byte \<Rightarrow> eval_state \<Rightarrow> ScriptError + eval_state" where
  "op_hash opcode st = (case stack st of
      v # s \<Rightarrow> Inr (st\<lparr>stack := hash_value opcode v # s\<rparr>) | [] \<Rightarrow> bad_stack)"

text \<open>The encoding checks and the signature check that both signature opcodes make.\<close>

definition check_one :: "eval_ctx \<Rightarrow> bytes \<Rightarrow> bytes \<Rightarrow> ScriptError + bool" where
  "check_one c vchSig vchPubKey =
     rbind (CheckSignatureEncoding c vchSig) (\<lambda>_. rbind (CheckPubKeyEncoding c vchPubKey) (\<lambda>_.
       case CheckSig (c_checker c) vchSig vchPubKey (c_script c) (c_branch c) of
         None \<Rightarrow> Inl SCRIPT_ERR_UNKNOWN_ERROR | Some fSuccess \<Rightarrow> Inr fSuccess))"

definition op_checksig :: "eval_ctx \<Rightarrow> byte \<Rightarrow> eval_state \<Rightarrow> ScriptError + eval_state" where
  "op_checksig c opcode st = (case stack st of
      vchPubKey # vchSig # s \<Rightarrow> rbind (check_one c vchSig vchPubKey) (\<lambda>fSuccess.
        if opcode = OP_CHECKSIGVERIFY then
          (if fSuccess then Inr (st\<lparr>stack := s\<rparr>) else Inl SCRIPT_ERR_CHECKSIGVERIFY)
        else Inr (st\<lparr>stack := vch_bool fSuccess # s\<rparr>))
    | _ \<Rightarrow> bad_stack)"

text \<open>The matching loop: \<open>sigs\<close> and \<open>keys\<close> are the arguments still to be used, top of the stack
  first.  It is only entered with no more signatures than keys.\<close>

fun multisig_loop :: "eval_ctx \<Rightarrow> bytes list \<Rightarrow> bytes list \<Rightarrow> ScriptError + bool" where
  "multisig_loop c [] keys = Inr True"
| "multisig_loop c (sig # sigs) [] = Inr False"
| "multisig_loop c (sig # sigs) (k # keys) =
     rbind (check_one c sig k) (\<lambda>fOk.
       let sigs' = (if fOk then sigs else sig # sigs) in
       if length keys < length sigs' then Inr False else multisig_loop c sigs' keys)"

definition op_checkmultisig :: "eval_ctx \<Rightarrow> byte \<Rightarrow> eval_state \<Rightarrow> ScriptError + eval_state" where
  "op_checkmultisig c opcode st =
     (if length (stack st) < 1 then bad_stack
      else rbind (stack_num c 4 (stack st ! 0)) (\<lambda>bnKeys.
        let nKeysCount = CScriptNum_getint bnKeys in
        if nKeysCount < 0 \<or> 20 < nKeysCount then Inl SCRIPT_ERR_PUBKEY_COUNT
        else if 201 < nOpCount st + nKeysCount then Inl SCRIPT_ERR_OP_COUNT
        else let nk = nat nKeysCount in
        if length (stack st) < 2 + nk then bad_stack
        else rbind (stack_num c 4 (stack st ! (1 + nk))) (\<lambda>bnSigs.
          let nSigsCount = CScriptNum_getint bnSigs in
          if nSigsCount < 0 \<or> nKeysCount < nSigsCount then Inl SCRIPT_ERR_SIG_COUNT
          else let ns = nat nSigsCount in
          if length (stack st) < 3 + nk + ns then bad_stack
          else rbind (multisig_loop c (take ns (drop (2 + nk) (stack st))) (take nk (drop 1 (stack st)))) (\<lambda>fSuccess.
            let s = drop (2 + nk + ns) (stack st) in
            if has_flag (c_flags c) SCRIPT_VERIFY_NULLDUMMY \<and> length (hd s) \<noteq> 0 then Inl SCRIPT_ERR_SIG_NULLDUMMY
            else let st' = st\<lparr>nOpCount := nOpCount st + nKeysCount\<rparr> in
            if opcode = OP_CHECKMULTISIGVERIFY then
              (if fSuccess then Inr (st'\<lparr>stack := tl s\<rparr>) else Inl SCRIPT_ERR_CHECKMULTISIGVERIFY)
            else Inr (st'\<lparr>stack := vch_bool fSuccess # tl s\<rparr>)))))"

section \<open>EvalScript and VerifyScript\<close>

text \<open>The switch.\<close>

definition exec_opcode :: "eval_ctx \<Rightarrow> byte \<Rightarrow> bool \<Rightarrow> eval_state \<Rightarrow> ScriptError + eval_state" where
  "exec_opcode c opcode fExec st =
     (if opcode = OP_1NEGATE \<or> (OP_1 \<le> opcode \<and> opcode \<le> OP_16) then op_push_number opcode st
      else if opcode = 0x61 then Inr st
      else if opcode = 0xb1 then op_checklocktime c st
      else if opcode = 0xb0 \<or> (0xb2 \<le> opcode \<and> opcode \<le> 0xb9) then op_upgradable_nop c st
      else if opcode = 0x63 \<or> opcode = 0x64 then op_if opcode fExec st
      else if opcode = 0x67 then op_else st
      else if opcode = 0x68 then op_endif st
      else if opcode = 0x69 then op_verify st
      else if opcode = OP_RETURN then Inl SCRIPT_ERR_OP_RETURN
      else if opcode = 0x6b \<or> opcode = 0x6c then op_altstack opcode st
      else if opcode = 0x79 \<or> opcode = 0x7a then op_pick_roll c opcode st
      else if (0x6d \<le> opcode \<and> opcode \<le> 0x7d) \<or> opcode = 0x82 then op_stack opcode st
      else if opcode = OP_EQUAL \<or> opcode = OP_EQUALVERIFY then op_equal opcode st
      else if opcode = 0x8b \<or> opcode = 0x8c \<or> (0x8f \<le> opcode \<and> opcode \<le> 0x92) then op_unary c opcode st
      else if opcode = 0x93 \<or> opcode = 0x94 \<or> (0x9a \<le> opcode \<and> opcode \<le> 0xa4) then op_binary c opcode st
      else if opcode = 0xa5 then op_within c st
      else if 0xa6 \<le> opcode \<and> opcode \<le> 0xaa then op_hash opcode st
      else if opcode = OP_CHECKSIG \<or> opcode = OP_CHECKSIGVERIFY then op_checksig c opcode st
      else if opcode = OP_CHECKMULTISIG \<or> opcode = OP_CHECKMULTISIGVERIFY then op_checkmultisig c opcode st
      else Inl SCRIPT_ERR_BAD_OPCODE)"

text \<open>\<^verbatim>\<open>OP_CAT\<close> to \<^verbatim>\<open>OP_RIGHT\<close> 0x7e-0x81, \<^verbatim>\<open>OP_INVERT\<close> to \<^verbatim>\<open>OP_XOR\<close> 0x83-0x86, \<^verbatim>\<open>OP_2MUL\<close> 0x8d, \<^verbatim>\<open>OP_2DIV\<close>
  0x8e, \<^verbatim>\<open>OP_MUL\<close> to \<^verbatim>\<open>OP_RSHIFT\<close> 0x95-0x99, \<^verbatim>\<open>OP_CODESEPARATOR\<close> 0xab.\<close>

definition disabled_opcode :: "byte \<Rightarrow> bool" where
  "disabled_opcode opcode \<longleftrightarrow> (0x7e \<le> opcode \<and> opcode \<le> 0x81) \<or> (0x83 \<le> opcode \<and> opcode \<le> 0x86) \<or>
     opcode = 0x8d \<or> opcode = 0x8e \<or> (0x95 \<le> opcode \<and> opcode \<le> 0x99) \<or> opcode = 0xab"

text \<open>One round of the loop, after the instruction has been read.\<close>

definition eval_step :: "eval_ctx \<Rightarrow> byte \<Rightarrow> bytes \<Rightarrow> eval_state \<Rightarrow> ScriptError + eval_state" where
  "eval_step c opcode vchPushValue st0 =
     (let fExec = (False \<notin> set (vfExec st0)) in
      if MAX_SCRIPT_ELEMENT_SIZE < length vchPushValue then Inl SCRIPT_ERR_PUSH_SIZE
      else let st = (if OP_16 < opcode then st0\<lparr>nOpCount := nOpCount st0 + 1\<rparr> else st0) in
      if OP_16 < opcode \<and> 201 < nOpCount st then Inl SCRIPT_ERR_OP_COUNT
      else if disabled_opcode opcode then Inl SCRIPT_ERR_DISABLED_OPCODE
      else rbind
        (if fExec \<and> opcode \<le> OP_PUSHDATA4 then
           (if fRequireMinimal c \<and> \<not> CheckMinimalPush vchPushValue opcode then Inl SCRIPT_ERR_MINIMALDATA
            else Inr (st\<lparr>stack := vchPushValue # stack st\<rparr>))
         else if fExec \<or> (0x63 \<le> opcode \<and> opcode \<le> 0x68) then exec_opcode c opcode fExec st
         else Inr st) (\<lambda>st'.
        if 1000 < length (stack st') + length (altstack st') then Inl SCRIPT_ERR_STACK_SIZE else Inr st'))"

function eval_loop :: "eval_ctx \<Rightarrow> CScript \<Rightarrow> eval_state \<Rightarrow> ScriptError + eval_state" where
  "eval_loop c pc st =
     (if pc = [] then Inr st
      else case GetOp pc of None \<Rightarrow> Inl SCRIPT_ERR_BAD_OPCODE
      | Some (opcode, vchPushValue, rest) \<Rightarrow>
          (case eval_step c opcode vchPushValue st of Inl e \<Rightarrow> Inl e | Inr st' \<Rightarrow> eval_loop c rest st'))"
  by pat_completeness auto
termination
  by (relation "measure (\<lambda>(_, pc, _). length pc)") (auto dest: GetOp_shorter)

declare eval_loop.simps [simp del]

definition EvalScript :: "bytes list \<Rightarrow> CScript \<Rightarrow> u32 \<Rightarrow> signature_checker \<Rightarrow> u32 \<Rightarrow> ScriptError + bytes list" where
  "EvalScript stk script flags checker consensusBranchId =
     (if MAX_SCRIPT_SIZE < length script then Inl SCRIPT_ERR_SCRIPT_SIZE
      else rbind (eval_loop \<lparr>c_script = script, c_flags = flags, c_checker = checker, c_branch = consensusBranchId\<rparr>
                    script \<lparr>stack = stk, altstack = [], vfExec = [], nOpCount = 0\<rparr>) (\<lambda>st.
        if vfExec st \<noteq> [] then Inl SCRIPT_ERR_UNBALANCED_CONDITIONAL else Inr (stack st)))"

text \<open>\<^verbatim>\<open>stack.empty()\<close> or \<^verbatim>\<open>CastToBool(stack.back()) == false\<close>.\<close>

definition eval_true :: "bytes list \<Rightarrow> ScriptError + unit" where
  "eval_true stk = (case stk of [] \<Rightarrow> Inl SCRIPT_ERR_EVAL_FALSE
     | v # _ \<Rightarrow> if CastToBool v then Inr () else Inl SCRIPT_ERR_EVAL_FALSE)"

definition VerifyScript :: "CScript \<Rightarrow> CScript \<Rightarrow> u32 \<Rightarrow> signature_checker \<Rightarrow> u32 \<Rightarrow> ScriptError + unit" where
  "VerifyScript sSig sPubKey flags checker consensusBranchId =
     (if has_flag flags SCRIPT_VERIFY_SIGPUSHONLY \<and> \<not> IsPushOnly sSig then Inl SCRIPT_ERR_SIG_PUSHONLY
      else rbind (EvalScript [] sSig flags checker consensusBranchId) (\<lambda>stackCopy.
        rbind (EvalScript stackCopy sPubKey flags checker consensusBranchId) (\<lambda>stk.
        rbind (eval_true stk) (\<lambda>_.
        rbind (if has_flag flags SCRIPT_VERIFY_P2SH \<and> IsPayToScriptHash sPubKey then
                 (if \<not> IsPushOnly sSig then Inl SCRIPT_ERR_SIG_PUSHONLY
                  else case stackCopy of [] \<Rightarrow> Inl SCRIPT_ABORT
                    | pubKey2 # stk2 \<Rightarrow>
                        rbind (EvalScript stk2 pubKey2 flags checker consensusBranchId) (\<lambda>stk3.
                        rbind (eval_true stk3) (\<lambda>_. Inr stk3)))
               else Inr stk) (\<lambda>final.
        if has_flag flags SCRIPT_VERIFY_CLEANSTACK then
          (if \<not> has_flag flags SCRIPT_VERIFY_P2SH then Inl SCRIPT_ABORT
           else if length final \<noteq> 1 then Inl SCRIPT_ERR_CLEANSTACK else Inr ())
        else Inr ())))))"

section \<open>Hash values\<close>

lemma md_compress_inv:
  assumes "P s" "\<And>s c. P s \<Longrightarrow> P (T s c)"
  shows "P (md_compress B T s m)"
  using assms
proof (induction B T s m rule: md_compress.induct)
  case (1 B T s m)
  show ?case
  proof (cases "B = 0 \<or> length m < B")
    case True
    then show ?thesis using 1(2) by (subst md_compress.simps) simp
  next
    case False
    then show ?thesis using 1(1) [OF False 1(3) [OF 1(2)] 1(3)] by (subst md_compress.simps) simp
  qed
qed

lemma length_sha1_Transform: "length s = 5 \<Longrightarrow> length (sha1_Transform s c) = 5"
proof -
  assume s: "length s = 5"
  have "length (fst (fold (sha1_step c) is (v, w))) = length v" for "is" v w
    by (induction "is" arbitrary: v w) (simp_all add: sha1_step_def Let_def split: prod.splits)
  then show ?thesis using s by (simp add: sha1_Transform_def)
qed

lemma length_sha1_digest: "length (sha1_digest m) = 20"
proof -
  have "length (md_compress 64 sha1_Transform sha1_Initialize n) = 5" for n
    by (rule md_compress_inv) (simp_all add: sha1_Initialize_def length_sha1_Transform)
  then show ?thesis
    unfolding sha1_digest_def by (subst length_concat_map [where n = 4]) (simp_all add: WriteBE32_def)
qed

lemma length_ripemd160_digest: "length (ripemd160_digest m) = 20"
proof -
  have "length (md_compress 64 ripemd160_Transform ripemd160_Initialize n) = 5" for n
    by (rule md_compress_inv)
      (simp_all add: ripemd160_Initialize_def ripemd160_Transform_def Let_def split: prod.splits)
  then show ?thesis
    unfolding ripemd160_digest_def by (subst length_concat_map [where n = 4]) (simp_all add: WriteLE32_def)
qed

lemma length_hash_value: "length (hash_value opcode v) \<le> 32"
  unfolding hash_value_def
  by (simp add: sha256_stream.digest_once sha1_stream.digest_once ripemd160_stream.digest_once
      hash160_stream.digest_once hash256_stream.digest_once length_fips_sha256 length_sha1_digest
      length_ripemd160_digest)

lemma hash_value_Hash160: "hash_value OP_HASH160 v = uint160_bytes (Hash160 v)"
proof -
  let ?d = "ripemd160_digest (fips_sha256 v)"
  have l: "length ?d = 20" by (rule length_ripemd160_digest)
  have "unat (of_nat (le_to_nat ?d) :: 160 word) = le_to_nat ?d"
    using le_to_nat_less [of ?d] l by (simp add: unat_of_nat)
  then have "uint160_bytes (Hash160 v) = nat_to_le 20 (le_to_nat ?d)"
    by (simp add: uint160_bytes_def Hash160_def hash160_stream.digest_once del: nat_to_le.simps)
  also have "\<dots> = ?d" using nat_to_le_le_to_nat [of ?d] l by (simp del: nat_to_le.simps)
  finally show ?thesis by (simp add: hash_value_def hash160_stream.digest_once)
qed

section \<open>Resource limits\<close>

definition eval_ok :: "eval_state \<Rightarrow> bool" where
  "eval_ok st \<longleftrightarrow> length (stack st) + length (altstack st) \<le> 1000 \<and>
     (\<forall>v \<in> set (stack st) \<union> set (altstack st). length v \<le> MAX_SCRIPT_ELEMENT_SIZE) \<and> nOpCount st \<le> 201"

text \<open>What every opcode keeps: small elements, and the operation budget.\<close>

definition small :: "eval_state \<Rightarrow> bool" where
  "small st \<longleftrightarrow> (\<forall>v \<in> set (stack st) \<union> set (altstack st). length v \<le> MAX_SCRIPT_ELEMENT_SIZE) \<and> nOpCount st \<le> 201"

lemma length_serialize:
  assumes "\<bar>x\<bar> < 2 ^ 63"
  shows "length (CScriptNum_serialize x) \<le> MAX_SCRIPT_ELEMENT_SIZE"
  using snum_range [of "snum_bytes x"] snum_of_snum_bytes [of x] assms
  by (simp add: serialize_snum_bytes MAX_SCRIPT_ELEMENT_SIZE_def)

lemma stack_num_range: "stack_num c 4 v = Inr x \<Longrightarrow> \<bar>x\<bar> < 2 ^ 31"
  using CScriptNum_4_range [of v "fRequireMinimal c" x] by (auto simp: stack_num_def split: sum.splits)

lemma length_vch_bool: "length (vch_bool b) \<le> MAX_SCRIPT_ELEMENT_SIZE"
  by (simp add: vch_bool_def vchTrue_def vchFalse_def MAX_SCRIPT_ELEMENT_SIZE_def)

lemma length_hash_small: "length (hash_value opcode v) \<le> MAX_SCRIPT_ELEMENT_SIZE"
  using length_hash_value [of opcode v] by (simp add: MAX_SCRIPT_ELEMENT_SIZE_def)

lemma op_push_number_small [rpost_rules]: "small st \<Longrightarrow> rpost small (op_push_number opcode st)"
proof -
  have "\<bar>int (unat opcode) - 0x50\<bar> < 256" using unat_byte_less [of opcode] by linarith
  then have "length (CScriptNum_serialize (int (unat opcode) - 0x50)) \<le> MAX_SCRIPT_ELEMENT_SIZE"
    by - (rule length_serialize, erule order.strict_trans, simp)
  then show "small st \<Longrightarrow> rpost small (op_push_number opcode st)"
    unfolding op_push_number_def by (intro rpost_rules) (auto simp: small_def)
qed

lemma op_control_small [rpost_rules]:
  assumes "small st"
  shows "rpost small (op_checklocktime c st)" "rpost small (op_upgradable_nop c st)"
    "rpost small (op_if opcode fExec st)" "rpost small (op_else st)" "rpost small (op_endif st)"
    "rpost small (op_verify st)" "rpost small (op_altstack opcode st)"
  using assms unfolding rpost_def
  by (auto simp: op_checklocktime_def op_upgradable_nop_def op_if_def op_else_def op_endif_def op_verify_def
      op_altstack_def rbind_eq_Inr small_def split: if_splits list.splits)

lemma stack_shuffle_small:
  assumes "length s < 2 ^ 63" and e: "\<forall>v \<in> set s. length v \<le> MAX_SCRIPT_ELEMENT_SIZE"
  shows "case stack_shuffle opcode s of None \<Rightarrow> True
         | Some s' \<Rightarrow> \<forall>v \<in> set s'. length v \<le> MAX_SCRIPT_ELEMENT_SIZE"
proof -
  have "length (CScriptNum_serialize (int (length s))) \<le> MAX_SCRIPT_ELEMENT_SIZE"
    using assms(1) by (intro length_serialize) simp
  moreover have "length (CScriptNum_serialize (int (length v))) \<le> MAX_SCRIPT_ELEMENT_SIZE" if "v \<in> set s" for v
  proof -
    have "length v \<le> 520" using e that by (simp add: MAX_SCRIPT_ELEMENT_SIZE_def)
    then show ?thesis by (intro length_serialize) simp
  qed
  ultimately show ?thesis using e
    unfolding stack_shuffle_def by (simp split: list.split)
qed

lemma op_stack_small [rpost_rules]:
  "length (stack st) \<le> 1000 \<Longrightarrow> small st \<Longrightarrow> rpost small (op_stack opcode st)"
  using stack_shuffle_small [of "stack st" opcode] unfolding rpost_def
  by (auto simp: op_stack_def small_def split: option.splits)

lemma op_pick_roll_small [rpost_rules]:
  assumes "small st"
  shows "rpost small (op_pick_roll c opcode st)"
proof -
  have e: "small (st\<lparr>stack := s ! k # take k s @ drop (Suc k) s\<rparr>)" "small (st\<lparr>stack := s ! k # s\<rparr>)"
    if "stack st = x # s" "k < length s" for x s k
    using assms that nth_mem [OF that(2)] unfolding small_def by (auto dest: in_set_takeD in_set_dropD)
  show ?thesis
    unfolding op_pick_roll_def Let_def
    by (intro rpost_rules; cases "stack st") (auto intro!: e)
qed

lemma op_equal_small [rpost_rules]: "small st \<Longrightarrow> rpost small (op_equal opcode st)"
  by (auto simp: rpost_def op_equal_def small_def length_vch_bool split: list.splits if_splits)

lemma numeric_small:
  assumes "stack_num c 4 v = Inr x" "stack_num c 4 w = Inr y"
  shows "length (CScriptNum_serialize (unary_value opcode x)) \<le> MAX_SCRIPT_ELEMENT_SIZE"
    and "length (CScriptNum_serialize (binary_value opcode x y)) \<le> MAX_SCRIPT_ELEMENT_SIZE"
  using stack_num_range [OF assms(1)] stack_num_range [OF assms(2)]
  by (intro length_serialize; auto simp: unary_value_def binary_value_def bn_bool_def)+

lemma op_numeric_small [rpost_rules]:
  assumes "small st"
  shows "rpost small (op_unary c opcode st)" "rpost small (op_binary c opcode st)" "rpost small (op_within c st)"
  using assms unfolding op_unary_def op_binary_def op_within_def Let_def
  by (auto split: list.split intro!: rpost_rules simp: small_def length_vch_bool numeric_small)

lemma op_crypto_small [rpost_rules]:
  assumes "small st"
  shows "rpost small (op_hash opcode st)" "rpost small (op_checksig c opcode st)"
  using assms unfolding op_hash_def op_checksig_def
  by (auto split: list.split intro!: rpost_rules simp: small_def length_vch_bool length_hash_small)

lemma op_checkmultisig_small [rpost_rules]:
  assumes "small st"
  shows "rpost small (op_checkmultisig c opcode st)"
proof -
  have "set (tl (drop k (stack st))) \<subseteq> set (stack st)" for k
    by (metis drop_Suc set_drop_subset tl_drop)
  then have "small (st\<lparr>nOpCount := n, stack := tl (drop k (stack st))\<rparr>)"
    "small (st\<lparr>nOpCount := n, stack := vch_bool b # tl (drop k (stack st))\<rparr>)" if "n \<le> 201" for n k b
    using assms that unfolding small_def by (auto simp: length_vch_bool)
  then show ?thesis unfolding op_checkmultisig_def Let_def
    by (intro rpost_rules) (simp_all add: not_less)
qed

lemma exec_opcode_small [rpost_rules]:
  assumes "length (stack st) \<le> 1000" "small st"
  shows "rpost small (exec_opcode c opcode fExec st)"
  unfolding exec_opcode_def by (intro rpost_rules assms)

lemma eval_step_ok:
  assumes "eval_ok st"
  shows "rpost eval_ok (eval_step c opcode v st)"
proof -
  have s: "small st" "length (stack st) \<le> 1000" using assms by (auto simp: eval_ok_def small_def)
  have s1: "small (st\<lparr>nOpCount := n\<rparr>)" if "n \<le> 201" for n using s that by (simp add: small_def)
  have push: "small (st\<lparr>stack := v # stack st\<rparr>)" "n \<le> 201 \<Longrightarrow> small (st\<lparr>nOpCount := n, stack := v # stack st\<rparr>)"
    if "length v \<le> MAX_SCRIPT_ELEMENT_SIZE" for n using s that by (simp_all add: small_def)
  have fin: "rpost eval_ok (rbind r (\<lambda>st'. if 1000 < length (stack st') + length (altstack st')
               then Inl SCRIPT_ERR_STACK_SIZE else Inr st'))"
    if "rpost small r" for r
    using that by (auto simp: rpost_def rbind_eq_Inr eval_ok_def small_def)
  show ?thesis unfolding eval_step_def Let_def
    using s s1 push by (intro rpost_if rpost_Inl fin) (auto intro!: rpost_rules split: if_splits simp: not_less)
qed

lemma eval_loop_ok: "eval_ok st \<Longrightarrow> rpost eval_ok (eval_loop c pc st)"
proof (induction c pc st rule: eval_loop.induct)
  case (1 c pc st)
  then show ?case
    using eval_step_ok [OF 1(2)]
    by (subst eval_loop.simps) (auto simp: rpost_def split: option.splits sum.splits)
qed

text \<open>C25: Resource limits: whenever \<^verbatim>\<open>EvalScript\<close> succeeds from a stack of at most 1000 elements of at most
  520 bytes, so is the resulting stack.\<close>

theorem EvalScript_limits:
  assumes "length stk \<le> 1000" "\<forall>v \<in> set stk. length v \<le> MAX_SCRIPT_ELEMENT_SIZE"
    and "EvalScript stk script flags checker branch = Inr stk'"
  shows "length stk' \<le> 1000 \<and> (\<forall>v \<in> set stk'. length v \<le> MAX_SCRIPT_ELEMENT_SIZE)"
proof -
  have "eval_ok \<lparr>stack = stk, altstack = [], vfExec = [], nOpCount = 0\<rparr>"
    using assms(1,2) by (simp add: eval_ok_def)
  then have "rpost eval_ok (eval_loop c script \<lparr>stack = stk, altstack = [], vfExec = [], nOpCount = 0\<rparr>)" for c
    by (rule eval_loop_ok)
  then obtain st where "eval_ok st" "stk' = stack st"
    using assms(3) by (auto simp: EvalScript_def rbind_eq_Inr split: if_splits dest: rpostD)
  then show ?thesis by (auto simp: eval_ok_def)
qed

definition no_checker :: signature_checker where
  "no_checker = \<lparr>CheckSig = (\<lambda>_ _ _ _. Some False), CheckLockTime = (\<lambda>_. False), CheckLowS = (\<lambda>_. False)\<rparr>"

lemma EvalScript_DUP: "EvalScript [[7]] [OP_DUP] 0 no_checker 0 = Inr [[7], [7]]"
proof -
  have "GetOp [OP_DUP] = Some (OP_DUP, [], [])" by (rule GetOp_opcode) simp
  then show ?thesis
    by (simp add: EvalScript_def MAX_SCRIPT_SIZE_def eval_loop.simps eval_step_def disabled_opcode_def
        exec_opcode_def op_stack_def stack_shuffle_def MAX_SCRIPT_ELEMENT_SIZE_def Let_def)
qed

theorem EvalScript_limits_witness:
  "EvalScript [[7]] [OP_DUP] 0 no_checker 0 = Inr [[7], [7]] \<and>
   list_all (\<lambda>v. length v \<le> MAX_SCRIPT_ELEMENT_SIZE) [[7], [7 :: byte]]"
  using EvalScript_limits [OF _ _ EvalScript_DUP] EvalScript_DUP by (simp add: MAX_SCRIPT_ELEMENT_SIZE_def)

text \<open>C34: A script that \<^verbatim>\<open>IsUnspendable\<close> reports (it starts with \<^verbatim>\<open>OP_RETURN\<close> or is too long) fails under
  every stack, flags and checker, so outputs paying to it can be pruned from the coin set.\<close>

theorem IsUnspendable_fails:
  assumes "IsUnspendable script"
  shows "EvalScript stk script flags checker branch =
           Inl (if MAX_SCRIPT_SIZE < length script then SCRIPT_ERR_SCRIPT_SIZE else SCRIPT_ERR_OP_RETURN) \<and>
         (\<forall>sSig u. VerifyScript sSig script flags checker branch \<noteq> Inr u)"
proof -
  have e: "EvalScript stk script flags checker branch =
           Inl (if MAX_SCRIPT_SIZE < length script then SCRIPT_ERR_SCRIPT_SIZE else SCRIPT_ERR_OP_RETURN)" for stk
  proof (cases "MAX_SCRIPT_SIZE < length script")
    case False
    then obtain rest where s: "script = OP_RETURN # rest"
      using assms by (cases script) (auto simp: IsUnspendable_def)
    have "GetOp script = Some (OP_RETURN, [], rest)" unfolding s by (rule GetOp_opcode) simp
    then show ?thesis using False
      by (simp add: EvalScript_def eval_loop.simps [of _ "OP_RETURN # rest"] eval_step_def disabled_opcode_def s
          exec_opcode_def Let_def)
  qed (simp add: EvalScript_def)
  then show ?thesis by (auto simp: VerifyScript_def rbind_eq_Inr)
qed

theorem IsUnspendable_fails_witness:
  "IsUnspendable [OP_RETURN] \<and> EvalScript [] [OP_RETURN] 0 no_checker 0 = Inl SCRIPT_ERR_OP_RETURN"
  using IsUnspendable_fails [of "[OP_RETURN]" "[]" 0 no_checker 0]
  by (simp add: IsUnspendable_def MAX_SCRIPT_SIZE_def)

end
