(* ===== verification/Zc_Script_Verify.thy ===== *)
theory Zc_Script_Verify
  imports Zc_Interpreter "HOL-Library.Sublist"
begin

text \<open>
  What script verification accepts: verification flags only restrict (soft-fork safety),
  \<^verbatim>\<open>CHECKMULTISIG\<close> decides the existence of an order-preserving matching of signatures to keys, and the
  pay-to-pubkey-hash and pay-to-script-hash templates accept exactly the intended spends.
\<close>

unbundle bit_operations_syntax

section \<open>Flags only restrict\<close>

definition flags_le :: "u32 \<Rightarrow> u32 \<Rightarrow> bool" where
  "flags_le f g \<longleftrightarrow> f AND g = f"

text \<open>The one flag that is not monotone: \<^verbatim>\<open>DISCOURAGE_UPGRADABLE_NOPS\<close> without \<^verbatim>\<open>CHECKLOCKTIMEVERIFY\<close>
  rejects the opcode that the second flag enables.\<close>

definition nops_safe :: "u32 \<Rightarrow> bool" where
  "nops_safe f \<longleftrightarrow> has_flag f SCRIPT_VERIFY_DISCOURAGE_UPGRADABLE_NOPS \<longrightarrow>
     has_flag f SCRIPT_VERIFY_CHECKLOCKTIMEVERIFY"

lemma has_flag_mono: "flags_le f g \<Longrightarrow> has_flag f x \<Longrightarrow> has_flag g x"
proof -
  assume "flags_le f g" "has_flag f x"
  then have "f AND (g AND x) \<noteq> 0" by (simp add: flags_le_def has_flag_def flip: and.assoc)
  then show "has_flag g x" by (auto simp: has_flag_def)
qed

definition ctx_le :: "eval_ctx \<Rightarrow> eval_ctx \<Rightarrow> bool" where
  "ctx_le c d \<longleftrightarrow> flags_le (c_flags c) (c_flags d) \<and> nops_safe (c_flags c) \<and>
     d = c\<lparr>c_flags := c_flags d\<rparr>"

lemma ctx_le_simps:
  assumes "ctx_le c d"
  shows "c_checker d = c_checker c" "c_script d = c_script c" "c_branch d = c_branch c"
  using assms unfolding ctx_le_def by (metis eval_ctx.select_convs eval_ctx.surjective eval_ctx.update_convs)+

lemma ctx_le_flag: "ctx_le c d \<Longrightarrow> has_flag (c_flags c) x \<Longrightarrow> has_flag (c_flags d) x"
  using has_flag_mono unfolding ctx_le_def by blast

lemma rle_iff: "rle r s \<longleftrightarrow> (\<forall>x. r = Inr x \<longrightarrow> s = Inr x)"
  by (rule rle_def)

lemma fRequireMinimal_le: "ctx_le c d \<Longrightarrow> fRequireMinimal c \<Longrightarrow> fRequireMinimal d"
  unfolding fRequireMinimal_def by (rule ctx_le_flag)

lemma stack_num_le [rle_rules]: "ctx_le c d \<Longrightarrow> rle (stack_num d n v) (stack_num c n v)"
  using fRequireMinimal_le [of c d]
  by (auto simp: rle_def stack_num_def CScriptNum_def split: sum.splits if_splits)

lemma CheckSignatureEncoding_le [rle_rules]:
  "ctx_le c d \<Longrightarrow> rle (CheckSignatureEncoding d v) (CheckSignatureEncoding c v)"
  using ctx_le_flag [of c d] ctx_le_simps [of c d]
  by (auto simp: rle_def CheckSignatureEncoding_def rbind_eq_Inr split: if_splits)

lemma CheckPubKeyEncoding_le [rle_rules]:
  "ctx_le c d \<Longrightarrow> rle (CheckPubKeyEncoding d v) (CheckPubKeyEncoding c v)"
  using ctx_le_flag [of c d] by (auto simp: rle_def CheckPubKeyEncoding_def split: if_splits)

lemma check_one_le [rle_rules]: "ctx_le c d \<Longrightarrow> rle (check_one d s k) (check_one c s k)"
  unfolding check_one_def by (simp add: ctx_le_simps) (intro rle_rules)

lemma multisig_loop_le [rle_rules]: "ctx_le c d \<Longrightarrow> rle (multisig_loop d sigs keys) (multisig_loop c sigs keys)"
proof (induction c sigs keys rule: multisig_loop.induct)
  case (3 c sig sigs k keys)
  show ?case unfolding multisig_loop.simps Let_def
    by (intro rle_bind rle_if check_one_le 3 rle_refl) simp_all
qed (simp_all add: rle_refl)

lemma op_control_le [rle_rules]:
  assumes "ctx_le c d"
  shows "rle (op_checklocktime d st) (op_checklocktime c st)" "rle (op_upgradable_nop d st) (op_upgradable_nop c st)"
proof -
  show "rle (op_upgradable_nop d st) (op_upgradable_nop c st)"
    using ctx_le_flag [OF assms] by (auto simp: op_upgradable_nop_def rle_def)
  show "rle (op_checklocktime d st) (op_checklocktime c st)"
  proof (cases "has_flag (c_flags c) SCRIPT_VERIFY_CHECKLOCKTIMEVERIFY")
    case True
    then show ?thesis using ctx_le_flag [OF assms True] assms
      by (auto simp: op_checklocktime_def ctx_le_simps [OF assms] split: list.split intro!: rle_rules)
  next
    case False
    then have "op_checklocktime c st = Inr st"
      using assms by (auto simp: op_checklocktime_def ctx_le_def nops_safe_def)
    moreover have "rpost (\<lambda>st'. st' = st) (op_checklocktime d st)"
      unfolding op_checklocktime_def by (auto split: list.split intro!: rpost_rules)
    ultimately show ?thesis by (auto simp: rle_def rpost_def)
  qed
qed

lemma op_numeric_le [rle_rules]:
  assumes "ctx_le c d"
  shows "rle (op_pick_roll d opcode st) (op_pick_roll c opcode st)" "rle (op_unary d opcode st) (op_unary c opcode st)"
    "rle (op_binary d opcode st) (op_binary c opcode st)" "rle (op_within d st) (op_within c st)"
  using assms unfolding op_pick_roll_def op_unary_def op_binary_def op_within_def
  by (auto split: list.split intro!: rle_rules)

lemma op_crypto_le [rle_rules]:
  assumes "ctx_le c d"
  shows "rle (op_checksig d opcode st) (op_checksig c opcode st)"
  using assms unfolding op_checksig_def by (auto split: list.split intro!: rle_rules)

lemma rle_if_drop:
  "(b \<Longrightarrow> a) \<Longrightarrow> rle r s \<Longrightarrow> rle (if a then Inl e else r) (if b then Inl e' else s)"
  by (auto simp: rle_def)

lemma op_checkmultisig_le [rle_rules]:
  assumes "ctx_le c d"
  shows "rle (op_checkmultisig d opcode st) (op_checkmultisig c opcode st)"
  unfolding op_checkmultisig_def Let_def
  by (intro rle_if rle_bind rle_refl stack_num_le assms multisig_loop_le rle_if_drop) (use ctx_le_flag [OF assms] in auto)

lemma exec_opcode_le [rle_rules]:
  "ctx_le c d \<Longrightarrow> rle (exec_opcode d opcode fExec st) (exec_opcode c opcode fExec st)"
  unfolding exec_opcode_def by (intro rle_rules)

lemma eval_step_le:
  assumes "ctx_le c d"
  shows "rle (eval_step d opcode v st) (eval_step c opcode v st)"
  unfolding eval_step_def Let_def
  by (intro rle_if rle_bind rle_refl exec_opcode_le assms rle_if_drop) (use fRequireMinimal_le [OF assms] in auto)

lemma eval_loop_le: "ctx_le c d \<Longrightarrow> rle (eval_loop d pc st) (eval_loop c pc st)"
proof (induction c pc st rule: eval_loop.induct)
  case (1 c pc st)
  show ?case
  proof (cases "pc = []")
    case True
    then show ?thesis by (simp add: eval_loop.simps rle_refl)
  next
    case False
    then show ?thesis using 1 eval_step_le [OF 1(2)]
      by (subst (1 2) eval_loop.simps) (auto simp: rle_def split: option.splits sum.splits)
  qed
qed

lemma EvalScript_le:
  assumes "flags_le f g" "nops_safe f"
  shows "rle (EvalScript stk s g chk br) (EvalScript stk s f chk br)"
proof -
  have "ctx_le \<lparr>c_script = s, c_flags = f, c_checker = chk, c_branch = br\<rparr>
          \<lparr>c_script = s, c_flags = g, c_checker = chk, c_branch = br\<rparr>"
    using assms by (simp add: ctx_le_def)
  then show ?thesis unfolding EvalScript_def by (intro rle_if rle_bind rle_refl eval_loop_le)
qed

text \<open>C24: Soft-fork safety of the verification flags: adding flags never makes a script pair valid.  If
  \<^verbatim>\<open>VerifyScript\<close> accepts under flags \<open>g\<close>, it accepts under every subset \<open>f\<close> that does not use
  \<^verbatim>\<open>DISCOURAGE_UPGRADABLE_NOPS\<close> without \<^verbatim>\<open>CHECKLOCKTIMEVERIFY\<close>, nor \<^verbatim>\<open>CLEANSTACK\<close> without \<^verbatim>\<open>P2SH\<close> (which
  the code asserts).\<close>

theorem VerifyScript_softfork:
  assumes "flags_le f g" "nops_safe f"
    and "has_flag f SCRIPT_VERIFY_CLEANSTACK \<longrightarrow> has_flag f SCRIPT_VERIFY_P2SH"
    and "VerifyScript sSig sPubKey g checker branch = Inr ()"
  shows "VerifyScript sSig sPubKey f checker branch = Inr ()"
proof -
  note mono = has_flag_mono [OF assms(1)]
  note ev = EvalScript_le [OF assms(1,2), THEN rleD]
  obtain sc stk where push: "has_flag g SCRIPT_VERIFY_SIGPUSHONLY \<Longrightarrow> IsPushOnly sSig"
    and sc: "EvalScript [] sSig g checker branch = Inr sc"
    and stk: "EvalScript sc sPubKey g checker branch = Inr stk" and tr: "eval_true stk = Inr ()"
    using assms(4) unfolding VerifyScript_def by (auto simp: rbind_eq_Inr split: if_splits)
  show ?thesis
  proof (cases "has_flag g SCRIPT_VERIFY_P2SH \<and> IsPayToScriptHash sPubKey")
    case False
    then show ?thesis using assms(3,4) mono push sc stk tr ev [OF sc] ev [OF stk]
      by (auto simp: VerifyScript_def split: if_splits)
  next
    case True
    obtain s2 rest stk3 where c: "sc = s2 # rest" "IsPushOnly sSig"
      and e3: "EvalScript rest s2 g checker branch = Inr stk3" and tr3: "eval_true stk3 = Inr ()"
      and cl: "has_flag g SCRIPT_VERIFY_CLEANSTACK \<Longrightarrow> length stk3 = 1"
      using assms(4) True sc stk tr by (cases sc) (auto simp: VerifyScript_def rbind_eq_Inr split: if_splits)
    show ?thesis
      using True assms(3) mono sc stk tr ev [OF sc] ev [OF stk] ev [OF e3] c tr3 cl
      by (simp add: VerifyScript_def)
  qed
qed

section \<open>Runs of pushes\<close>

text \<open>Data that \<^verbatim>\<open>operator<<\<close> pushes in the minimal way: everything but the single bytes that have an
  opcode of their own.\<close>

definition push_minimal :: "bytes \<Rightarrow> bool" where
  "push_minimal v \<longleftrightarrow> \<not> (length v = 1 \<and> (1 \<le> v ! 0 \<and> v ! 0 \<le> 16 \<or> v ! 0 = 0x81))"

lemma GetOp_hd: "GetOp pc = Some (opcode, v, rest) \<Longrightarrow> opcode = hd pc"
  by (auto simp: GetOp_def Let_def split: list.splits if_splits option.splits)

lemma GetOp_push_minimal:
  assumes "length v \<le> MAX_SCRIPT_ELEMENT_SIZE" "push_minimal v"
  shows "\<exists>opcode. GetOp (push_vch v @ rest) = Some (opcode, v, rest) \<and> opcode \<le> OP_PUSHDATA4 \<and>
           CheckMinimalPush v opcode"
proof -
  have l: "length v < 2 ^ 32" using assms(1) by (simp add: MAX_SCRIPT_ELEMENT_SIZE_def)
  obtain opcode where o: "GetOp (push_vch v @ rest) = Some (opcode, v, rest)" "opcode \<le> OP_PUSHDATA4"
    using GetOp_push_vch [OF l] by blast
  have "opcode = hd (push_vch v @ rest)"
    using o(1) by (rule GetOp_hd)
  also have "\<dots> = (if length v < 76 then of_nat (length v) else if length v \<le> 255 then OP_PUSHDATA1 else OP_PUSHDATA2)"
    using assms(1) by (simp add: push_vch_def MAX_SCRIPT_ELEMENT_SIZE_def)
  finally have op: "opcode = (if length v < 76 then of_nat (length v) else if length v \<le> 255 then OP_PUSHDATA1 else OP_PUSHDATA2)" .
  have "unat (of_nat (length v) :: byte) = length v" if "length v < 76"
    using that by (simp add: unat_of_nat_byte)
  then have "CheckMinimalPush v opcode"
    using assms unfolding op CheckMinimalPush_def push_minimal_def MAX_SCRIPT_ELEMENT_SIZE_def
    by auto
  with o show ?thesis by blast
qed

definition pushable :: "u32 \<Rightarrow> bytes \<Rightarrow> bool" where
  "pushable flags v \<longleftrightarrow> length v \<le> MAX_SCRIPT_ELEMENT_SIZE \<and>
     (has_flag flags SCRIPT_VERIFY_MINIMALDATA \<longrightarrow> push_minimal v)"

lemma eval_loop_push:
  assumes "pushable (c_flags c) v" "vfExec st = []" "length (stack st) + length (altstack st) < 1000"
  shows "eval_loop c (push_vch v @ rest) st = eval_loop c rest (st\<lparr>stack := v # stack st\<rparr>)"
proof -
  have l: "length v \<le> MAX_SCRIPT_ELEMENT_SIZE" "length v < 2 ^ 32"
    using assms(1) by (auto simp: pushable_def MAX_SCRIPT_ELEMENT_SIZE_def)
  have "\<exists>opcode. GetOp (push_vch v @ rest) = Some (opcode, v, rest) \<and> opcode \<le> OP_PUSHDATA4 \<and>
           (fRequireMinimal c \<longrightarrow> CheckMinimalPush v opcode)"
    using GetOp_push_minimal [OF l(1)] GetOp_push_vch [OF l(2)] assms(1)
    unfolding pushable_def fRequireMinimal_def by blast
  then obtain opcode where o: "GetOp (push_vch v @ rest) = Some (opcode, v, rest)" "opcode \<le> OP_PUSHDATA4"
    "fRequireMinimal c \<longrightarrow> CheckMinimalPush v opcode" by blast
  have n: "\<not> OP_16 < opcode" "\<not> disabled_opcode opcode"
    using o(2) by (auto simp: disabled_opcode_def word_le_nat_alt word_less_nat_alt)
  have "eval_step c opcode v st = Inr (st\<lparr>stack := v # stack st\<rparr>)"
    using l n o(2,3) assms(2,3) by (simp add: eval_step_def Let_def not_less)
  then show ?thesis using o(1) by (subst eval_loop.simps) simp
qed

lemma eval_loop_pushes:
  assumes "\<forall>v \<in> set vs. pushable (c_flags c) v" "vfExec st = []"
    and "length (stack st) + length vs + length (altstack st) \<le> 1000"
  shows "eval_loop c (concat (map push_vch vs) @ rest) st = eval_loop c rest (st\<lparr>stack := rev vs @ stack st\<rparr>)"
  using assms
proof (induction vs arbitrary: st)
  case (Cons v vs)
  then show ?case by (simp add: eval_loop_push)
qed simp

lemma EvalScript_pushes:
  assumes "\<forall>v \<in> set vs. pushable flags v" "length vs \<le> 1000" "length (concat (map push_vch vs)) \<le> MAX_SCRIPT_SIZE"
  shows "EvalScript [] (concat (map push_vch vs)) flags checker branch = Inr (rev vs)"
  using assms eval_loop_pushes [of vs _ _ "[]"]
  by (simp add: EvalScript_def not_less) (simp add: eval_loop.simps)

section \<open>Running single opcodes\<close>

lemma eval_loop_opcode:
  assumes "OP_16 < opcode" "\<not> disabled_opcode opcode" "vfExec st = []" "nOpCount st < 201"
  shows "eval_loop c (opcode # rest) st =
     rbind (rbind (exec_opcode c opcode True (st\<lparr>nOpCount := nOpCount st + 1\<rparr>)) (\<lambda>st'.
        if 1000 < length (stack st') + length (altstack st') then Inl SCRIPT_ERR_STACK_SIZE else Inr st'))
      (eval_loop c rest)"
proof -
  have n: "\<not> opcode \<le> OP_PUSHDATA4" "OP_PUSHDATA4 < opcode"
    using assms(1) by (auto simp: word_le_nat_alt word_less_nat_alt)
  have "GetOp (opcode # rest) = Some (opcode, [], rest)" using n(2) by (rule GetOp_opcode)
  then show ?thesis using assms n(1)
    by (subst eval_loop.simps) (simp add: eval_step_def Let_def MAX_SCRIPT_ELEMENT_SIZE_def rbind_def)
qed

lemma eval_loop_Nil [simp]: "eval_loop c [] st = Inr st"
  by (simp add: eval_loop.simps)

lemmas run_opcode = eval_loop_opcode disabled_opcode_def exec_opcode_def

text \<open>\<^verbatim>\<open>OP_HASH160 <h> OP_EQUAL\<close> and \<^verbatim>\<open>OP_DUP OP_HASH160 <h> OP_EQUALVERIFY OP_CHECKSIG\<close>.\<close>

lemma pushable_20: "length h = 20 \<Longrightarrow> pushable flags h"
  by (simp add: pushable_def push_minimal_def MAX_SCRIPT_ELEMENT_SIZE_def)

lemma EvalScript_P2SH:
  assumes "length stk < 999"
  shows "EvalScript (v # stk) (GetScriptForDestination (CScriptID h)) flags checker branch =
     Inr (vch_bool (Hash160 v = h) # stk)"
proof -
  have eq: "(hash_value OP_HASH160 v = uint160_bytes h) = (Hash160 v = h)"
    unfolding hash_value_Hash160 by (metis uint160_of_bytes)
  have s: "GetScriptForDestination (CScriptID h) = OP_HASH160 # (push_vch (uint160_bytes h) @ [OP_EQUAL])"
    by (simp add: GetScriptForDestination_def)
  have l: "length (push_vch (uint160_bytes h)) = 21" by (simp add: push_vch_20)
  show ?thesis using assms
    unfolding EvalScript_def s
    by (simp add: run_opcode op_hash_def eval_loop_push pushable_20 op_equal_def eq l MAX_SCRIPT_SIZE_def)
qed

text \<open>The context in which \<^verbatim>\<open>EvalScript\<close> runs.\<close>

abbreviation "eval_context script flags checker branch \<equiv>
  \<lparr>c_script = script, c_flags = flags, c_checker = checker, c_branch = branch\<rparr>"

lemma EvalScript_P2PKH:
  assumes "length stk < 997"
  shows "EvalScript (vchPubKey # vchSig # stk) (GetScriptForDestination (CKeyID h)) flags checker branch =
     (if Hash160 vchPubKey = h
      then rbind (check_one (eval_context (GetScriptForDestination (CKeyID h)) flags checker branch) vchSig vchPubKey)
             (\<lambda>ok. Inr (vch_bool ok # stk))
      else Inl SCRIPT_ERR_EQUALVERIFY)"
proof -
  have eq: "(hash_value OP_HASH160 v = uint160_bytes h) = (Hash160 v = h)" for v
    unfolding hash_value_Hash160 by (metis uint160_of_bytes)
  define s where "s = GetScriptForDestination (CKeyID h)"
  have l: "length (push_vch (uint160_bytes h)) = 21" by (simp add: push_vch_20)
  have s: "s = OP_DUP # OP_HASH160 # (push_vch (uint160_bytes h) @ [OP_EQUALVERIFY, OP_CHECKSIG])" "length s = 25"
    by (simp_all add: s_def GetScriptForDestination_def l)
  have "eval_loop c s \<lparr>stack = vchPubKey # vchSig # stk, altstack = [], vfExec = [], nOpCount = 0\<rparr> =
      (if Hash160 vchPubKey = h
       then rbind (check_one c vchSig vchPubKey) (\<lambda>ok.
         Inr \<lparr>stack = vch_bool ok # stk, altstack = [], vfExec = [], nOpCount = 4\<rparr>)
       else Inl SCRIPT_ERR_EQUALVERIFY)" for c
    unfolding s(1) using assms
    by (cases "check_one c vchSig vchPubKey")
      (simp_all add: run_opcode op_stack_def stack_shuffle_def op_hash_def eval_loop_push pushable_20 op_equal_def
        eq op_checksig_def)
  then show ?thesis unfolding s_def [symmetric] EvalScript_def using s(2)
    by (auto simp: MAX_SCRIPT_SIZE_def rbind_def split: sum.split)
qed

section \<open>Spending the standard templates\<close>

lemma length_push_vch: "length v \<le> MAX_SCRIPT_ELEMENT_SIZE \<Longrightarrow> length (push_vch v) \<le> 525"
  by (simp add: push_vch_def MAX_SCRIPT_ELEMENT_SIZE_def)

lemma IsPushOnly_pushes:
  assumes "\<forall>v \<in> set vs. pushable flags v"
  shows "IsPushOnly (concat (map push_vch vs))"
  using assms
proof (induction vs)
  case (Cons v vs)
  then have "length v < 2 ^ 32" by (auto simp: pushable_def MAX_SCRIPT_ELEMENT_SIZE_def)
  then show ?case using Cons by simp
qed (simp add: IsPushOnly.simps)

lemma eval_true_bool [simp]: "eval_true (vch_bool b # stk) = Inr () \<longleftrightarrow> b"
  by (simp add: eval_true_def vch_bool_def vchTrue_def vchFalse_def)

text \<open>C27: Spending a pay-to-pubkey-hash output with a signature and a key: \<^verbatim>\<open>VerifyScript\<close> accepts exactly
  when the key hashes to the destination and the signature check on the whole output script succeeds, with
  the encodings the flags demand.\<close>

theorem VerifyScript_P2PKH:
  assumes "pushable flags vchSig" "pushable flags vchPubKey"
    and "has_flag flags SCRIPT_VERIFY_CLEANSTACK \<longrightarrow> has_flag flags SCRIPT_VERIFY_P2SH"
    and spk: "spk = GetScriptForDestination (CKeyID h)"
  shows "VerifyScript (push_vch vchSig @ push_vch vchPubKey) spk flags checker branch = Inr () \<longleftrightarrow>
     Hash160 vchPubKey = h \<and> check_one (eval_context spk flags checker branch) vchSig vchPubKey = Inr True"
proof -
  let ?vs = "[vchSig, vchPubKey]"
  have l: "length (push_vch vchSig) \<le> 525" "length (push_vch vchPubKey) \<le> 525"
    using assms(1,2) by (simp_all add: pushable_def length_push_vch)
  have e1: "EvalScript [] (push_vch vchSig @ push_vch vchPubKey) flags checker branch = Inr [vchPubKey, vchSig]"
    using EvalScript_pushes [of ?vs flags checker branch] assms(1,2) l by (simp add: MAX_SCRIPT_SIZE_def)
  have po: "IsPushOnly (push_vch vchSig @ push_vch vchPubKey)"
    using IsPushOnly_pushes [of ?vs flags] assms(1,2) by simp
  have p2: "\<not> IsPayToScriptHash spk"
    using P2PKH_script(2) [of "uint160_bytes h"] by (simp add: spk GetScriptForDestination_def)
  show ?thesis
    using e1 po p2 assms(3) EvalScript_P2PKH [of "[]" vchPubKey vchSig h flags checker branch]
    by (cases "check_one (eval_context spk flags checker branch) vchSig vchPubKey")
      (auto simp: VerifyScript_def spk [symmetric] rbind_eq_Inr [of "eval_true _"])
qed

text \<open>C28: Spending a pay-to-script-hash output by pushing arguments and a redeem script: \<^verbatim>\<open>VerifyScript\<close>
  accepts exactly when the redeem script hashes to the destination and evaluates to true on the pushed
  arguments, leaving one element if \<^verbatim>\<open>CLEANSTACK\<close> is on.\<close>

theorem VerifyScript_P2SH:
  assumes "\<forall>v \<in> set (args @ [redeem]). pushable flags v" "length args < 999"
    and "length (concat (map push_vch (args @ [redeem]))) \<le> MAX_SCRIPT_SIZE"
    and "has_flag flags SCRIPT_VERIFY_P2SH"
  shows "VerifyScript (concat (map push_vch (args @ [redeem]))) (GetScriptForDestination (CScriptID h)) flags checker branch
       = Inr () \<longleftrightarrow>
     Hash160 redeem = h \<and>
     (\<exists>stk. EvalScript (rev args) redeem flags checker branch = Inr stk \<and> eval_true stk = Inr () \<and>
        (has_flag flags SCRIPT_VERIFY_CLEANSTACK \<longrightarrow> length stk = 1))"
proof -
  let ?sig = "concat (map push_vch (args @ [redeem]))"
  have e1: "EvalScript [] ?sig flags checker branch = Inr (redeem # rev args)"
    using EvalScript_pushes [of "args @ [redeem]" flags checker branch] assms(1,2,3) by simp
  have e2: "EvalScript (redeem # rev args) (GetScriptForDestination (CScriptID h)) flags checker branch =
      Inr (vch_bool (Hash160 redeem = h) # rev args)"
    using assms(2) by (intro EvalScript_P2SH) simp
  have po: "IsPushOnly ?sig" using IsPushOnly_pushes assms(1) by blast
  have p2: "IsPayToScriptHash (GetScriptForDestination (CScriptID h))"
    using P2SH_script(1) [of "uint160_bytes h"] by (simp add: GetScriptForDestination_def)
  show ?thesis
    unfolding VerifyScript_def e1 using e2 po p2 assms(4)
    by (auto simp: rbind_eq_Inr split: if_splits)
qed

section \<open>CHECKMULTISIG\<close>

text \<open>Matching greedily is enough: a signature that checks against the first key may be matched with it.\<close>

lemma list_emb_greedy:
  assumes "P s k"
  shows "list_emb P (s # ss) (k # ks) \<longleftrightarrow> list_emb P ss ks"
proof
  assume "list_emb P (s # ss) (k # ks)"
  then show "list_emb P ss ks"
    by (auto elim!: list_emb.cases [of P "s # ss" "k # ks"] dest: list_emb_ConsD list_emb_append2)
qed (auto intro: list_emb_Cons2 assms)

lemma multisig_loop_matching:
  assumes "\<And>s k. s \<in> set sigs \<Longrightarrow> k \<in> set keys \<Longrightarrow> check_one c s k = Inr (ok s k)"
  shows "multisig_loop c sigs keys = Inr (list_emb ok sigs keys)"
  using assms
proof (induction c sigs keys rule: multisig_loop.induct)
  case (3 c sig sigs k keys)
  let ?sigs' = "if ok sig k then sigs else sig # sigs"
  have emb: "list_emb ok (sig # sigs) (k # keys) = list_emb ok ?sigs' keys"
    using list_emb_greedy [of ok sig k sigs keys] by (auto elim: list_emb.cases)
  have c: "check_one c sig k = Inr (ok sig k)" using 3(2) by simp
  show ?case
  proof (cases "length keys < length ?sigs'")
    case True
    then have "\<not> list_emb ok ?sigs' keys" using list_emb_length by fastforce
    then show ?thesis using True c emb by (simp add: Let_def)
  next
    case False
    have "multisig_loop c ?sigs' keys = Inr (list_emb ok ?sigs' keys)"
      using False 3(2) by (intro 3(1)) (auto split: if_splits)
    then show ?thesis using False c emb by (simp add: Let_def)
  qed
qed simp_all

lemma abs_bytes_1: "0 < n \<Longrightarrow> n < 256 \<Longrightarrow> abs_bytes n = [of_nat n]"
  by (subst abs_bytes.simps) simp

lemma length_serialize_small: "n < 128 \<Longrightarrow> length (CScriptNum_serialize (int n)) \<le> 1"
proof (cases "n = 0")
  case False
  assume "n < 128"
  then show ?thesis using False
    by (simp add: CScriptNum_serialize_def abs_bytes_1 byte_high unat_of_nat_byte)
qed (simp add: CScriptNum_serialize_def)

lemma stack_num_small:
  assumes "n \<le> 20"
  shows "stack_num c 4 (CScriptNum_serialize (int n)) = Inr (int n)"
proof -
  have "CScriptNum (CScriptNum_serialize (int n)) True 4 = Inr (int n)"
    using assms length_serialize_small [of n] by (subst CScriptNum_serialize_iff) (simp add: int64_range_def)
  then have "CScriptNum (CScriptNum_serialize (int n)) b 4 = Inr (int n)" for b
    by (cases b) (auto simp: CScriptNum_def split: if_splits)
  then show ?thesis by (simp add: stack_num_def)
qed

text \<open>C26: \<^verbatim>\<open>OP_CHECKMULTISIG\<close> on \<open>n\<close> keys and \<open>m\<close> signatures whose encodings pass replaces its arguments, the
  extra element included, by true exactly when the signatures can be matched, in order, to some of the
  keys; the operation count grows by \<open>n\<close>.  Greedy matching from the top of the stack loses nothing.\<close>

theorem op_checkmultisig_matching:
  assumes "length keys \<le> 20" "length sigs \<le> length keys" "nOpCount st + int (length keys) \<le> 201"
    and "stack st = CScriptNum_serialize (int (length keys)) # keys @
           CScriptNum_serialize (int (length sigs)) # sigs @ dummy # rest"
    and "has_flag (c_flags c) SCRIPT_VERIFY_NULLDUMMY \<longrightarrow> dummy = []"
    and "\<forall>s \<in> set sigs. \<forall>k \<in> set keys. check_one c s k = Inr (ok s k)"
  shows "op_checkmultisig c OP_CHECKMULTISIG st =
     Inr (st\<lparr>stack := vch_bool (list_emb ok sigs keys) # rest, nOpCount := nOpCount st + int (length keys)\<rparr>)"
proof -
  have n: "stack_num c 4 (CScriptNum_serialize (int (length keys))) = Inr (int (length keys))"
    "stack_num c 4 (CScriptNum_serialize (int (length sigs))) = Inr (int (length sigs))"
    using assms(1,2) by (simp_all add: stack_num_small)
  have g: "CScriptNum_getint (int (length keys)) = int (length keys)"
    "CScriptNum_getint (int (length sigs)) = int (length sigs)"
    using assms(1,2) by (simp_all add: CScriptNum_getint_def)
  have "multisig_loop c sigs keys = Inr (list_emb ok sigs keys)"
    using assms(6) by (intro multisig_loop_matching) auto
  then show ?thesis
    using assms(1-3,5) by (simp add: op_checkmultisig_def assms(4) n g Let_def nth_append)
qed

section \<open>Witnesses\<close>

definition key_checker :: "bytes \<Rightarrow> signature_checker" where
  "key_checker key = \<lparr>CheckSig = (\<lambda>_ k _ _. Some (k = key)), CheckLockTime = (\<lambda>_. False), CheckLowS = (\<lambda>_. True)\<rparr>"

lemma check_one_key_checker:
  "check_one (eval_context s 0 (key_checker key) br) [] k = Inr (k = key)"
  by (simp add: check_one_def CheckSignatureEncoding_def CheckPubKeyEncoding_def has_flag_def key_checker_def)

lemma EvalScript_DUP_flags: "EvalScript [[7]] [OP_DUP] flags checker branch = Inr [[7], [7]]"
  by (simp add: EvalScript_def MAX_SCRIPT_SIZE_def run_opcode op_stack_def stack_shuffle_def)

lemma VerifyScript_push_7:
  "VerifyScript (push_vch [7, 7]) [] SCRIPT_VERIFY_MINIMALDATA (key_checker []) 0 = Inr ()"
proof -
  have "EvalScript [] (push_vch [7, 7]) SCRIPT_VERIFY_MINIMALDATA (key_checker []) 0 = Inr [[7, 7]]"
    using EvalScript_pushes [of "[[7, 7]]" SCRIPT_VERIFY_MINIMALDATA "key_checker []" 0]
    by (simp add: pushable_def push_minimal_def MAX_SCRIPT_ELEMENT_SIZE_def MAX_SCRIPT_SIZE_def push_vch_def)
  moreover have "EvalScript [[7, 7]] [] SCRIPT_VERIFY_MINIMALDATA (key_checker []) 0 = Inr [[7, 7]]"
    by (simp add: EvalScript_def)
  ultimately show ?thesis
    by (simp add: VerifyScript_def eval_true_def has_flag_def SCRIPT_VERIFY_MINIMALDATA_def
        SCRIPT_VERIFY_SIGPUSHONLY_def SCRIPT_VERIFY_P2SH_def SCRIPT_VERIFY_CLEANSTACK_def)
qed

theorem VerifyScript_softfork_witness:
  "VerifyScript (push_vch [7, 7]) [] 0 (key_checker []) 0 = Inr ()"
  by (rule VerifyScript_softfork [OF _ _ _ VerifyScript_push_7])
    (simp_all add: flags_le_def nops_safe_def has_flag_def)

theorem VerifyScript_P2PKH_witness:
  "VerifyScript (push_vch [] @ push_vch [2, 3]) (GetScriptForDestination (CKeyID (Hash160 [2, 3]))) 0
     (key_checker [2, 3]) 0 = Inr ()"
  by (subst VerifyScript_P2PKH [OF _ _ _ refl])
    (simp_all add: pushable_def push_minimal_def MAX_SCRIPT_ELEMENT_SIZE_def has_flag_def check_one_key_checker)

theorem VerifyScript_P2SH_witness:
  "VerifyScript (concat (map push_vch ([[7]] @ [[OP_DUP]]))) (GetScriptForDestination (CScriptID (Hash160 [OP_DUP])))
     SCRIPT_VERIFY_P2SH no_checker 0 = Inr ()"
  by (subst VerifyScript_P2SH)
    (simp_all add: pushable_def MAX_SCRIPT_ELEMENT_SIZE_def MAX_SCRIPT_SIZE_def push_vch_def has_flag_def
      SCRIPT_VERIFY_P2SH_def SCRIPT_VERIFY_MINIMALDATA_def SCRIPT_VERIFY_CLEANSTACK_def EvalScript_DUP_flags eval_true_def)

lemma check_one_3:
  "\<forall>s \<in> set [[] :: bytes]. \<forall>k \<in> set [[2], [3 :: byte]]. check_one (eval_context [] 0 (key_checker [3]) 0) s k = Inr (k = [3])"
  by (simp add: check_one_key_checker)

theorem op_checkmultisig_matching_witness:
  "op_checkmultisig (eval_context [] 0 (key_checker [3]) 0) OP_CHECKMULTISIG
     \<lparr>stack = CScriptNum_serialize 2 # [2] # [3] # CScriptNum_serialize 1 # [] # [] # [],
       altstack = [], vfExec = [], nOpCount = 1\<rparr> =
   Inr \<lparr>stack = [vchTrue], altstack = [], vfExec = [], nOpCount = 3\<rparr>"
proof -
  have "list_emb (\<lambda>_ k. k = [3]) [[]] [[2], [3 :: byte]]"
    by (rule list_emb_Cons, rule list_emb_Cons2) simp_all
  then show ?thesis
    using op_checkmultisig_matching [of "[[2], [3]]" "[[]]" "\<lparr>stack = CScriptNum_serialize 2 # [2] # [3] #
        CScriptNum_serialize 1 # [] # [] # [], altstack = [], vfExec = [], nOpCount = 1\<rparr>" "[]" "[]", OF _ _ _ _ _ check_one_3]
    by (simp add: vch_bool_def)
qed

end
