(* ===== verification/Zc_SigHash.thy ===== *)
theory Zc_SigHash
  imports Zc_Interpreter
begin

text \<open>
  Signature hashes and signature checking: the second half of \<^verbatim>\<open>src/script/interpreter.cpp\<close>
  (\<^verbatim>\<open>CTransactionSignatureSerializer\<close>, \<^verbatim>\<open>PrecomputedTransactionData\<close>, \<^verbatim>\<open>SignatureHash\<close>,
  \<^verbatim>\<open>TransactionSignatureChecker\<close>).  The personalised BLAKE2b hash of libsodium is the parameter \<open>blake\<close>, a
  function of the personalisation and of the concatenation of what is written; ECDSA verification is the
  parameter \<open>ecdsa\<close>.  The lemmas show that the cached hashes change nothing and that no signature is hashed.
\<close>

unbundle bit_operations_syntax

type_synonym blake2b = "bytes \<Rightarrow> bytes \<Rightarrow> uint256"

section \<open>Hashing the parts of a transaction\<close>

datatype SigVersion = SIGVERSION_SPROUT | SIGVERSION_OVERWINTER | SIGVERSION_SAPLING

text \<open>What \<^verbatim>\<open>SignatureHash\<close> can throw: two \<^verbatim>\<open>logic_error\<close>s, the failure of a serializer, a failed assert.\<close>

datatype sighash_error = InputOutOfRange | NoMatchingOutput | SerFailure ser_error | SigAssert

definition NOT_AN_INPUT :: u32 where "NOT_AN_INPUT = - 1"

definition personal :: "string \<Rightarrow> bytes" where
  "personal s = map of_char s"

definition ZCASH_PREVOUTS_HASH_PERSONALIZATION :: bytes where
  "ZCASH_PREVOUTS_HASH_PERSONALIZATION = personal ''ZcashPrevoutHash''"
definition ZCASH_SEQUENCE_HASH_PERSONALIZATION :: bytes where
  "ZCASH_SEQUENCE_HASH_PERSONALIZATION = personal ''ZcashSequencHash''"
definition ZCASH_OUTPUTS_HASH_PERSONALIZATION :: bytes where
  "ZCASH_OUTPUTS_HASH_PERSONALIZATION = personal ''ZcashOutputsHash''"
definition ZCASH_JOINSPLITS_HASH_PERSONALIZATION :: bytes where
  "ZCASH_JOINSPLITS_HASH_PERSONALIZATION = personal ''ZcashJSplitsHash''"
definition ZCASH_SHIELDED_SPENDS_HASH_PERSONALIZATION :: bytes where
  "ZCASH_SHIELDED_SPENDS_HASH_PERSONALIZATION = personal ''ZcashSSpendsHash''"
definition ZCASH_SHIELDED_OUTPUTS_HASH_PERSONALIZATION :: bytes where
  "ZCASH_SHIELDED_OUTPUTS_HASH_PERSONALIZATION = personal ''ZcashSOutputHash''"

definition GetPrevoutHash :: "blake2b \<Rightarrow> CTransaction \<Rightarrow> uint256" where
  "GetPrevoutHash blake tx = blake ZCASH_PREVOUTS_HASH_PERSONALIZATION
     (concat (map (\<lambda>i. Serialize_COutPoint (prevout i)) (vin tx)))"

definition GetSequenceHash :: "blake2b \<Rightarrow> CTransaction \<Rightarrow> uint256" where
  "GetSequenceHash blake tx = blake ZCASH_SEQUENCE_HASH_PERSONALIZATION
     (concat (map (\<lambda>i. ser_writedata32 (nSequence i)) (vin tx)))"

definition GetOutputsHash :: "blake2b \<Rightarrow> CTransaction \<Rightarrow> uint256" where
  "GetOutputsHash blake tx = blake ZCASH_OUTPUTS_HASH_PERSONALIZATION (concat (map Serialize_CTxOut (vout tx)))"

text \<open>The writer has the transaction header as its version, which selects the proof format.\<close>

definition joinsplit_bytes :: "CTransaction \<Rightarrow> ser_error + bytes" where
  "joinsplit_bytes tx =
     rbind (rtraverse (Serialize_JSDescription (useGroth (GetHeader tx))) (vJoinSplit tx)) (\<lambda>ds.
     Inr (concat ds @ Serialize_uint256 (joinSplitPubKey tx)))"

definition GetJoinSplitsHash :: "blake2b \<Rightarrow> CTransaction \<Rightarrow> ser_error + uint256" where
  "GetJoinSplitsHash blake tx =
     rbind (joinsplit_bytes tx) (\<lambda>b. Inr (blake ZCASH_JOINSPLITS_HASH_PERSONALIZATION b))"

definition spend_core :: "SpendDescription \<Rightarrow> bytes" where
  "spend_core d = Serialize_uint256 (sd_cv d) @ Serialize_uint256 (sd_anchor d) @
     Serialize_uint256 (sd_nullifier d) @ Serialize_uint256 (sd_rk d) @ Serialize_arr (sd_zkproof d)"

definition GetShieldedSpendsHash :: "blake2b \<Rightarrow> CTransaction \<Rightarrow> uint256" where
  "GetShieldedSpendsHash blake tx = blake ZCASH_SHIELDED_SPENDS_HASH_PERSONALIZATION
     (concat (map spend_core (vShieldedSpend tx)))"

definition GetShieldedOutputsHash :: "blake2b \<Rightarrow> CTransaction \<Rightarrow> uint256" where
  "GetShieldedOutputsHash blake tx = blake ZCASH_SHIELDED_OUTPUTS_HASH_PERSONALIZATION
     (concat (map Serialize_Output (vShieldedOutput tx)))"

record PrecomputedTransactionData =
  hashPrevouts :: uint256
  hashSequence :: uint256
  hashOutputs :: uint256
  hashJoinSplits :: uint256
  hashShieldedSpends :: uint256
  hashShieldedOutputs :: uint256

definition PrecomputedTransactionData_of :: "blake2b \<Rightarrow> CTransaction \<Rightarrow> ser_error + PrecomputedTransactionData" where
  "PrecomputedTransactionData_of blake tx =
     rbind (GetJoinSplitsHash blake tx) (\<lambda>js.
     Inr \<lparr>hashPrevouts = GetPrevoutHash blake tx, hashSequence = GetSequenceHash blake tx,
       hashOutputs = GetOutputsHash blake tx, hashJoinSplits = js,
       hashShieldedSpends = GetShieldedSpendsHash blake tx,
       hashShieldedOutputs = GetShieldedOutputsHash blake tx\<rparr>)"

definition SignatureHashVersion :: "CTransaction \<Rightarrow> SigVersion" where
  "SignatureHashVersion tx =
     (if fOverwintered tx then
        (if nVersionGroupId tx = SAPLING_VERSION_GROUP_ID then SIGVERSION_SAPLING else SIGVERSION_OVERWINTER)
      else SIGVERSION_SPROUT)"

section \<open>The Sprout serializer\<close>

definition fAnyoneCanPay :: "u32 \<Rightarrow> bool" where
  "fAnyoneCanPay nHashType \<longleftrightarrow> nHashType AND of_nat SIGHASH_ANYONECANPAY \<noteq> 0"

definition fHashSingle :: "u32 \<Rightarrow> bool" where
  "fHashSingle nHashType \<longleftrightarrow> nHashType AND 0x1f = of_nat SIGHASH_SINGLE"

definition fHashNone :: "u32 \<Rightarrow> bool" where
  "fHashNone nHashType \<longleftrightarrow> nHashType AND 0x1f = of_nat SIGHASH_NONE"

definition SerializeInput :: "CScript \<Rightarrow> CTransaction \<Rightarrow> u32 \<Rightarrow> u32 \<Rightarrow> nat \<Rightarrow> sighash_error + bytes" where
  "SerializeInput scriptCode tx nIn ht nInput0 =
     (let nInput = (if fAnyoneCanPay ht then nIn else of_nat nInput0); i = vin tx ! unat nInput in
      if nInput = NOT_AN_INPUT then Inl SigAssert
      else Inr (Serialize_COutPoint (prevout i) @
        (if nInput \<noteq> nIn then Serialize_bytes [] else Serialize_bytes scriptCode) @
        (if nInput \<noteq> nIn \<and> (fHashSingle ht \<or> fHashNone ht) then Serialize_int32 0
         else ser_writedata32 (nSequence i))))"

definition SerializeOutput :: "CTransaction \<Rightarrow> u32 \<Rightarrow> u32 \<Rightarrow> nat \<Rightarrow> bytes" where
  "SerializeOutput tx nIn ht nOutput =
     (if fHashSingle ht \<and> of_nat nOutput \<noteq> nIn then Serialize_CTxOut CTxOut_null
      else Serialize_CTxOut (vout tx ! nOutput))"

definition map_err :: "('e \<Rightarrow> 'f) \<Rightarrow> 'e + 'a \<Rightarrow> 'f + 'a" where
  "map_err f r = map_sum f id r"

text \<open>The writer has version 0, so JoinSplits are written in the format before Groth16.\<close>

definition CTransactionSignatureSerializer :: "CScript \<Rightarrow> CTransaction \<Rightarrow> u32 \<Rightarrow> u32 \<Rightarrow> sighash_error + bytes" where
  "CTransactionSignatureSerializer scriptCode tx nIn ht =
     (let nInputs = (if fAnyoneCanPay ht then 1 else length (vin tx));
          nOutputs = (if fHashNone ht then 0 else if fHashSingle ht then unat (nIn + 1) else length (vout tx))
      in rbind (rtraverse (SerializeInput scriptCode tx nIn ht) [0..<nInputs]) (\<lambda>ins.
         rbind (if 2 \<le> nVersion tx then
                  rbind (map_err SerFailure (Serialize_vJoinSplit (useGroth 0) (vJoinSplit tx))) (\<lambda>js.
                  Inr (js @ (if 0 < length (vJoinSplit tx)
                             then Serialize_uint256 (joinSplitPubKey tx) @ Serialize_arr (replicate 64 0) else [])))
                else Inr []) (\<lambda>js.
         Inr (Serialize_int32 (nVersion tx) @
           WriteCompactSize (of_nat nInputs) @ concat ins @
           WriteCompactSize (of_nat nOutputs) @ concat (map (SerializeOutput tx nIn ht) [0..<nOutputs]) @
           ser_writedata32 (nLockTime tx) @ js))))"

section \<open>SignatureHash\<close>

definition sighash_personal :: "u32 \<Rightarrow> bytes" where
  "sighash_personal consensusBranchId = personal ''ZcashSigHash'' @ ser_writedata32 consensusBranchId"

text \<open>A part hash: all zero when the part is not covered, from the cache when there is one.\<close>

definition covered :: "bool \<Rightarrow> 'c option \<Rightarrow> ('c \<Rightarrow> uint256) \<Rightarrow> uint256 \<Rightarrow> uint256" where
  "covered b cache sel h = (if b then (case cache of Some c \<Rightarrow> sel c | None \<Rightarrow> h) else 0)"

definition zip143_outputs :: "blake2b \<Rightarrow> CTransaction \<Rightarrow> u32 \<Rightarrow> u32 \<Rightarrow> PrecomputedTransactionData option \<Rightarrow> uint256" where
  "zip143_outputs blake tx nIn ht cache =
     (if \<not> fHashSingle ht \<and> \<not> fHashNone ht then covered True cache hashOutputs (GetOutputsHash blake tx)
      else if fHashSingle ht \<and> unat nIn < length (vout tx)
      then blake ZCASH_OUTPUTS_HASH_PERSONALIZATION (Serialize_CTxOut (vout tx ! unat nIn))
      else 0)"

definition zip143_joinsplits :: "blake2b \<Rightarrow> CTransaction \<Rightarrow> PrecomputedTransactionData option \<Rightarrow> ser_error + uint256" where
  "zip143_joinsplits blake tx cache =
     (if vJoinSplit tx = [] then Inr 0
      else case cache of Some c \<Rightarrow> Inr (hashJoinSplits c) | None \<Rightarrow> GetJoinSplitsHash blake tx)"

definition zip143_preimage ::
  "blake2b \<Rightarrow> CScript \<Rightarrow> CTransaction \<Rightarrow> u32 \<Rightarrow> u32 \<Rightarrow> int \<Rightarrow> PrecomputedTransactionData option \<Rightarrow> ser_error + bytes" where
  "zip143_preimage blake scriptCode tx nIn ht amount cache =
     rbind (zip143_joinsplits blake tx cache) (\<lambda>js.
     let sapling = (SignatureHashVersion tx = SIGVERSION_SAPLING) in
     Inr (ser_writedata32 (GetHeader tx) @ ser_writedata32 (nVersionGroupId tx) @
       Serialize_uint256 (covered (\<not> fAnyoneCanPay ht) cache hashPrevouts (GetPrevoutHash blake tx)) @
       Serialize_uint256 (covered (\<not> fAnyoneCanPay ht \<and> \<not> fHashSingle ht \<and> \<not> fHashNone ht) cache hashSequence
         (GetSequenceHash blake tx)) @
       Serialize_uint256 (zip143_outputs blake tx nIn ht cache) @
       Serialize_uint256 js @
       (if sapling then
          Serialize_uint256 (covered (vShieldedSpend tx \<noteq> []) cache hashShieldedSpends (GetShieldedSpendsHash blake tx)) @
          Serialize_uint256 (covered (vShieldedOutput tx \<noteq> []) cache hashShieldedOutputs (GetShieldedOutputsHash blake tx))
        else []) @
       ser_writedata32 (nLockTime tx) @ ser_writedata32 (nExpiryHeight tx) @
       (if sapling then Serialize_int64 (valueBalance tx) else []) @
       ser_writedata32 ht @
       (if nIn \<noteq> NOT_AN_INPUT then
          Serialize_COutPoint (prevout (vin tx ! unat nIn)) @ Serialize_bytes scriptCode @
          Serialize_int64 amount @ ser_writedata32 (nSequence (vin tx ! unat nIn))
        else [])))"

definition SignatureHash ::
  "blake2b \<Rightarrow> CScript \<Rightarrow> CTransaction \<Rightarrow> u32 \<Rightarrow> u32 \<Rightarrow> int \<Rightarrow> u32 \<Rightarrow> PrecomputedTransactionData option \<Rightarrow>
     sighash_error + uint256" where
  "SignatureHash blake scriptCode tx nIn ht amount consensusBranchId cache =
     (if length (vin tx) \<le> unat nIn \<and> nIn \<noteq> NOT_AN_INPUT then Inl InputOutOfRange
      else if SignatureHashVersion tx \<noteq> SIGVERSION_SPROUT then
        rbind (map_err SerFailure (zip143_preimage blake scriptCode tx nIn ht amount cache)) (\<lambda>p.
        Inr (blake (sighash_personal consensusBranchId) p))
      else if fHashSingle ht \<and> length (vout tx) \<le> unat nIn then Inl NoMatchingOutput
      else rbind (CTransactionSignatureSerializer scriptCode tx nIn ht) (\<lambda>b.
        Inr (SerializeHash [b, ser_writedata32 ht])))"

section \<open>Checking a signature\<close>

record TransactionSignatureChecker =
  txTo :: CTransaction
  sc_nIn :: u32
  sc_amount :: int
  txdata :: "PrecomputedTransactionData option"

text \<open>\<^verbatim>\<open>CheckSig\<close>: a \<^verbatim>\<open>logic_error\<close> is caught and is false; None is any other exception.\<close>

definition TransactionSignatureChecker_CheckSig ::
  "blake2b \<Rightarrow> (bytes \<Rightarrow> bytes \<Rightarrow> uint256 \<Rightarrow> bool) \<Rightarrow> TransactionSignatureChecker \<Rightarrow>
     bytes \<Rightarrow> bytes \<Rightarrow> CScript \<Rightarrow> u32 \<Rightarrow> bool option" where
  "TransactionSignatureChecker_CheckSig blake VerifySignature chk vchSigIn vchPubKey scriptCode consensusBranchId =
     (case CPubKey vchPubKey of None \<Rightarrow> Some False | Some pubkey \<Rightarrow>
      if vchSigIn = [] then Some False
      else case SignatureHash blake scriptCode (txTo chk) (sc_nIn chk) (ucast (last vchSigIn)) (sc_amount chk)
                  consensusBranchId (txdata chk) of
          Inl InputOutOfRange \<Rightarrow> Some False | Inl NoMatchingOutput \<Rightarrow> Some False | Inl _ \<Rightarrow> None
        | Inr sighash \<Rightarrow> Some (VerifySignature (butlast vchSigIn) pubkey sighash))"

definition LOCKTIME_THRESHOLD :: int where "LOCKTIME_THRESHOLD = 500000000"

definition TransactionSignatureChecker_CheckLockTime :: "TransactionSignatureChecker \<Rightarrow> int \<Rightarrow> bool" where
  "TransactionSignatureChecker_CheckLockTime chk n =
     (let t = int (unat (nLockTime (txTo chk))) in
      if \<not> ((t < LOCKTIME_THRESHOLD \<and> n < LOCKTIME_THRESHOLD) \<or> (LOCKTIME_THRESHOLD \<le> t \<and> LOCKTIME_THRESHOLD \<le> n))
      then False
      else if t < n then False
      else \<not> CTxIn_IsFinal (vin (txTo chk) ! unat (sc_nIn chk)))"

section \<open>The cache of part hashes\<close>

lemma covered_None: "covered b None sel h = (if b then h else 0)"
  by (simp add: covered_def)

text \<open>C32: The precomputed part hashes change nothing: with \<^verbatim>\<open>PrecomputedTransactionData(tx)\<close> as cache,
  \<^verbatim>\<open>SignatureHash\<close> returns what it returns without a cache, for every input, hash type and version.\<close>

theorem SignatureHash_cache:
  assumes "PrecomputedTransactionData_of blake tx = Inr cache"
  shows "SignatureHash blake scriptCode tx nIn ht amount branch (Some cache) =
         SignatureHash blake scriptCode tx nIn ht amount branch None"
proof -
  obtain js where js: "GetJoinSplitsHash blake tx = Inr js"
    "cache = \<lparr>hashPrevouts = GetPrevoutHash blake tx, hashSequence = GetSequenceHash blake tx,
       hashOutputs = GetOutputsHash blake tx, hashJoinSplits = js,
       hashShieldedSpends = GetShieldedSpendsHash blake tx,
       hashShieldedOutputs = GetShieldedOutputsHash blake tx\<rparr>"
    using assms by (auto simp: PrecomputedTransactionData_of_def rbind_eq_Inr)
  have e: "covered b (Some cache) hashPrevouts (GetPrevoutHash blake tx) = (if b then GetPrevoutHash blake tx else 0)"
    "covered b (Some cache) hashSequence (GetSequenceHash blake tx) = (if b then GetSequenceHash blake tx else 0)"
    "covered b (Some cache) hashShieldedSpends (GetShieldedSpendsHash blake tx) =
       (if b then GetShieldedSpendsHash blake tx else 0)"
    "covered b (Some cache) hashShieldedOutputs (GetShieldedOutputsHash blake tx) =
       (if b then GetShieldedOutputsHash blake tx else 0)"
    "zip143_outputs blake tx nIn ht (Some cache) = zip143_outputs blake tx nIn ht None"
    "zip143_joinsplits blake tx (Some cache) = zip143_joinsplits blake tx None" for b
    using js by (simp_all add: covered_def zip143_outputs_def zip143_joinsplits_def)
  have "zip143_preimage blake scriptCode tx nIn ht amount (Some cache) =
      zip143_preimage blake scriptCode tx nIn ht amount None"
    unfolding zip143_preimage_def by (simp only: e covered_None)
  then show ?thesis by (simp add: SignatureHash_def)
qed

definition fold_hash :: blake2b where
  "fold_hash p d = of_nat (le_to_nat d + length p)"

definition cached_tx :: CTransaction where
  "cached_tx = CTransaction0\<lparr>fOverwintered := True, nVersion := 4, nVersionGroupId := SAPLING_VERSION_GROUP_ID,
     vin := [\<lparr>prevout = COutPoint.make 5 1, scriptSig = [], nSequence = 3\<rparr>], vout := [\<lparr>nValue = 40, scriptPubKey = [0x51]\<rparr>]\<rparr>"

lemma cached_tx_joinsplits: "vJoinSplit cached_tx = []" "joinSplitPubKey cached_tx = 0"
  by (simp_all add: cached_tx_def CTransaction0_def CMutableTransaction0_def CMutableTransaction.extend_def)

theorem SignatureHash_cache_witness:
  "SignatureHash fold_hash [0x51] cached_tx 0 1 50 7
     (Some \<lparr>hashPrevouts = GetPrevoutHash fold_hash cached_tx, hashSequence = GetSequenceHash fold_hash cached_tx,
       hashOutputs = GetOutputsHash fold_hash cached_tx,
       hashJoinSplits = fold_hash ZCASH_JOINSPLITS_HASH_PERSONALIZATION (Serialize_uint256 0),
       hashShieldedSpends = GetShieldedSpendsHash fold_hash cached_tx,
       hashShieldedOutputs = GetShieldedOutputsHash fold_hash cached_tx\<rparr>) =
   SignatureHash fold_hash [0x51] cached_tx 0 1 50 7 None"
  by (rule SignatureHash_cache)
    (simp only: PrecomputedTransactionData_of_def GetJoinSplitsHash_def joinsplit_bytes_def cached_tx_joinsplits
      rtraverse.simps rbind_simps concat.simps append_Nil)

section \<open>Signatures are not hashed\<close>

definition unsigned_tx :: "CTransaction \<Rightarrow> CTransaction" where
  "unsigned_tx tx = tx\<lparr>vin := map (\<lambda>i. i\<lparr>scriptSig := []\<rparr>) (vin tx),
     vShieldedSpend := map (\<lambda>d. d\<lparr>spendAuthSig := []\<rparr>) (vShieldedSpend tx),
     joinSplitSig := [], bindingSig := []\<rparr>"

lemma unsigned_simps [simp]:
  "vin (unsigned_tx tx) = map (\<lambda>i. i\<lparr>scriptSig := []\<rparr>) (vin tx)"
  "vShieldedSpend (unsigned_tx tx) = map (\<lambda>d. d\<lparr>spendAuthSig := []\<rparr>) (vShieldedSpend tx)"
  "vout (unsigned_tx tx) = vout tx" "vJoinSplit (unsigned_tx tx) = vJoinSplit tx"
  "vShieldedOutput (unsigned_tx tx) = vShieldedOutput tx" "nVersion (unsigned_tx tx) = nVersion tx"
  "fOverwintered (unsigned_tx tx) = fOverwintered tx" "nVersionGroupId (unsigned_tx tx) = nVersionGroupId tx"
  "nLockTime (unsigned_tx tx) = nLockTime tx" "nExpiryHeight (unsigned_tx tx) = nExpiryHeight tx"
  "valueBalance (unsigned_tx tx) = valueBalance tx" "joinSplitPubKey (unsigned_tx tx) = joinSplitPubKey tx"
  by (simp_all add: unsigned_tx_def)

lemma spend_core_unsigned [simp]: "spend_core (d\<lparr>spendAuthSig := s\<rparr>) = spend_core d"
  by (simp add: spend_core_def)

lemma unsigned_hashes [simp]:
  "GetHeader (unsigned_tx tx) = GetHeader tx"
  "GetPrevoutHash blake (unsigned_tx tx) = GetPrevoutHash blake tx"
  "GetSequenceHash blake (unsigned_tx tx) = GetSequenceHash blake tx"
  "GetOutputsHash blake (unsigned_tx tx) = GetOutputsHash blake tx"
  "GetShieldedSpendsHash blake (unsigned_tx tx) = GetShieldedSpendsHash blake tx"
  "GetShieldedOutputsHash blake (unsigned_tx tx) = GetShieldedOutputsHash blake tx"
  "SignatureHashVersion (unsigned_tx tx) = SignatureHashVersion tx"
  "SerializeOutput (unsigned_tx tx) = SerializeOutput tx"
  by (simp_all add: GetHeader_def GetPrevoutHash_def GetSequenceHash_def GetOutputsHash_def GetShieldedSpendsHash_def
      GetShieldedOutputsHash_def SignatureHashVersion_def SerializeOutput_def fun_eq_iff comp_def)

lemma unsigned_joinsplits [simp]:
  "GetJoinSplitsHash blake (unsigned_tx tx) = GetJoinSplitsHash blake tx"
  "zip143_joinsplits blake (unsigned_tx tx) cache = zip143_joinsplits blake tx cache"
  "zip143_outputs blake (unsigned_tx tx) nIn ht cache = zip143_outputs blake tx nIn ht cache"
  by (simp_all add: GetJoinSplitsHash_def joinsplit_bytes_def zip143_joinsplits_def zip143_outputs_def split: option.split)

lemma rtraverse_cong: "(\<And>x. x \<in> set xs \<Longrightarrow> f x = g x) \<Longrightarrow> rtraverse f xs = rtraverse g xs"
  by (induction xs) simp_all

lemma SerializeInput_unsigned:
  assumes "fAnyoneCanPay ht \<Longrightarrow> unat nIn < length (vin tx) \<or> nIn = NOT_AN_INPUT"
    and "\<not> fAnyoneCanPay ht \<Longrightarrow> n < length (vin tx)"
  shows "SerializeInput code (unsigned_tx tx) nIn ht n = SerializeInput code tx nIn ht n"
proof -
  let ?n = "if fAnyoneCanPay ht then nIn else of_nat n"
  have le: "unat (of_nat n :: u32) \<le> n" by (simp add: unat_of_nat)
  have "?n = NOT_AN_INPUT \<or> unat ?n < length (vin tx)" using assms le by auto
  then show ?thesis by (auto simp: SerializeInput_def Let_def)
qed

text \<open>C33: No signature is signed: \<^verbatim>\<open>SignatureHash\<close> does not depend on the input scripts, the spend
  authorisation signatures, the JoinSplit signature or the binding signature of the transaction, in any
  version and under any hash type, so they can be filled in after signing.\<close>

theorem SignatureHash_unsigned:
  "SignatureHash blake scriptCode (unsigned_tx tx) nIn ht amount branch cache =
   SignatureHash blake scriptCode tx nIn ht amount branch cache"
proof (cases "length (vin tx) \<le> unat nIn \<and> nIn \<noteq> NOT_AN_INPUT")
  case True
  then show ?thesis by (simp add: SignatureHash_def)
next
  case False
  then have n: "unat nIn < length (vin tx) \<or> nIn = NOT_AN_INPUT" by auto
  have z: "zip143_preimage blake scriptCode (unsigned_tx tx) nIn ht amount cache =
      zip143_preimage blake scriptCode tx nIn ht amount cache"
    using n by (cases "nIn = NOT_AN_INPUT") (simp_all add: zip143_preimage_def Let_def)
  have r: "rtraverse (SerializeInput scriptCode (unsigned_tx tx) nIn ht) [0..<if fAnyoneCanPay ht then 1 else length (vin tx)] =
      rtraverse (SerializeInput scriptCode tx nIn ht) [0..<if fAnyoneCanPay ht then 1 else length (vin tx)]"
    using n by (intro rtraverse_cong SerializeInput_unsigned) auto
  have "CTransactionSignatureSerializer scriptCode (unsigned_tx tx) nIn ht =
      CTransactionSignatureSerializer scriptCode tx nIn ht"
    by (simp only: CTransactionSignatureSerializer_def Let_def unsigned_simps unsigned_hashes length_map r)
  with z show ?thesis by (simp add: SignatureHash_def)
qed


end
