(* ===== verification/Zc_SigHash_Binding.thy ===== *)
theory Zc_SigHash_Binding
  imports Zc_SigHash
begin

text \<open>
  What a Sapling signature hash commits to.  The inputs that one computation of \<^verbatim>\<open>SignatureHash\<close> gives to BLAKE2b
  are listed (\<open>sighash_queries\<close>); unless two different ones of two computations have one hash value, or one has
  the value zero, equal signature hashes mean equal transactions up to signatures.
\<close>

section \<open>What a signature hash binds\<close>

lemma concat_map_cancel:
  assumes "\<And>x y r s. P x \<Longrightarrow> P y \<Longrightarrow> f x @ r = f y @ s \<Longrightarrow> g x = g y \<and> r = s" "\<And>x. P x \<Longrightarrow> f x \<noteq> []"
    and "\<forall>x \<in> set xs \<union> set ys. P x" "concat (map f xs) = concat (map f ys)"
  shows "map g xs = map g ys"
  using assms(3,4)
proof (induction xs arbitrary: ys)
  case Nil
  then have "\<forall>y \<in> set ys. P y \<and> f y = []" by (simp add: eq_commute [of "[]"])
  then show ?case using assms(2) by (cases ys) (simp_all, blast)
next
  case (Cons x xs)
  have x: "P x" "f x \<noteq> []" using Cons.prems(1) assms(2) by simp_all
  then have "ys \<noteq> []" using Cons.prems(2) by (metis append_is_Nil_conv concat.simps list.map(1) list.map(2))
  then obtain y zs where ys: "ys = y # zs" by (cases ys) simp_all
  then have "g x = g y \<and> concat (map f xs) = concat (map f zs)"
    using Cons.prems x(1) by (intro assms(1)) simp_all
  then show ?case using Cons.IH [of zs] Cons.prems(1) ys by simp
qed

context codec
begin

lemma concat_enc_inject:
  assumes "\<And>a. ok a \<Longrightarrow> enc a \<noteq> []" "\<forall>x \<in> set xs \<union> set ys. ok x" "concat (map enc xs) = concat (map enc ys)"
  shows "xs = ys"
proof -
  have "map (\<lambda>x. x) xs = map (\<lambda>x. x) ys"
    by (rule concat_map_cancel [of ok enc, OF enc_inject assms])
  then show ?thesis by simp
qed

end

text \<open>The inputs that hashing a transaction gives to BLAKE2b for \<^verbatim>\<open>SIGHASH_ALL\<close>.\<close>

definition part_queries :: "CTransaction \<Rightarrow> (bytes \<times> bytes) list" where
  "part_queries tx =
     [(ZCASH_PREVOUTS_HASH_PERSONALIZATION, concat (map (\<lambda>i. Serialize_COutPoint (prevout i)) (vin tx))),
      (ZCASH_SEQUENCE_HASH_PERSONALIZATION, concat (map (\<lambda>i. ser_writedata32 (nSequence i)) (vin tx))),
      (ZCASH_OUTPUTS_HASH_PERSONALIZATION, concat (map Serialize_CTxOut (vout tx))),
      (ZCASH_SHIELDED_SPENDS_HASH_PERSONALIZATION, concat (map spend_core (vShieldedSpend tx))),
      (ZCASH_SHIELDED_OUTPUTS_HASH_PERSONALIZATION, concat (map Serialize_Output (vShieldedOutput tx)))] @
     (case joinsplit_bytes tx of Inl _ \<Rightarrow> [] | Inr b \<Rightarrow> [(ZCASH_JOINSPLITS_HASH_PERSONALIZATION, b)])"

definition sighash_queries :: "blake2b \<Rightarrow> CScript \<Rightarrow> CTransaction \<Rightarrow> u32 \<Rightarrow> int \<Rightarrow> u32 \<Rightarrow> (bytes \<times> bytes) list" where
  "sighash_queries blake code tx nIn amount branch = part_queries tx @
     (case zip143_preimage blake code tx nIn 1 amount None of Inl _ \<Rightarrow> [] | Inr p \<Rightarrow> [(sighash_personal branch, p)])"

text \<open>Two different inputs of one hash value, or an input hashed to zero, among the inputs of two hashings.\<close>

definition hash_failure :: "blake2b \<Rightarrow> (bytes \<times> bytes) list \<Rightarrow> (bytes \<times> bytes) list \<Rightarrow> bool" where
  "hash_failure blake Q R \<longleftrightarrow>
     (\<exists>q \<in> set (Q @ R). blake (fst q) (snd q) = 0) \<or>
     (\<exists>q \<in> set Q. \<exists>r \<in> set R. q \<noteq> r \<and> blake (fst q) (snd q) = blake (fst r) (snd r))"

definition sighash_wf :: "CTransaction \<Rightarrow> bool" where
  "sighash_wf tx \<longleftrightarrow> SignatureHashVersion tx = SIGVERSION_SAPLING \<and> int64_range (valueBalance tx) \<and>
     (\<forall>out \<in> set (vout tx). CTxOut_ok out) \<and> (\<forall>d \<in> set (vShieldedSpend tx). Spend_ok d) \<and>
     (\<forall>d \<in> set (vShieldedOutput tx). Output_ok d) \<and>
     (\<forall>d \<in> set (vJoinSplit tx). JSDescription_ok (useGroth (GetHeader tx)) d)"

text \<open>What the hash is meant to cover.\<close>

definition same_effect :: "CTransaction \<Rightarrow> CTransaction \<Rightarrow> bool" where
  "same_effect tx tx' \<longleftrightarrow>
     GetHeader tx = GetHeader tx' \<and> nVersionGroupId tx = nVersionGroupId tx' \<and>
     map prevout (vin tx) = map prevout (vin tx') \<and> map nSequence (vin tx) = map nSequence (vin tx') \<and>
     vout tx = vout tx' \<and> vJoinSplit tx = vJoinSplit tx' \<and>
     (vJoinSplit tx \<noteq> [] \<longrightarrow> joinSplitPubKey tx = joinSplitPubKey tx') \<and>
     map (\<lambda>d. d\<lparr>spendAuthSig := []\<rparr>) (vShieldedSpend tx) = map (\<lambda>d. d\<lparr>spendAuthSig := []\<rparr>) (vShieldedSpend tx') \<and>
     vShieldedOutput tx = vShieldedOutput tx' \<and> nLockTime tx = nLockTime tx' \<and>
     nExpiryHeight tx = nExpiryHeight tx' \<and> valueBalance tx = valueBalance tx'"

lemma nat_to_le_eq_Nil: "nat_to_le n v = [] \<longleftrightarrow> n = 0"
  using length_nat_to_le [of n v] by (cases "nat_to_le n v") auto

lemma ser_nonempty [simp]: "Serialize_uint256 h \<noteq> []" "ser_writedata32 w \<noteq> []" "ser_writedata64 v \<noteq> []"
  "Serialize_int64 i \<noteq> []"
  by (simp_all add: Serialize_uint256_def ser_writedata32_def ser_writedata64_def Serialize_int64_def
      nat_to_le_eq_Nil del: nat_to_le.simps)

text \<open>Each part of the preimage is determined by its hash value when no failure occurs.\<close>

definition sound_hashing :: "blake2b \<Rightarrow> CTransaction \<Rightarrow> CTransaction \<Rightarrow> bool" where
  "sound_hashing blake tx tx' \<longleftrightarrow> sighash_wf tx \<and> sighash_wf tx' \<and>
     \<not> hash_failure blake (part_queries tx) (part_queries tx')"

lemma hash_failure_collision:
  "\<not> hash_failure blake Q R \<Longrightarrow> q \<in> set Q \<Longrightarrow> r \<in> set R \<Longrightarrow> blake (fst q) (snd q) = blake (fst r) (snd r) \<Longrightarrow> q = r"
  by (auto simp: hash_failure_def)

lemma hash_failure_zero: "\<not> hash_failure blake Q R \<Longrightarrow> q \<in> set Q \<union> set R \<Longrightarrow> blake (fst q) (snd q) \<noteq> 0"
  by (auto simp: hash_failure_def)

lemma same_query:
  assumes "sound_hashing blake tx tx'" "(p, x) \<in> set (part_queries tx)" "(p', x') \<in> set (part_queries tx')"
    and "blake p x = blake p' x'"
  shows "x = x'"
  using hash_failure_collision [of blake "part_queries tx" "part_queries tx'" "(p, x)" "(p', x')"] assms
  by (simp add: sound_hashing_def)

lemma nonzero_query:
  assumes "sound_hashing blake tx tx'" "(p, x) \<in> set (part_queries tx) \<union> set (part_queries tx')"
  shows "blake p x \<noteq> 0"
  using hash_failure_zero [of blake "part_queries tx" "part_queries tx'" "(p, x)"] assms
  by (simp add: sound_hashing_def)

lemma same_prevouts:
  assumes s: "sound_hashing blake tx tx'" and a: "GetPrevoutHash blake tx = GetPrevoutHash blake tx'"
  shows "map prevout (vin tx) = map prevout (vin tx')"
proof -
  have "concat (map (\<lambda>i. Serialize_COutPoint (prevout i)) (vin tx)) =
      concat (map (\<lambda>i. Serialize_COutPoint (prevout i)) (vin tx'))"
    using a by (intro same_query [OF s]) (auto simp: part_queries_def GetPrevoutHash_def)
  then have "concat (map Serialize_COutPoint (map prevout (vin tx))) =
      concat (map Serialize_COutPoint (map prevout (vin tx')))" by (simp add: comp_def)
  then show ?thesis
    by (rule outpoint.concat_enc_inject [rotated 2]) (simp_all add: Serialize_COutPoint_def)
qed

lemma same_sequences:
  assumes s: "sound_hashing blake tx tx'" and a: "GetSequenceHash blake tx = GetSequenceHash blake tx'"
  shows "map nSequence (vin tx) = map nSequence (vin tx')"
proof -
  have "concat (map (\<lambda>i. ser_writedata32 (nSequence i)) (vin tx)) =
      concat (map (\<lambda>i. ser_writedata32 (nSequence i)) (vin tx'))"
    using a by (intro same_query [OF s]) (auto simp: part_queries_def GetSequenceHash_def)
  then have "concat (map ser_writedata32 (map nSequence (vin tx))) =
      concat (map ser_writedata32 (map nSequence (vin tx')))" by (simp add: comp_def)
  then show ?thesis
    by (rule u32.concat_enc_inject [rotated 2]) simp_all
qed

lemma same_outputs:
  assumes s: "sound_hashing blake tx tx'" and a: "GetOutputsHash blake tx = GetOutputsHash blake tx'"
  shows "vout tx = vout tx'"
proof -
  have "concat (map Serialize_CTxOut (vout tx)) = concat (map Serialize_CTxOut (vout tx'))"
    using a by (intro same_query [OF s]) (auto simp: part_queries_def GetOutputsHash_def)
  then show ?thesis
    using s by (intro txout.concat_enc_inject) (auto simp: Serialize_CTxOut_def sighash_wf_def sound_hashing_def)
qed

lemma same_shielded_outputs:
  assumes s: "sound_hashing blake tx tx'" and a: "covered (vShieldedOutput tx \<noteq> []) None sel (GetShieldedOutputsHash blake tx) =
           covered (vShieldedOutput tx' \<noteq> []) None sel' (GetShieldedOutputsHash blake tx')"
  shows "vShieldedOutput tx = vShieldedOutput tx'"
proof -
  have z: "GetShieldedOutputsHash blake tx \<noteq> 0" "GetShieldedOutputsHash blake tx' \<noteq> 0"
    unfolding GetShieldedOutputsHash_def by (rule nonzero_query [OF s]; simp add: part_queries_def)+
  show ?thesis
  proof (cases "vShieldedOutput tx = []")
    case False
    then have "GetShieldedOutputsHash blake tx = GetShieldedOutputsHash blake tx'"
      using a z by (auto simp: covered_def split: if_splits)
    then have "concat (map Serialize_Output (vShieldedOutput tx)) = concat (map Serialize_Output (vShieldedOutput tx'))"
      by (intro same_query [OF s]) (auto simp: part_queries_def GetShieldedOutputsHash_def)
    then show ?thesis
      using s by (intro outdesc.concat_enc_inject) (auto simp: Serialize_Output_def sighash_wf_def sound_hashing_def)
  qed (use a z in \<open>auto simp: covered_def split: if_splits\<close>)
qed


lemma spend_core_inject:
  assumes "Spend_ok d" "Spend_ok e" "spend_core d @ r = spend_core e @ s"
  shows "d\<lparr>spendAuthSig := []\<rparr> = e\<lparr>spendAuthSig := []\<rparr> \<and> r = s"
proof -
  have c: "sd_cv d = sd_cv e" "sd_anchor d = sd_anchor e" "sd_nullifier d = sd_nullifier e" "sd_rk d = sd_rk e"
    and z: "Serialize_arr (sd_zkproof d) @ r = Serialize_arr (sd_zkproof e) @ s"
    using assms(3) by (auto simp: spend_core_def dest!: u256.enc_inject [OF TrueI TrueI])
  have "sd_zkproof d = sd_zkproof e \<and> r = s"
    by (rule arr.enc_inject [OF _ _ z]) (use assms in \<open>auto simp: Spend_ok_def\<close>)
  with c show ?thesis by (cases d; cases e) simp
qed

lemma same_spends:
  assumes s: "sound_hashing blake tx tx'" and a: "covered (vShieldedSpend tx \<noteq> []) None sel (GetShieldedSpendsHash blake tx) =
           covered (vShieldedSpend tx' \<noteq> []) None sel' (GetShieldedSpendsHash blake tx')"
  shows "map (\<lambda>d. d\<lparr>spendAuthSig := []\<rparr>) (vShieldedSpend tx) = map (\<lambda>d. d\<lparr>spendAuthSig := []\<rparr>) (vShieldedSpend tx')"
proof -
  have z: "GetShieldedSpendsHash blake tx \<noteq> 0" "GetShieldedSpendsHash blake tx' \<noteq> 0"
    unfolding GetShieldedSpendsHash_def by (rule nonzero_query [OF s]; simp add: part_queries_def)+
  show ?thesis
  proof (cases "vShieldedSpend tx = []")
    case False
    then have "GetShieldedSpendsHash blake tx = GetShieldedSpendsHash blake tx'"
      using a z by (auto simp: covered_def split: if_splits)
    then have "concat (map spend_core (vShieldedSpend tx)) = concat (map spend_core (vShieldedSpend tx'))"
      by (intro same_query [OF s]) (auto simp: part_queries_def GetShieldedSpendsHash_def)
    moreover have "\<forall>d \<in> set (vShieldedSpend tx) \<union> set (vShieldedSpend tx'). Spend_ok d"
      using s by (auto simp: sighash_wf_def sound_hashing_def)
    ultimately show ?thesis
      by (intro concat_map_cancel [of Spend_ok spend_core] spend_core_inject) (simp_all add: spend_core_def)
  qed (use a z in \<open>auto simp: covered_def split: if_splits\<close>)
qed

lemma joinsplit_bytes_wf:
  assumes "sighash_wf tx"
  shows "joinsplit_bytes tx = Inr (concat (map (\<lambda>d. projr (Serialize_JSDescription (useGroth (GetHeader tx)) d)) (vJoinSplit tx)) @
    Serialize_uint256 (joinSplitPubKey tx))"
proof -
  have "rtraverse (Serialize_JSDescription (useGroth (GetHeader tx))) (vJoinSplit tx) =
      Inr (map (\<lambda>d. projr (Serialize_JSDescription (useGroth (GetHeader tx)) d)) (vJoinSplit tx))"
    using assms Serialize_JSDescription_ok
    by (intro rtraverse_Inr) (auto simp: sighash_wf_def JSDescription_ok_def)
  then show ?thesis by (simp add: joinsplit_bytes_def)
qed

lemma Serialize_JSDescription_nonempty: "JSDescription_ok g d \<Longrightarrow> projr (Serialize_JSDescription g d) \<noteq> []"
  using Serialize_SproutProof_ok [of g "js_proof d"] by (auto simp: Serialize_JSDescription_def JSDescription_ok_def)

lemma same_joinsplits:
  assumes s: "sound_hashing blake tx tx'" and h: "GetHeader tx = GetHeader tx'"
    and a: "zip143_joinsplits blake tx None = Inr v" "zip143_joinsplits blake tx' None = Inr v"
  shows "vJoinSplit tx = vJoinSplit tx' \<and> (vJoinSplit tx \<noteq> [] \<longrightarrow> joinSplitPubKey tx = joinSplitPubKey tx')"
proof -
  let ?enc = "\<lambda>d. projr (Serialize_JSDescription (useGroth (GetHeader tx)) d)"
  let ?b = "\<lambda>tx. concat (map ?enc (vJoinSplit tx)) @ Serialize_uint256 (joinSplitPubKey tx)"
  have wf: "sighash_wf tx" "sighash_wf tx'" using s by (simp_all add: sound_hashing_def)
  note b = joinsplit_bytes_wf [OF wf(1)] joinsplit_bytes_wf [OF wf(2), folded h]
  have m: "(ZCASH_JOINSPLITS_HASH_PERSONALIZATION, ?b tx) \<in> set (part_queries tx)"
    "(ZCASH_JOINSPLITS_HASH_PERSONALIZATION, ?b tx') \<in> set (part_queries tx')"
    by (simp_all add: part_queries_def b)
  then have z: "blake ZCASH_JOINSPLITS_HASH_PERSONALIZATION (?b tx) \<noteq> 0" "blake ZCASH_JOINSPLITS_HASH_PERSONALIZATION (?b tx') \<noteq> 0"
    using nonzero_query [OF s] by blast+
  have v: "v = (if vJoinSplit tx = [] then 0 else blake ZCASH_JOINSPLITS_HASH_PERSONALIZATION (?b tx))"
    "v = (if vJoinSplit tx' = [] then 0 else blake ZCASH_JOINSPLITS_HASH_PERSONALIZATION (?b tx'))"
    using a by (simp_all add: zip143_joinsplits_def GetJoinSplitsHash_def b split: if_splits)
  show ?thesis
  proof (cases "vJoinSplit tx = []")
    case False
    then have "?b tx = ?b tx'"
      using v z by (intro same_query [OF s m]) (metis (full_types))
    then have "concat (map ?enc (vJoinSplit tx)) = concat (map ?enc (vJoinSplit tx')) \<and>
        Serialize_uint256 (joinSplitPubKey tx) = Serialize_uint256 (joinSplitPubKey tx')"
      by (subst (asm) append_eq_append_conv) (simp_all add: Serialize_uint256_def)
    moreover have "\<forall>d \<in> set (vJoinSplit tx) \<union> set (vJoinSplit tx'). JSDescription_ok (useGroth (GetHeader tx)) d"
      using wf h by (auto simp: sighash_wf_def)
    ultimately show ?thesis
      using joinsplit.concat_enc_inject [OF Serialize_JSDescription_nonempty]
        u256.enc_inject [OF TrueI TrueI, of "joinSplitPubKey tx" "[]"] by simp
  qed (use v z in \<open>auto split: if_splits\<close>)
qed

text \<open>The preimage of a Sapling \<^verbatim>\<open>SIGHASH_ALL\<close> hash of an input, and that its parts can be read back.\<close>

definition sapling_preimage :: "blake2b \<Rightarrow> CScript \<Rightarrow> CTransaction \<Rightarrow> CTxIn \<Rightarrow> int \<Rightarrow> uint256 \<Rightarrow> bytes" where
  "sapling_preimage blake code tx inp amount js =
     ser_writedata32 (GetHeader tx) @ ser_writedata32 (nVersionGroupId tx) @
     Serialize_uint256 (GetPrevoutHash blake tx) @ Serialize_uint256 (GetSequenceHash blake tx) @
     Serialize_uint256 (GetOutputsHash blake tx) @ Serialize_uint256 js @
     Serialize_uint256 (covered (vShieldedSpend tx \<noteq> []) (None :: PrecomputedTransactionData option) hashShieldedSpends (GetShieldedSpendsHash blake tx)) @
     Serialize_uint256 (covered (vShieldedOutput tx \<noteq> []) (None :: PrecomputedTransactionData option) hashShieldedOutputs (GetShieldedOutputsHash blake tx)) @
     ser_writedata32 (nLockTime tx) @ ser_writedata32 (nExpiryHeight tx) @ Serialize_int64 (valueBalance tx) @
     ser_writedata32 1 @ Serialize_COutPoint (prevout inp) @ Serialize_bytes code @
     Serialize_int64 amount @ ser_writedata32 (nSequence inp)"

lemma SignatureHash_sapling:
  assumes "sighash_wf tx" "unat nIn < length (vin tx)" "nIn \<noteq> NOT_AN_INPUT"
    and "SignatureHash blake code tx nIn 1 amount branch None = Inr h"
  obtains js where "zip143_joinsplits blake tx None = Inr js"
    and "zip143_preimage blake code tx nIn 1 amount None = Inr (sapling_preimage blake code tx (vin tx ! unat nIn) amount js)"
    and "h = blake (sighash_personal branch) (sapling_preimage blake code tx (vin tx ! unat nIn) amount js)"
proof -
  have f: "fAnyoneCanPay 1 = False" "fHashSingle 1 = False" "fHashNone 1 = False"
    by (simp_all add: fAnyoneCanPay_def fHashSingle_def fHashNone_def SIGHASH_ANYONECANPAY_def SIGHASH_SINGLE_def SIGHASH_NONE_def)
  have "\<exists>js. zip143_joinsplits blake tx None = Inr js"
    using joinsplit_bytes_wf [OF assms(1)] by (simp add: zip143_joinsplits_def GetJoinSplitsHash_def)
  then obtain js where js: "zip143_joinsplits blake tx None = Inr js" ..
  have p: "zip143_preimage blake code tx nIn 1 amount None = Inr (sapling_preimage blake code tx (vin tx ! unat nIn) amount js)"
    using assms by (simp add: zip143_preimage_def js sighash_wf_def f covered_def zip143_outputs_def sapling_preimage_def)
  show ?thesis
    using that [OF js p] assms p by (simp add: sighash_wf_def SignatureHash_def map_err_def)
qed

lemma sapling_preimage_inject:
  assumes e: "sapling_preimage blake code tx inp amount js = sapling_preimage blake code' tx' inp' amount' js'"
    and wf: "sighash_wf tx" "sighash_wf tx'" "length code \<le> unat MAX_SIZE" "length code' \<le> unat MAX_SIZE"
      "int64_range amount" "int64_range amount'"
  shows "GetHeader tx = GetHeader tx'" "nVersionGroupId tx = nVersionGroupId tx'"
    "GetPrevoutHash blake tx = GetPrevoutHash blake tx'" "GetSequenceHash blake tx = GetSequenceHash blake tx'"
    "GetOutputsHash blake tx = GetOutputsHash blake tx'" "js = js'"
    "covered (vShieldedSpend tx \<noteq> []) (None :: PrecomputedTransactionData option) hashShieldedSpends (GetShieldedSpendsHash blake tx) =
      covered (vShieldedSpend tx' \<noteq> []) (None :: PrecomputedTransactionData option) hashShieldedSpends (GetShieldedSpendsHash blake tx')"
    "covered (vShieldedOutput tx \<noteq> []) (None :: PrecomputedTransactionData option) hashShieldedOutputs (GetShieldedOutputsHash blake tx) =
      covered (vShieldedOutput tx' \<noteq> []) (None :: PrecomputedTransactionData option) hashShieldedOutputs (GetShieldedOutputsHash blake tx')"
    "nLockTime tx = nLockTime tx'" "nExpiryHeight tx = nExpiryHeight tx'" "valueBalance tx = valueBalance tx'"
    "prevout inp = prevout inp'" "code = code'" "amount = amount'"
proof -
  have vb: "int64_range (valueBalance tx)" "int64_range (valueBalance tx')" using wf by (simp_all add: sighash_wf_def)
  note d = u32.enc_inject [OF TrueI TrueI] u256.enc_inject [OF TrueI TrueI] i64.enc_inject [OF vb]
    outpoint.enc_inject [OF TrueI TrueI] vbytes.enc_inject [OF wf(3,4)] i64.enc_inject [OF wf(5,6)]
  show "GetHeader tx = GetHeader tx'" "nVersionGroupId tx = nVersionGroupId tx'"
    "GetPrevoutHash blake tx = GetPrevoutHash blake tx'" "GetSequenceHash blake tx = GetSequenceHash blake tx'"
    "GetOutputsHash blake tx = GetOutputsHash blake tx'" "js = js'"
    "covered (vShieldedSpend tx \<noteq> []) (None :: PrecomputedTransactionData option) hashShieldedSpends (GetShieldedSpendsHash blake tx) =
      covered (vShieldedSpend tx' \<noteq> []) (None :: PrecomputedTransactionData option) hashShieldedSpends (GetShieldedSpendsHash blake tx')"
    "covered (vShieldedOutput tx \<noteq> []) (None :: PrecomputedTransactionData option) hashShieldedOutputs (GetShieldedOutputsHash blake tx) =
      covered (vShieldedOutput tx' \<noteq> []) (None :: PrecomputedTransactionData option) hashShieldedOutputs (GetShieldedOutputsHash blake tx')"
    "nLockTime tx = nLockTime tx'" "nExpiryHeight tx = nExpiryHeight tx'" "valueBalance tx = valueBalance tx'"
    "prevout inp = prevout inp'" "code = code'" "amount = amount'"
    using e unfolding sapling_preimage_def by (auto dest!: d)
qed

lemma sighash_personal_inject: "sighash_personal b = sighash_personal b' \<Longrightarrow> b = b'"
  using u32.enc_inject [of b "[]" b' "[]"] by (simp add: sighash_personal_def)

text \<open>C29: What a Sapling signature commits to.  If two hashings with \<^verbatim>\<open>SIGHASH_ALL\<close> of well-formed Sapling
  transactions give one hash, then, unless BLAKE2b has a collision or a zero value among the inputs it is given
  there, they have one consensus branch, script code, amount and spent outpoint, and the transactions agree in
  everything but their signatures.\<close>

theorem SignatureHash_binding:
  assumes wf: "sighash_wf tx" "sighash_wf tx'"
    and n: "unat nIn < length (vin tx)" "nIn \<noteq> NOT_AN_INPUT" "unat nIn' < length (vin tx')" "nIn' \<noteq> NOT_AN_INPUT"
    and r: "length code \<le> unat MAX_SIZE" "length code' \<le> unat MAX_SIZE" "int64_range amount" "int64_range amount'"
    and h: "SignatureHash blake code tx nIn 1 amount branch None = Inr h"
      "SignatureHash blake code' tx' nIn' 1 amount' branch' None = Inr h"
    and s: "\<not> hash_failure blake (sighash_queries blake code tx nIn amount branch)
        (sighash_queries blake code' tx' nIn' amount' branch')"
  shows "branch = branch' \<and> code = code' \<and> amount = amount' \<and>
    prevout (vin tx ! unat nIn) = prevout (vin tx' ! unat nIn') \<and> same_effect tx tx'"
proof -
  let ?p = "\<lambda>code tx nIn amount js. sapling_preimage blake code tx (vin tx ! unat nIn) amount js"
  obtain js where 1: "zip143_joinsplits blake tx None = Inr js"
    "zip143_preimage blake code tx nIn 1 amount None = Inr (?p code tx nIn amount js)"
    "h = blake (sighash_personal branch) (?p code tx nIn amount js)"
    by (rule SignatureHash_sapling [OF wf(1) n(1,2) h(1)])
  obtain js' where 2: "zip143_joinsplits blake tx' None = Inr js'"
    "zip143_preimage blake code' tx' nIn' 1 amount' None = Inr (?p code' tx' nIn' amount' js')"
    "h = blake (sighash_personal branch') (?p code' tx' nIn' amount' js')"
    by (rule SignatureHash_sapling [OF wf(2) n(3,4) h(2)])
  have "(sighash_personal branch, ?p code tx nIn amount js) = (sighash_personal branch', ?p code' tx' nIn' amount' js')"
    using hash_failure_collision [OF s, of "(sighash_personal branch, ?p code tx nIn amount js)"
        "(sighash_personal branch', ?p code' tx' nIn' amount' js')"] 1 2
    by (simp add: sighash_queries_def)
  then have b: "branch = branch'" and e: "?p code tx nIn amount js = ?p code' tx' nIn' amount' js'"
    using sighash_personal_inject by simp_all
  note eq = sapling_preimage_inject [OF e wf r]
  have sh: "sound_hashing blake tx tx'"
    using s wf by (auto simp: sound_hashing_def hash_failure_def sighash_queries_def)
  show ?thesis
    using b eq same_prevouts [OF sh eq(3)] same_sequences [OF sh eq(4)] same_outputs [OF sh eq(5)]
      same_joinsplits [OF sh eq(1) 1(1) 2(1) [folded eq(6)]] same_spends [OF sh eq(7)] same_shielded_outputs [OF sh eq(8)]
    unfolding same_effect_def by blast
qed

text \<open>A hash that only reads the personalisation is sound for the example.\<close>

definition tag_hash :: blake2b where
  "tag_hash p d = of_nat (Suc (le_to_nat p))"

lemma tag_hash_inject:
  assumes "length p = 16" "length p' = 16"
  shows "tag_hash p d \<noteq> 0" and "tag_hash p d = tag_hash p' d' \<Longrightarrow> p = p'"
proof -
  have u: "unat (tag_hash q e) = Suc (le_to_nat q)" if "length q = 16" for q e
  proof -
    have "Suc (le_to_nat q) < 2 ^ 256" using le_to_nat_less [of q] that by simp
    then show ?thesis unfolding tag_hash_def unat_of_nat by (intro mod_less) simp
  qed
  show "tag_hash p d \<noteq> 0" using u [OF assms(1), of d] by auto
  assume "tag_hash p d = tag_hash p' d'"
  then have "le_to_nat p = le_to_nat p'" using u [OF assms(1), of d] u [OF assms(2), of d'] by simp
  then show "p = p'" using assms nat_to_le_le_to_nat by metis
qed

lemma tag_hash_sound:
  assumes "distinct (map fst Q)" "\<forall>q \<in> set Q. length (fst q) = 16"
  shows "\<not> hash_failure tag_hash Q Q"
proof -
  have "q = r" if "q \<in> set Q" "r \<in> set Q" "fst q = fst r" for q r
    using assms(1) that by (meson distinct_map inj_on_eq_iff)
  then show ?thesis
    using assms(2) tag_hash_inject unfolding hash_failure_def by (metis Un_iff set_append)
qed

definition binding_tx :: "CScript \<Rightarrow> CTransaction" where
  "binding_tx sig = CTransaction0\<lparr>fOverwintered := True, nVersion := 4, nVersionGroupId := SAPLING_VERSION_GROUP_ID,
     vin := [\<lparr>prevout = COutPoint_null, scriptSig = sig, nSequence = 0\<rparr>]\<rparr>"

lemma binding_tx_fields [simp]:
  "fOverwintered (binding_tx sig)" "nVersionGroupId (binding_tx sig) = SAPLING_VERSION_GROUP_ID"
  "vin (binding_tx sig) = [\<lparr>prevout = COutPoint_null, scriptSig = sig, nSequence = 0\<rparr>]"
  "vout (binding_tx sig) = []" "vJoinSplit (binding_tx sig) = []" "vShieldedSpend (binding_tx sig) = []"
  "vShieldedOutput (binding_tx sig) = []" "valueBalance (binding_tx sig) = 0" "joinSplitPubKey (binding_tx sig) = 0"
  "nLockTime (binding_tx sig) = 0" "nExpiryHeight (binding_tx sig) = 0" "nVersion (binding_tx sig) = 4"
  by (simp_all add: binding_tx_def CTransaction0_def CMutableTransaction0_def CMutableTransaction.defs)

lemma personalisations:
  "distinct [ZCASH_PREVOUTS_HASH_PERSONALIZATION, ZCASH_SEQUENCE_HASH_PERSONALIZATION, ZCASH_OUTPUTS_HASH_PERSONALIZATION,
     ZCASH_SHIELDED_SPENDS_HASH_PERSONALIZATION, ZCASH_SHIELDED_OUTPUTS_HASH_PERSONALIZATION,
     ZCASH_JOINSPLITS_HASH_PERSONALIZATION, sighash_personal 9]"
  "\<forall>p \<in> set [ZCASH_PREVOUTS_HASH_PERSONALIZATION, ZCASH_SEQUENCE_HASH_PERSONALIZATION, ZCASH_OUTPUTS_HASH_PERSONALIZATION,
     ZCASH_SHIELDED_SPENDS_HASH_PERSONALIZATION, ZCASH_SHIELDED_OUTPUTS_HASH_PERSONALIZATION,
     ZCASH_JOINSPLITS_HASH_PERSONALIZATION, sighash_personal 9]. length p = 16"
  by code_simp+

lemma binding_preimage: "\<exists>p. zip143_preimage blake [0x51] (binding_tx sig) 0 1 7 None = Inr p"
  by (simp add: zip143_preimage_def zip143_joinsplits_def Let_def)

lemma binding_queries:
  "sighash_queries blake [0x51] (binding_tx sig) 0 7 9 = sighash_queries blake [0x51] (binding_tx []) 0 7 9"
  by (simp add: sighash_queries_def part_queries_def joinsplit_bytes_def zip143_preimage_def zip143_joinsplits_def
      zip143_outputs_def GetPrevoutHash_def GetSequenceHash_def GetOutputsHash_def GetShieldedSpendsHash_def
      GetShieldedOutputsHash_def GetHeader_def SignatureHashVersion_def)

lemma binding_sound: "\<not> hash_failure tag_hash (sighash_queries tag_hash [0x51] (binding_tx [1]) 0 7 9)
    (sighash_queries tag_hash [0x51] (binding_tx []) 0 7 9)"
  unfolding binding_queries [of _ "[1]"]
  by (rule tag_hash_sound)
    (use personalisations binding_preimage [of tag_hash "[]"] in
      \<open>auto simp: sighash_queries_def part_queries_def joinsplit_bytes_def\<close>)

theorem SignatureHash_binding_witness:
  "\<exists>h. SignatureHash tag_hash [0x51] (binding_tx [1]) 0 1 7 9 None = Inr h \<and>
     SignatureHash tag_hash [0x51] (binding_tx []) 0 1 7 9 None = Inr h \<and>
     binding_tx [1] \<noteq> binding_tx [] \<and> same_effect (binding_tx [1]) (binding_tx [])"
proof -
  have n: "(0 :: u32) \<noteq> NOT_AN_INPUT" by (simp add: NOT_AN_INPUT_def)
  have wf: "sighash_wf (binding_tx sig)" for sig
    by (simp add: sighash_wf_def SignatureHashVersion_def int64_range_def)
  have h: "\<exists>p. SignatureHash tag_hash [0x51] (binding_tx sig) 0 1 7 9 None = Inr (tag_hash (sighash_personal 9) p)" for sig
    using binding_preimage [of tag_hash sig] n by (auto simp: SignatureHash_def SignatureHashVersion_def map_err_def)
  then obtain h where 1: "SignatureHash tag_hash [0x51] (binding_tx sig) 0 1 7 9 None = Inr h" for sig
    by (metis tag_hash_def)
  have "same_effect (binding_tx [1]) (binding_tx [])"
    using SignatureHash_binding [OF wf wf _ n _ n _ _ _ _ 1 1 binding_sound]
    by (simp add: MAX_SIZE_def int64_range_def)
  moreover have "scriptSig (hd (vin (binding_tx [1]))) \<noteq> scriptSig (hd (vin (binding_tx [])))" by simp
  ultimately show ?thesis using 1 by metis
qed

end
