(* ===== verification/Zc_SigCache.thy ===== *)
theory Zc_SigCache
  imports Zc_SigHash
begin

text \<open>
  The cache of valid signatures, \<^verbatim>\<open>src/script/sigcache.cpp\<close>, with the memory accounting of
  \<^verbatim>\<open>src/memusage.h\<close> that bounds it.  What the hash set of boost decides (its number of buckets and the first
  entry of a random bucket) is given to the eviction loop as a list of rounds.  The lemmas show that the cache is
  transparent up to an explicit SHA-256 collision, that it stays within its memory bound, and that eviction ends
  once the draws have hit every entry.
\<close>

section \<open>Memory accounting\<close>

definition MallocUsage :: "u64 \<Rightarrow> u64" where
  "MallocUsage alloc = (if alloc = 0 then 0 else push_bit 4 (drop_bit 4 (alloc + 31)))"

text \<open>\<^verbatim>\<open>sizeof(boost_unordered_node<uint256>)\<close> is 32 bytes and a pointer.\<close>

definition DynamicUsage_set :: "u64 \<Rightarrow> uint256 set \<Rightarrow> u64" where
  "DynamicUsage_set bucket_count s = MallocUsage 40 * of_nat (card s) + MallocUsage (8 * bucket_count)"

section \<open>The cache\<close>

record CSignatureCache =
  sc_nonce :: uint256
  setValid :: "uint256 set"

definition ComputeEntry :: "CSignatureCache \<Rightarrow> uint256 \<Rightarrow> bytes \<Rightarrow> bytes \<Rightarrow> uint256" where
  "ComputeEntry c hash vchSig pubkey =
     of_nat (le_to_nat (fst (CSHA256_Finalize (CSHA256_Write vchSig (CSHA256_Write pubkey
       (CSHA256_Write (Serialize_uint256 hash) (CSHA256_Write (Serialize_uint256 (sc_nonce c)) CSHA256)))))))"

definition sigcache_Get :: "CSignatureCache \<Rightarrow> uint256 \<Rightarrow> bool" where
  "sigcache_Get c entry \<longleftrightarrow> entry \<in> setValid c"

definition sigcache_Erase :: "CSignatureCache \<Rightarrow> uint256 \<Rightarrow> CSignatureCache" where
  "sigcache_Erase c entry = c\<lparr>setValid := setValid c - {entry}\<rparr>"

text \<open>The eviction loop: each round has the number of buckets and the first entry of the drawn bucket.  None when
  the rounds run out before the loop ends.\<close>

type_synonym sigcache_round = "u64 \<times> uint256 option"

fun sigcache_evict :: "u64 \<Rightarrow> sigcache_round list \<Rightarrow> uint256 set \<Rightarrow> uint256 set option" where
  "sigcache_evict nMaxCacheSize [] s = None"
| "sigcache_evict nMaxCacheSize ((bucket_count, it) # rounds) s =
     (if nMaxCacheSize < DynamicUsage_set bucket_count s
      then sigcache_evict nMaxCacheSize rounds (case it of Some e \<Rightarrow> s - {e} | None \<Rightarrow> s)
      else Some s)"

text \<open>\<^verbatim>\<open>-maxsigcachesize\<close> is in units of 1 MiB and becomes a \<^verbatim>\<open>size_t\<close>.\<close>

definition DEFAULT_MAX_SIG_CACHE_SIZE :: u64 where "DEFAULT_MAX_SIG_CACHE_SIZE = 40"

definition sigcache_Set :: "u64 \<Rightarrow> sigcache_round list \<Rightarrow> CSignatureCache \<Rightarrow> uint256 \<Rightarrow> CSignatureCache option" where
  "sigcache_Set maxsigcachesize rounds c entry =
     (let nMaxCacheSize = maxsigcachesize * push_bit 20 1 in
      if nMaxCacheSize \<le> 0 then Some c
      else case sigcache_evict nMaxCacheSize rounds (setValid c) of None \<Rightarrow> None
        | Some s \<Rightarrow> Some (c\<lparr>setValid := insert entry s\<rparr>))"

text \<open>\<^verbatim>\<open>CachingTransactionSignatureChecker::VerifySignature\<close>, with the cache made explicit.  \<open>Verify\<close> is
  \<^verbatim>\<open>CPubKey::Verify\<close>.\<close>

definition Caching_VerifySignature ::
  "(bytes \<Rightarrow> bytes \<Rightarrow> uint256 \<Rightarrow> bool) \<Rightarrow> u64 \<Rightarrow> bool \<Rightarrow> sigcache_round list \<Rightarrow> bytes \<Rightarrow> bytes \<Rightarrow> uint256 \<Rightarrow>
     CSignatureCache \<Rightarrow> (bool \<times> CSignatureCache) option" where
  "Caching_VerifySignature Verify maxsigcachesize store rounds vchSig pubkey sighash c =
     (let entry = ComputeEntry c sighash vchSig pubkey in
      if sigcache_Get c entry then Some (True, if \<not> store then sigcache_Erase c entry else c)
      else if \<not> Verify vchSig pubkey sighash then Some (False, c)
      else if store then
        (case sigcache_Set maxsigcachesize rounds c entry of None \<Rightarrow> None | Some c' \<Rightarrow> Some (True, c'))
      else Some (True, c))"

text \<open>A history of calls on the one static cache.\<close>

record sig_request =
  rq_store :: bool
  rq_rounds :: "sigcache_round list"
  rq_sig :: bytes
  rq_key :: bytes
  rq_hash :: uint256

fun run_requests :: "(bytes \<Rightarrow> bytes \<Rightarrow> uint256 \<Rightarrow> bool) \<Rightarrow> u64 \<Rightarrow> sig_request list \<Rightarrow> CSignatureCache \<Rightarrow>
    (bool list \<times> CSignatureCache) option" where
  "run_requests Verify m [] c = Some ([], c)"
| "run_requests Verify m (r # rs) c =
     (case Caching_VerifySignature Verify m (rq_store r) (rq_rounds r) (rq_sig r) (rq_key r) (rq_hash r) c of
        None \<Rightarrow> None
      | Some (b, c') \<Rightarrow> (case run_requests Verify m rs c' of None \<Rightarrow> None | Some (bs, c'') \<Rightarrow> Some (b # bs, c'')))"

section \<open>Entries\<close>

definition entry_bytes :: "uint256 \<Rightarrow> uint256 \<Rightarrow> bytes \<Rightarrow> bytes \<Rightarrow> bytes" where
  "entry_bytes nonce hash vchSig pubkey = Serialize_uint256 nonce @ Serialize_uint256 hash @ pubkey @ vchSig"

lemma ComputeEntry_eq: "ComputeEntry c hash vchSig pubkey = of_nat (le_to_nat (fips_sha256 (entry_bytes (sc_nonce c) hash vchSig pubkey)))"
  using sha256_stream.digest_writes [of "[Serialize_uint256 (sc_nonce c), Serialize_uint256 hash, pubkey, vchSig]"]
  by (simp add: ComputeEntry_def entry_bytes_def)

lemma digest_inject:
  assumes "of_nat (le_to_nat (fips_sha256 a)) = (of_nat (le_to_nat (fips_sha256 b)) :: uint256)"
  shows "fips_sha256 a = fips_sha256 b"
proof -
  have "le_to_nat (fips_sha256 m) < 2 ^ LENGTH(256)" for m
    using le_to_nat_less [of "fips_sha256 m"] by (simp add: length_fips_sha256)
  then have "unat (of_nat (le_to_nat (fips_sha256 m)) :: uint256) = le_to_nat (fips_sha256 m)" for m
    by (simp add: unat_of_nat)
  then have "le_to_nat (fips_sha256 a) = le_to_nat (fips_sha256 b)" using assms by metis
  then show ?thesis by (metis length_fips_sha256 nat_to_le_le_to_nat)
qed

lemma entry_bytes_inject:
  assumes "CPubKey_ValidSize k" "CPubKey_ValidSize k'" "entry_bytes n h s k = entry_bytes n h' s' k'"
  shows "h = h' \<and> s = s' \<and> k = k'"
proof -
  have e: "h = h' \<and> k @ s = k' @ s'"
    using assms(3) u256.enc_inject [OF TrueI TrueI, of h "k @ s"] by (simp add: entry_bytes_def)
  then have "hd k = hd k'" using assms(1,2) by (metis CPubKey_ValidSize_def hd_append2 length_greater_0_conv)
  then have "length k = length k'" using assms(1,2) by (simp add: CPubKey_ValidSize_def)
  then show ?thesis using e by simp
qed

section \<open>Transparency\<close>

definition rq_bytes :: "uint256 \<Rightarrow> sig_request \<Rightarrow> bytes" where
  "rq_bytes nonce r = entry_bytes nonce (rq_hash r) (rq_sig r) (rq_key r)"

definition rq_answer :: "(bytes \<Rightarrow> bytes \<Rightarrow> uint256 \<Rightarrow> bool) \<Rightarrow> sig_request \<Rightarrow> bool" where
  "rq_answer Verify r = Verify (rq_sig r) (rq_key r) (rq_hash r)"

text \<open>Two requests of a history with different data and one SHA-256 value.\<close>

definition sha_collision :: "uint256 \<Rightarrow> sig_request list \<Rightarrow> bool" where
  "sha_collision nonce rs \<longleftrightarrow> (\<exists>r \<in> set rs. \<exists>s \<in> set rs. rq_bytes nonce r \<noteq> rq_bytes nonce s \<and>
     fips_sha256 (rq_bytes nonce r) = fips_sha256 (rq_bytes nonce s))"

text \<open>Every entry is that of an earlier request whose signature verified.\<close>

definition cache_sound :: "(bytes \<Rightarrow> bytes \<Rightarrow> uint256 \<Rightarrow> bool) \<Rightarrow> sig_request list \<Rightarrow> CSignatureCache \<Rightarrow> bool" where
  "cache_sound Verify rs c \<longleftrightarrow> (\<forall>e \<in> setValid c. \<exists>r \<in> set rs. rq_answer Verify r \<and>
     e = of_nat (le_to_nat (fips_sha256 (rq_bytes (sc_nonce c) r))))"

lemma evict_subset: "sigcache_evict m rounds s = Some s' \<Longrightarrow> s' \<subseteq> s"
proof (induction m rounds s rule: sigcache_evict.induct)
  case (2 m bc it rounds s)
  then show ?case by (fastforce split: if_splits option.splits)
qed simp

lemma sigcache_Set_subset:
  "sigcache_Set m rounds c entry = Some c' \<Longrightarrow> sc_nonce c' = sc_nonce c \<and> setValid c' \<subseteq> insert entry (setValid c)"
  using evict_subset by (fastforce simp: sigcache_Set_def Let_def split: if_splits option.splits)

lemma Caching_step:
  assumes c: "cache_sound Verify rs c" and r: "r \<in> set rs" "\<forall>r \<in> set rs. CPubKey_ValidSize (rq_key r)"
    and n: "\<not> sha_collision (sc_nonce c) rs"
    and v: "Caching_VerifySignature Verify m (rq_store r) (rq_rounds r) (rq_sig r) (rq_key r) (rq_hash r) c = Some (b, c')"
  shows "b = rq_answer Verify r \<and> cache_sound Verify rs c' \<and> sc_nonce c' = sc_nonce c"
proof -
  let ?e = "ComputeEntry c (rq_hash r) (rq_sig r) (rq_key r)"
  have e: "?e = of_nat (le_to_nat (fips_sha256 (rq_bytes (sc_nonce c) r)))"
    by (simp add: ComputeEntry_eq rq_bytes_def)
  show ?thesis
  proof (cases "?e \<in> setValid c")
    case True
    then obtain s where s: "s \<in> set rs" "rq_answer Verify s"
      "?e = of_nat (le_to_nat (fips_sha256 (rq_bytes (sc_nonce c) s)))"
      using c by (auto simp: cache_sound_def)
    then have "rq_bytes (sc_nonce c) r = rq_bytes (sc_nonce c) s"
      using n r(1) digest_inject e by (metis sha_collision_def)
    then have "rq_answer Verify r"
      using s r entry_bytes_inject by (metis rq_answer_def rq_bytes_def)
    moreover have "b" "c' = (if \<not> rq_store r then sigcache_Erase c ?e else c)"
      using v True by (auto simp: Caching_VerifySignature_def sigcache_Get_def Let_def split: if_splits)
    ultimately show ?thesis using c by (auto simp: cache_sound_def sigcache_Erase_def)
  next
    case False
    then have v': "b = rq_answer Verify r \<and> (c' = c \<or> b \<and> sigcache_Set m (rq_rounds r) c ?e = Some c')"
      using v by (auto simp: Caching_VerifySignature_def sigcache_Get_def Let_def rq_answer_def split: if_splits option.splits)
    then have "c' = c \<or> (rq_answer Verify r \<and> sc_nonce c' = sc_nonce c \<and> setValid c' \<subseteq> insert ?e (setValid c))"
      using sigcache_Set_subset by blast
    then show ?thesis
      using v' c r(1) e unfolding cache_sound_def by (metis (no_types, lifting) insertE subsetD)
  qed
qed

lemma run_requests_sound:
  assumes "cache_sound Verify rs c" "\<forall>r \<in> set rs. CPubKey_ValidSize (rq_key r)" "\<not> sha_collision (sc_nonce c) rs"
    and "set qs \<subseteq> set rs" "run_requests Verify m qs c = Some (bs, c')"
  shows "bs = map (rq_answer Verify) qs \<and> cache_sound Verify rs c'"
  using assms
proof (induction qs arbitrary: c bs)
  case (Cons q qs)
  from Cons.prems(5) obtain b c1 bs1 where
    "Caching_VerifySignature Verify m (rq_store q) (rq_rounds q) (rq_sig q) (rq_key q) (rq_hash q) c = Some (b, c1)"
    "run_requests Verify m qs c1 = Some (bs1, c')" "bs = b # bs1"
    by (auto split: option.splits)
  then show ?case
    using Caching_step [OF Cons.prems(1) _ Cons.prems(2,3)] Cons.IH [of c1 bs1] Cons.prems by auto
qed simp

section \<open>Properties\<close>

text \<open>C30: The signature cache is transparent.  For any history of calls of the caching checker on a cache that
  starts empty, whatever they store and whatever is evicted, every answer is that of \<^verbatim>\<open>CPubKey::Verify\<close>, unless
  two calls of the history have different data with one SHA-256 value.\<close>

theorem sigcache_transparent:
  assumes "setValid c = {}" "\<forall>r \<in> set rs. CPubKey_ValidSize (rq_key r)" "\<not> sha_collision (sc_nonce c) rs"
    and "run_requests Verify m rs c = Some (bs, c')"
  shows "bs = map (\<lambda>r. Verify (rq_sig r) (rq_key r) (rq_hash r)) rs"
  using run_requests_sound [OF _ assms(2,3) _ assms(4)] assms(1)
  by (simp add: cache_sound_def rq_answer_def [abs_def])

text \<open>C31: The eviction loop of \<^verbatim>\<open>CSignatureCache::Set\<close> ends, within the memory bound, once the random draws have
  hit every entry, provided the array of buckets alone fits.\<close>

theorem sigcache_evict_ends:
  assumes "MallocUsage (8 * bc) \<le> nMax" "\<forall>e \<in> s. (bc, Some e) \<in> set rounds" "\<forall>r \<in> set rounds. fst r = bc" "finite s"
  shows "\<exists>s' \<subseteq> s. sigcache_evict nMax (rounds @ [(bc, it)]) s = Some s' \<and> DynamicUsage_set bc s' \<le> nMax"
  using assms(2-)
proof (induction rounds arbitrary: s)
  case Nil
  then show ?case using assms(1) by (auto simp: DynamicUsage_set_def)
next
  case (Cons r rounds)
  then obtain i where r: "r = (bc, i)" by (cases r) auto
  let ?s = "case i of Some e \<Rightarrow> s - {e} | None \<Rightarrow> s"
  have "\<exists>s' \<subseteq> ?s. sigcache_evict nMax (rounds @ [(bc, it)]) ?s = Some s' \<and> DynamicUsage_set bc s' \<le> nMax"
    using Cons.prems r by (intro Cons.IH) (auto split: option.splits)
  moreover have "?s \<subseteq> s" by (auto split: option.splits)
  ultimately show ?case using r by (fastforce simp: not_less)
qed

definition key_of_hash :: "bytes \<Rightarrow> bytes \<Rightarrow> uint256 \<Rightarrow> bool" where
  "key_of_hash vchSig pubkey sighash \<longleftrightarrow> vchSig = [ucast sighash]"

definition sample_request :: "byte \<Rightarrow> sig_request" where
  "sample_request b = \<lparr>rq_store = True, rq_rounds = [(1, None)], rq_sig = [b], rq_key = 2 # replicate 32 0, rq_hash = 5\<rparr>"

theorem sigcache_transparent_witness:
  "\<exists>c. run_requests key_of_hash 40 [sample_request 5, sample_request 5] \<lparr>sc_nonce = 1, setValid = {}\<rparr> = Some ([True, True], c)"
proof -
  let ?rs = "[sample_request 5, sample_request 5]" and ?c = "\<lparr>sc_nonce = 1, setValid = {}\<rparr>"
  have "sigcache_Set 40 [(1, None)] ?c e = Some (?c\<lparr>setValid := {e}\<rparr>)" for e
    by (simp add: sigcache_Set_def DynamicUsage_set_def MallocUsage_def)
  then obtain bs c where run: "run_requests key_of_hash 40 ?rs ?c = Some (bs, c)"
    by (simp add: Caching_VerifySignature_def sigcache_Get_def sample_request_def key_of_hash_def ComputeEntry_eq)
  have "bs = map (\<lambda>r. key_of_hash (rq_sig r) (rq_key r) (rq_hash r)) ?rs"
    by (rule sigcache_transparent [OF _ _ _ run])
      (simp_all add: sample_request_def CPubKey_ValidSize_def CPubKey_GetLen_def sha_collision_def)
  then show ?thesis using run by (simp add: sample_request_def key_of_hash_def)
qed

theorem sigcache_evict_ends_witness:
  "\<exists>s'. sigcache_evict 60 ([(4, Some 1), (4, None), (4, Some 2)] @ [(4, None)]) {1, 2} = Some s' \<and> DynamicUsage_set 4 s' \<le> 60"
  using sigcache_evict_ends [of 4 60 "{1, 2}" "[(4, Some 1), (4, None), (4, Some 2)]" None]
  by (auto simp: MallocUsage_def)

end
