(* ===== verification/Zc_Merkle_Tree.thy ===== *)
theory Zc_Merkle_Tree
  imports Zc_Hash
begin

text \<open>
  The append-only note commitment trees, \<^verbatim>\<open>src/zcash/IncrementalMerkleTree.hpp\<close> and \<^verbatim>\<open>.cpp\<close>:
  \<^verbatim>\<open>IncrementalMerkleTree\<close> and \<^verbatim>\<open>IncrementalWitness\<close>.  The template parameter \<^verbatim>\<open>Hash\<close> is the pair of
  functions \<open>C\<close> (\<^verbatim>\<open>Hash::combine\<close>) and \<open>E\<close> (\<^verbatim>\<open>Hash::EmptyRoot\<close>), the parameter \<^verbatim>\<open>Depth\<close> is \<open>D\<close>.  The
  lemmas relate the compact state (two leaves and the roots of complete left subtrees) to the list of all
  appended leaves: the root is the root of the full binary tree padded with empty leaves, a witness keeps a valid
  authentication path while leaves are appended, and appending fails exactly on the full tree.  The tables of constants
  behind \<^verbatim>\<open>EmptyRoot\<close> are not modelled: the lemmas assume that \<open>E\<close> is the root of the empty subtree of each level.
\<close>

section \<open>The tree\<close>

datatype tree_error = TreeFull | NoCursor | NoPath

record 'h IncrementalMerkleTree =
  t_left :: "'h option"
  t_right :: "'h option"
  t_parents :: "'h option list"

definition empty_tree :: "'h IncrementalMerkleTree" where
  "empty_tree = \<lparr>t_left = None, t_right = None, t_parents = []\<rparr>"

text \<open>\<^verbatim>\<open>PathFiller::next\<close>: the next filler and the rest of the queue.\<close>

definition filler_next :: "(nat \<Rightarrow> 'h) \<Rightarrow> 'h list \<Rightarrow> nat \<Rightarrow> 'h \<times> 'h list" where
  "filler_next E queue depth = (case queue of h # q \<Rightarrow> (h, q) | [] \<Rightarrow> (E depth, []))"

definition wfcheck :: "nat \<Rightarrow> 'h IncrementalMerkleTree \<Rightarrow> ser_error + unit" where
  "wfcheck D t =
     (if D \<le> length (t_parents t) then Inl TooManyParents
      else if t_parents t \<noteq> [] \<and> last (t_parents t) = None then Inl NonCanonicalParent
      else if t_left t = None \<and> t_right t \<noteq> None then Inl NonCanonicalRight
      else if t_left t = None \<and> 0 < length (t_parents t) then Inl NonCanonicalParents
      else Inr ())"

definition imt_last :: "'h IncrementalMerkleTree \<Rightarrow> tree_error + 'h" where
  "imt_last t = (case t_right t of Some r \<Rightarrow> Inr r
     | None \<Rightarrow> (case t_left t of Some l \<Rightarrow> Inr l | None \<Rightarrow> Inl NoCursor))"

text \<open>\<^verbatim>\<open>1 << (i+1)\<close> is an \<^verbatim>\<open>int\<close>, converted to \<^verbatim>\<open>size_t\<close> when added.\<close>

fun size_parents :: "nat \<Rightarrow> 'h option list \<Rightarrow> u64 \<Rightarrow> u64" where
  "size_parents i [] ret = ret"
| "size_parents i (p # ps) ret =
     size_parents (Suc i) ps (if p \<noteq> None then ret + of_int (wrap32 (2 ^ (i + 1))) else ret)"

definition imt_size :: "'h IncrementalMerkleTree \<Rightarrow> u64" where
  "imt_size t = size_parents 0 (t_parents t)
     ((if t_left t \<noteq> None then 1 else 0) + (if t_right t \<noteq> None then 1 else 0))"

definition is_complete :: "nat \<Rightarrow> 'h IncrementalMerkleTree \<Rightarrow> bool" where
  "is_complete depth t \<longleftrightarrow> t_left t \<noteq> None \<and> t_right t \<noteq> None \<and>
     0 < depth \<and> length (t_parents t) = depth - 1 \<and> None \<notin> set (t_parents t)"

text \<open>The loop of \<^verbatim>\<open>append\<close> over the parents.\<close>

fun append_parents :: "('h \<Rightarrow> 'h \<Rightarrow> nat \<Rightarrow> 'h) \<Rightarrow> nat \<Rightarrow> nat \<Rightarrow> 'h \<Rightarrow> 'h option list \<Rightarrow> 'h option list" where
  "append_parents C D i combined [] = (if i < D then [Some combined] else [])"
| "append_parents C D i combined (p # ps) =
     (if i < D then (case p of Some h \<Rightarrow> None # append_parents C D (Suc i) (C h combined (i + 1)) ps
                      | None \<Rightarrow> Some combined # ps)
      else p # ps)"

definition imt_append :: "('h \<Rightarrow> 'h \<Rightarrow> nat \<Rightarrow> 'h) \<Rightarrow> nat \<Rightarrow> 'h \<Rightarrow> 'h IncrementalMerkleTree \<Rightarrow>
    tree_error + 'h IncrementalMerkleTree" where
  "imt_append C D obj t =
     (if is_complete D t then Inl TreeFull
      else case t_left t of None \<Rightarrow> Inr (t\<lparr>t_left := Some obj\<rparr>)
      | Some l \<Rightarrow> (case t_right t of None \<Rightarrow> Inr (t\<lparr>t_right := Some obj\<rparr>)
        | Some r \<Rightarrow> Inr \<lparr>t_left = Some obj, t_right = None,
                        t_parents = append_parents C D 0 (C l r 0) (t_parents t)\<rparr>))"

fun next_parents :: "nat \<Rightarrow> nat \<Rightarrow> 'h option list \<Rightarrow> nat" where
  "next_parents d skip [] = d + skip"
| "next_parents d skip (p # ps) =
     (if p = None then (if skip \<noteq> 0 then next_parents (Suc d) (skip - 1) ps else d)
      else next_parents (Suc d) skip ps)"

definition next_depth :: "nat \<Rightarrow> 'h IncrementalMerkleTree \<Rightarrow> nat" where
  "next_depth skip t =
     (if t_left t = None \<and> skip = 0 then 0
      else let skip1 = (if t_left t = None then skip - 1 else skip) in
      if t_right t = None \<and> skip1 = 0 then 0
      else let skip2 = (if t_right t = None then skip1 - 1 else skip1) in
      next_parents 1 skip2 (t_parents t))"

fun root_parents :: "('h \<Rightarrow> 'h \<Rightarrow> nat \<Rightarrow> 'h) \<Rightarrow> (nat \<Rightarrow> 'h) \<Rightarrow> nat \<Rightarrow> 'h \<Rightarrow> 'h list \<Rightarrow> 'h option list \<Rightarrow> 'h \<times> 'h list" where
  "root_parents C E d root q [] = (root, q)"
| "root_parents C E d root q (p # ps) =
     (case p of Some h \<Rightarrow> root_parents C E (Suc d) (C h root d) q ps
      | None \<Rightarrow> (case filler_next E q d of (f, q') \<Rightarrow> root_parents C E (Suc d) (C root f d) q' ps))"

text \<open>\<^verbatim>\<open>while (d < depth)\<close>.\<close>

function root_fill :: "('h \<Rightarrow> 'h \<Rightarrow> nat \<Rightarrow> 'h) \<Rightarrow> (nat \<Rightarrow> 'h) \<Rightarrow> nat \<Rightarrow> nat \<Rightarrow> 'h \<Rightarrow> 'h list \<Rightarrow> 'h" where
  "root_fill C E depth d root q =
     (if d < depth then (case filler_next E q d of (f, q') \<Rightarrow> root_fill C E depth (Suc d) (C root f d) q') else root)"
  by pat_completeness auto
termination
  by (relation "measure (\<lambda>(_, _, depth, d, _, _). depth - d)") auto

declare root_fill.simps [simp del]

definition imt_root :: "('h \<Rightarrow> 'h \<Rightarrow> nat \<Rightarrow> 'h) \<Rightarrow> (nat \<Rightarrow> 'h) \<Rightarrow> nat \<Rightarrow> 'h list \<Rightarrow> 'h IncrementalMerkleTree \<Rightarrow> 'h" where
  "imt_root C E depth filler_hashes t =
     (let (combine_left, q1) = (case t_left t of Some l \<Rightarrow> (l, filler_hashes) | None \<Rightarrow> filler_next E filler_hashes 0);
          (combine_right, q2) = (case t_right t of Some r \<Rightarrow> (r, q1) | None \<Rightarrow> filler_next E q1 0);
          (root, q3) = root_parents C E 1 (C combine_left combine_right 0) q2 (t_parents t)
      in root_fill C E depth (1 + length (t_parents t)) root q3)"

text \<open>\<^verbatim>\<open>path\<close>, from the leaf up: the index bits and the siblings.\<close>

fun path_parents :: "(nat \<Rightarrow> 'h) \<Rightarrow> nat \<Rightarrow> 'h list \<Rightarrow> 'h option list \<Rightarrow> (bool \<times> 'h) list \<times> 'h list" where
  "path_parents E d q [] = ([], q)"
| "path_parents E d q (p # ps) =
     (case p of Some h \<Rightarrow> (case path_parents E (Suc d) q ps of (r, q') \<Rightarrow> ((True, h) # r, q'))
      | None \<Rightarrow> (case filler_next E q d of (f, q1) \<Rightarrow>
                 (case path_parents E (Suc d) q1 ps of (r, q') \<Rightarrow> ((False, f) # r, q'))))"

function path_fill :: "(nat \<Rightarrow> 'h) \<Rightarrow> nat \<Rightarrow> nat \<Rightarrow> 'h list \<Rightarrow> (bool \<times> 'h) list" where
  "path_fill E D d q =
     (if d < D then (case filler_next E q d of (f, q') \<Rightarrow> (False, f) # path_fill E D (Suc d) q') else [])"
  by pat_completeness auto
termination
  by (relation "measure (\<lambda>(_, D, d, _). D - d)") auto

declare path_fill.simps [simp del]

definition imt_path_up :: "(nat \<Rightarrow> 'h) \<Rightarrow> nat \<Rightarrow> 'h list \<Rightarrow> 'h IncrementalMerkleTree \<Rightarrow> tree_error + (bool \<times> 'h) list" where
  "imt_path_up E D filler_hashes t =
     (case t_left t of None \<Rightarrow> Inl NoPath
      | Some l \<Rightarrow>
          let (s0, q1) = (case t_right t of Some _ \<Rightarrow> ((True, l), filler_hashes)
                           | None \<Rightarrow> (case filler_next E filler_hashes 0 of (f, q) \<Rightarrow> ((False, f), q)));
              (ps, q2) = path_parents E 1 q1 (t_parents t)
          in Inr (s0 # ps @ path_fill E D (1 + length (t_parents t)) q2))"

record MerklePath =
  authentication_path :: "bool list list"
  mp_index :: "bool list"

definition convertBytesVectorToVector :: "bytes \<Rightarrow> bool list" where
  "convertBytesVectorToVector bs = concat (map (\<lambda>c. map (\<lambda>j. bit c (7 - j)) [0..<8]) bs)"

definition imt_path :: "(nat \<Rightarrow> uint256) \<Rightarrow> nat \<Rightarrow> uint256 list \<Rightarrow> uint256 IncrementalMerkleTree \<Rightarrow> tree_error + MerklePath" where
  "imt_path E D filler_hashes t =
     rbind (imt_path_up E D filler_hashes t) (\<lambda>ps.
       Inr \<lparr>authentication_path = rev (map (\<lambda>s. convertBytesVectorToVector (Serialize_uint256 (snd s))) ps),
            mp_index = rev (map fst ps)\<rparr>)"

section \<open>The witness\<close>

record 'h IncrementalWitness =
  w_tree :: "'h IncrementalMerkleTree"
  w_filled :: "'h list"
  w_cursor :: "'h IncrementalMerkleTree option"
  w_cursor_depth :: nat

definition imt_witness :: "'h IncrementalMerkleTree \<Rightarrow> 'h IncrementalWitness" where
  "imt_witness t = \<lparr>w_tree = t, w_filled = [], w_cursor = None, w_cursor_depth = 0\<rparr>"

definition partial_path :: "('h \<Rightarrow> 'h \<Rightarrow> nat \<Rightarrow> 'h) \<Rightarrow> (nat \<Rightarrow> 'h) \<Rightarrow> 'h IncrementalWitness \<Rightarrow> 'h list" where
  "partial_path C E w = w_filled w @
     (case w_cursor w of Some c \<Rightarrow> [imt_root C E (w_cursor_depth w) [] c] | None \<Rightarrow> [])"

definition witness_append :: "('h \<Rightarrow> 'h \<Rightarrow> nat \<Rightarrow> 'h) \<Rightarrow> (nat \<Rightarrow> 'h) \<Rightarrow> nat \<Rightarrow> 'h \<Rightarrow> 'h IncrementalWitness \<Rightarrow>
    tree_error + 'h IncrementalWitness" where
  "witness_append C E D obj w =
     (case w_cursor w of
        Some cursor \<Rightarrow> rbind (imt_append C D obj cursor) (\<lambda>c.
          Inr (if is_complete (w_cursor_depth w) c
               then w\<lparr>w_filled := w_filled w @ [imt_root C E (w_cursor_depth w) [] c], w_cursor := None\<rparr>
               else w\<lparr>w_cursor := Some c\<rparr>))
      | None \<Rightarrow>
          (let d = next_depth (length (w_filled w)) (w_tree w); w1 = w\<lparr>w_cursor_depth := d\<rparr> in
           if D \<le> d then Inl TreeFull
           else if d = 0 then Inr (w1\<lparr>w_filled := w_filled w1 @ [obj]\<rparr>)
           else rbind (imt_append C D obj empty_tree) (\<lambda>c. Inr (w1\<lparr>w_cursor := Some c\<rparr>))))"

definition witness_element :: "'h IncrementalWitness \<Rightarrow> tree_error + 'h" where
  "witness_element w = imt_last (w_tree w)"

definition witness_position :: "'h IncrementalWitness \<Rightarrow> u64" where
  "witness_position w = imt_size (w_tree w) - 1"

definition witness_root :: "('h \<Rightarrow> 'h \<Rightarrow> nat \<Rightarrow> 'h) \<Rightarrow> (nat \<Rightarrow> 'h) \<Rightarrow> nat \<Rightarrow> 'h IncrementalWitness \<Rightarrow> 'h" where
  "witness_root C E D w = imt_root C E D (partial_path C E w) (w_tree w)"

definition witness_path_up :: "('h \<Rightarrow> 'h \<Rightarrow> nat \<Rightarrow> 'h) \<Rightarrow> (nat \<Rightarrow> 'h) \<Rightarrow> nat \<Rightarrow> 'h IncrementalWitness \<Rightarrow>
    tree_error + (bool \<times> 'h) list" where
  "witness_path_up C E D w = imt_path_up E D (partial_path C E w) (w_tree w)"

definition witness_path :: "(uint256 \<Rightarrow> uint256 \<Rightarrow> nat \<Rightarrow> uint256) \<Rightarrow> (nat \<Rightarrow> uint256) \<Rightarrow> nat \<Rightarrow> uint256 IncrementalWitness \<Rightarrow>
    tree_error + MerklePath" where
  "witness_path C E D w = imt_path E D (partial_path C E w) (w_tree w)"

section \<open>Reference: the padded binary tree\<close>

text \<open>The root of the complete binary tree of depth \<open>d\<close> whose leaves are \<open>xs\<close>, then empty leaves.\<close>

fun mroot :: "('h \<Rightarrow> 'h \<Rightarrow> nat \<Rightarrow> 'h) \<Rightarrow> 'h \<Rightarrow> nat \<Rightarrow> 'h list \<Rightarrow> 'h" where
  "mroot C u 0 xs = (case xs of [] \<Rightarrow> u | x # _ \<Rightarrow> x)"
| "mroot C u (Suc d) xs = C (mroot C u d (take (2 ^ d) xs)) (mroot C u d (drop (2 ^ d) xs)) d"

text \<open>Following an authentication path from a leaf.\<close>

fun path_root :: "('h \<Rightarrow> 'h \<Rightarrow> nat \<Rightarrow> 'h) \<Rightarrow> nat \<Rightarrow> 'h \<Rightarrow> (bool \<times> 'h) list \<Rightarrow> 'h" where
  "path_root C d h [] = h"
| "path_root C d h ((b, s) # ps) = path_root C (Suc d) (if b then C s h d else C h s d) ps"

text \<open>The nodes of level \<open>l\<close> over the leaves \<open>xs\<close>.\<close>

function level :: "('h \<Rightarrow> 'h \<Rightarrow> nat \<Rightarrow> 'h) \<Rightarrow> 'h \<Rightarrow> nat \<Rightarrow> 'h list \<Rightarrow> 'h list" where
  "level C u l xs = (if xs = [] then [] else mroot C u l (take (2 ^ l) xs) # level C u l (drop (2 ^ l) xs))"
  by pat_completeness auto
termination
  by (relation "measure (\<lambda>(_, _, _, xs). length xs)") auto

declare level.simps [simp del]

text \<open>The state of the tree after appending \<open>xs\<close>: the complete left subtrees of the path to the last leaf.\<close>

fun pair_up :: "('h \<Rightarrow> 'h \<Rightarrow> nat \<Rightarrow> 'h) \<Rightarrow> nat \<Rightarrow> 'h list \<Rightarrow> 'h list" where
  "pair_up C l (a # b # ns) = C a b l # pair_up C l ns"
| "pair_up C l ns = []"

lemma length_pair_up [simp]: "length (pair_up C l ns) = length ns div 2"
  by (induction C l ns rule: pair_up.induct) auto

definition left_node :: "'h list \<Rightarrow> 'h option" where
  "left_node ns = (if even (length ns) then None else Some (last ns))"

function parents_of :: "('h \<Rightarrow> 'h \<Rightarrow> nat \<Rightarrow> 'h) \<Rightarrow> nat \<Rightarrow> 'h list \<Rightarrow> 'h option list" where
  "parents_of C l ns = (if ns = [] then [] else left_node ns # parents_of C (Suc l) (pair_up C l ns))"
  by pat_completeness auto
termination
  by (relation "measure (\<lambda>(_, _, ns). length ns)") auto

declare parents_of.simps [simp del]

definition tree_of :: "('h \<Rightarrow> 'h \<Rightarrow> nat \<Rightarrow> 'h) \<Rightarrow> 'h list \<Rightarrow> 'h IncrementalMerkleTree" where
  "tree_of C xs =
     (if xs = [] then empty_tree
      else let ns = butlast xs; ps = parents_of C 1 (pair_up C 0 ns) in
        (case left_node ns of None \<Rightarrow> \<lparr>t_left = Some (last xs), t_right = None, t_parents = ps\<rparr>
         | Some l \<Rightarrow> \<lparr>t_left = Some l, t_right = Some (last xs), t_parents = ps\<rparr>))"

section \<open>Appending\<close>

lemma pair_up_append: "even (length ns) \<Longrightarrow> pair_up C l (ns @ ms) = pair_up C l ns @ pair_up C l ms"
  by (induction C l ns rule: pair_up.induct) auto

lemma left_node_snoc: "left_node (ns @ [c]) = (if even (length ns) then Some c else None)"
  by (simp add: left_node_def)

lemma left_node_cases:
  obtains (none) "even (length ns)" "left_node ns = None"
    | (some) ms h where "ns = ms @ [h]" "even (length ms)" "left_node ns = Some h"
  by (cases ns rule: rev_cases) (auto simp: left_node_def split: if_splits)

lemma pair_up_snoc:
  "pair_up C l (ns @ [c]) = (case left_node ns of None \<Rightarrow> pair_up C l ns | Some h \<Rightarrow> pair_up C l ns @ [C h c l])"
  by (rule left_node_cases [of ns]) (auto simp: pair_up_append)

lemma parents_of_snoc:
  "parents_of C l (ns @ [c]) = (if even (length ns) then Some c else None) # parents_of C (Suc l) (pair_up C l (ns @ [c]))"
  by (subst parents_of.simps) (simp add: left_node_snoc)

lemma append_parents_snoc:
  "i + length (parents_of C (Suc i) ns) < D \<Longrightarrow>
     append_parents C D i c (parents_of C (Suc i) ns) = parents_of C (Suc i) (ns @ [c])"
proof (induction C "Suc i" ns arbitrary: i c rule: parents_of.induct)
  case (1 C ns)
  show ?case
  proof (cases "ns = []")
    case True
    then show ?thesis using 1(2) by (simp add: parents_of.simps left_node_def)
  next
    case False
    note e = parents_of.simps [of C "Suc i" ns]
    have IH: "append_parents C D (Suc i) c' (parents_of C (Suc (Suc i)) (pair_up C (Suc i) ns)) =
        parents_of C (Suc (Suc i)) (pair_up C (Suc i) ns @ [c'])" for c'
      using 1 False e by simp
    show ?thesis
    proof (cases "left_node ns")
      case None
      then have "even (length ns)" by (simp add: left_node_def split: if_splits)
      then show ?thesis using e False 1(2) None
        by (simp add: parents_of_snoc [of C "Suc i" ns] pair_up_snoc)
    next
      case (Some h)
      then have "odd (length ns)" by (simp add: left_node_def split: if_splits)
      then show ?thesis using e False 1(2) Some IH
        by (simp add: parents_of_snoc [of C "Suc i" ns] pair_up_snoc)
    qed
  qed
qed

lemma length_parents_of: "length (parents_of C l ns) \<le> m \<longleftrightarrow> length ns < 2 ^ m"
proof (induction m arbitrary: l ns)
  case 0
  then show ?case by (subst parents_of.simps) simp
next
  case (Suc m)
  show ?case using Suc [of "Suc l" "pair_up C l ns"] by (subst parents_of.simps) auto
qed

lemma complete_parents_of:
  "length (parents_of C l ns) = m \<and> None \<notin> set (parents_of C l ns) \<longleftrightarrow> Suc (length ns) = 2 ^ m"
proof (induction m arbitrary: l ns)
  case 0
  then show ?case by (subst (1 2) parents_of.simps) simp
next
  case (Suc m)
  have "Suc (length ns div 2) = 2 ^ m \<and> odd (length ns) \<longleftrightarrow> Suc (length ns) = 2 ^ Suc m"
    by (auto elim!: oddE) presburger+
  then show ?case
    using Suc [of "Suc l" "pair_up C l ns"]
    by (subst (1 2) parents_of.simps) (auto simp: left_node_def)
qed

lemma tree_of_Nil [simp]: "tree_of C [] = empty_tree"
  by (simp add: tree_of_def)

lemma tree_of_snoc:
  "tree_of C (ns @ [x]) =
     (case left_node ns of
        None \<Rightarrow> \<lparr>t_left = Some x, t_right = None, t_parents = parents_of C 1 (pair_up C 0 ns)\<rparr>
      | Some l \<Rightarrow> \<lparr>t_left = Some l, t_right = Some x, t_parents = parents_of C 1 (pair_up C 0 ns)\<rparr>)"
  by (cases "left_node ns") (simp_all add: tree_of_def Let_def)

lemma is_complete_tree_of: "is_complete d (tree_of C xs) \<longleftrightarrow> 0 < d \<and> length xs = 2 ^ d"
proof (cases xs rule: rev_cases)
  case Nil
  then show ?thesis by (simp add: is_complete_def empty_tree_def)
next
  case (snoc ns x)
  show ?thesis
  proof (cases d)
    case (Suc m)
    have "Suc (length ns div 2) = 2 ^ m \<and> odd (length ns) \<longleftrightarrow> Suc (length ns) = 2 ^ Suc m"
      by (auto elim!: oddE) presburger+
    then show ?thesis
      using complete_parents_of [of C 1 "pair_up C 0 ns" m]
      by (auto simp: snoc Suc is_complete_def tree_of_snoc left_node_def)
  qed (simp add: is_complete_def)
qed

lemma imt_append_tree_of:
  assumes "length xs \<le> 2 ^ D" "0 < D"
  shows "imt_append C D y (tree_of C xs) = (if length xs = 2 ^ D then Inl TreeFull else Inr (tree_of C (xs @ [y])))"
proof (cases xs rule: rev_cases)
  case Nil
  then show ?thesis
    using tree_of_snoc [of C "[]" y]
    by (simp add: imt_append_def is_complete_def empty_tree_def left_node_def parents_of.simps)
next
  case (snoc ns x)
  show ?thesis
  proof (cases "length xs = 2 ^ D")
    case True
    then show ?thesis using is_complete_tree_of [of D C xs] assms(2) by (simp add: imt_append_def)
  next
    case False
    then have nc: "\<not> is_complete D (tree_of C xs)" by (simp add: is_complete_tree_of)
    have "length (pair_up C 0 ns) < 2 ^ (D - 1)" using assms snoc by (cases D) auto
    then have "length (parents_of C 1 (pair_up C 0 ns)) < D"
      using assms(2) length_parents_of [of C 1 "pair_up C 0 ns" "D - 1"] by linarith
    then have a: "append_parents C D 0 c (parents_of C 1 (pair_up C 0 ns)) = parents_of C 1 (pair_up C 0 ns @ [c])" for c
      using append_parents_snoc [of 0 C "pair_up C 0 ns" D c] by simp
    show ?thesis
      using nc False tree_of_snoc [of C "ns @ [x]" y] tree_of_snoc [of C ns x] a
      by (cases "left_node ns") (auto simp: snoc imt_append_def left_node_snoc pair_up_snoc left_node_def split: if_splits)
  qed
qed

section \<open>The spine of the last leaf\<close>

text \<open>The left siblings met on the way up from the last leaf, up to \<open>k\<close> levels.\<close>

fun spine :: "('h \<Rightarrow> 'h \<Rightarrow> nat \<Rightarrow> 'h) \<Rightarrow> nat \<Rightarrow> 'h list \<Rightarrow> nat \<Rightarrow> 'h option list" where
  "spine C l ns 0 = []"
| "spine C l ns (Suc k) = left_node ns # spine C (Suc l) (pair_up C l ns) k"

lemma spine_Nil: "spine C l [] k = replicate k None"
  by (induction k arbitrary: l) (simp_all add: left_node_def)

lemma spine_parents_of:
  "length (parents_of C l ns) \<le> k \<Longrightarrow>
     spine C l ns k = parents_of C l ns @ replicate (k - length (parents_of C l ns)) None"
proof (induction k arbitrary: l ns)
  case (Suc k)
  then show ?case
    using parents_of.simps [of C l ns] Suc.IH [of "Suc l" "pair_up C l ns"]
    by (cases "ns = []") (simp_all add: spine_Nil left_node_def)
qed simp

lemma root_parents_append:
  "root_parents C E d r q (ps @ ps') = (case root_parents C E d r q ps of (r', q') \<Rightarrow> root_parents C E (d + length ps) r' q' ps')"
proof (induction ps arbitrary: d r q)
  case (Cons p ps)
  show ?case by (cases p; cases "filler_next E q d") (simp_all add: Cons)
qed simp

lemma replicate_diff: "d < n \<Longrightarrow> replicate (n - d) x = x # replicate (n - Suc d) x"
  by (metis Suc_diff_Suc replicate_Suc)

lemma root_fill_parents: "root_fill C E depth d r q = fst (root_parents C E d r q (replicate (depth - d) None))"
proof (induction "depth - d" arbitrary: d r q)
  case (Suc n)
  then have "d < depth" by simp
  then show ?case
    using Suc by (subst root_fill.simps) (auto simp: replicate_diff split: prod.splits)
qed (simp add: root_fill.simps)

lemma path_parents_append:
  "path_parents E d q (ps @ ps') = (case path_parents E d q ps of (r, q') \<Rightarrow>
     (case path_parents E (d + length ps) q' ps' of (r', q'') \<Rightarrow> (r @ r', q'')))"
proof (induction ps arbitrary: d q)
  case (Cons p ps)
  show ?case by (cases p; cases "filler_next E q d") (simp_all add: Cons split: prod.splits)
qed simp

lemma path_fill_parents: "path_fill E D d q = fst (path_parents E d q (replicate (D - d) None))"
proof (induction "D - d" arbitrary: d q)
  case (Suc n)
  then have "d < D" by simp
  then show ?case
    using Suc by (subst path_fill.simps) (auto simp: replicate_diff split: prod.splits)
qed (simp add: path_fill.simps)

text \<open>The path is the record of what the root computation combines.\<close>

lemma path_root_parents: "path_root C d h (fst (path_parents E d q ps)) = fst (root_parents C E d h q ps)"
proof (induction ps arbitrary: d h q)
  case (Cons p ps)
  have *: "path_root C (Suc d) h' (fst (path_parents E (Suc d) q' ps)) = fst (root_parents C E (Suc d) h' q' ps)" for h' q'
    by (rule Cons)
  show ?case
    by (cases p; cases "filler_next E q d") (auto simp: * [symmetric] split: prod.splits)
qed simp

lemma tree_of_spine:
  assumes "length ns < 2 ^ D" "0 < D"
  shows "spine C 0 ns D = left_node ns # parents_of C 1 (pair_up C 0 ns) @
      replicate (D - 1 - length (parents_of C 1 (pair_up C 0 ns))) None"
proof -
  obtain k where D: "D = Suc k" using assms(2) by (cases D) auto
  have "length (parents_of C 1 (pair_up C 0 ns)) \<le> k"
    unfolding length_parents_of using assms(1) D by simp
  then show ?thesis using spine_parents_of [of C 1 "pair_up C 0 ns" k] by (simp add: D)
qed

lemma imt_root_spine:
  assumes "length ns < 2 ^ D" "0 < D"
  shows "imt_root C E D q (tree_of C (ns @ [x])) = fst (root_parents C E 0 x q (spine C 0 ns D))"
  unfolding tree_of_spine [OF assms]
  by (cases "left_node ns"; cases "filler_next E q 0")
    (simp_all add: imt_root_def tree_of_snoc root_fill_parents root_parents_append diff_diff_add split: prod.splits)

lemma imt_path_spine:
  assumes "length ns < 2 ^ D" "0 < D"
  shows "imt_path_up E D q (tree_of C (ns @ [x])) = Inr (fst (path_parents E 0 q (spine C 0 ns D)))"
  unfolding tree_of_spine [OF assms]
  by (cases "left_node ns"; cases "filler_next E q 0")
    (simp_all add: imt_path_up_def tree_of_snoc path_fill_parents path_parents_append diff_diff_add split: prod.splits)

section \<open>The contract of the hash and the root\<close>

text \<open>The depths of the subtrees to the right of the path, lowest first, and their roots over the leaves \<open>ys\<close> that
  follow.\<close>

fun slots :: "nat \<Rightarrow> 'h option list \<Rightarrow> nat list" where
  "slots l [] = []"
| "slots l (p # ps) = (if p = None then l # slots (Suc l) ps else slots (Suc l) ps)"

fun uncles :: "('h \<Rightarrow> 'h \<Rightarrow> nat \<Rightarrow> 'h) \<Rightarrow> 'h \<Rightarrow> nat list \<Rightarrow> 'h list \<Rightarrow> 'h list" where
  "uncles C u [] ys = []"
| "uncles C u (d # ds) ys = (if ys = [] then [] else mroot C u d (take (2 ^ d) ys) # uncles C u ds (drop (2 ^ d) ys))"

lemma uncles_Nil [simp]: "uncles C u ds [] = []"
  by (cases ds) simp_all

fun pair_pad :: "('h \<Rightarrow> 'h \<Rightarrow> nat \<Rightarrow> 'h) \<Rightarrow> 'h \<Rightarrow> nat \<Rightarrow> 'h list \<Rightarrow> 'h list" where
  "pair_pad C e l [] = []"
| "pair_pad C e l [a] = [C a e l]"
| "pair_pad C e l (a # b # ns) = C a b l # pair_pad C e l ns"

lemma pair_pad_append: "even (length ns) \<Longrightarrow> pair_pad C e l (ns @ ms) = pair_up C l ns @ pair_pad C e l ms"
  by (induction C l ns rule: pair_up.induct) auto

lemma level_Nil [simp]: "level C u l [] = []"
  by (simp add: level.simps)

lemma level_single: "xs \<noteq> [] \<Longrightarrow> length xs \<le> 2 ^ l \<Longrightarrow> level C u l xs = [mroot C u l xs]"
  by (simp add: level.simps)

lemma level_0 [simp]: "level C u 0 xs = xs"
  by (induction xs) (simp_all add: level.simps)

lemma uncles_append:
  "length zs = sum_list (map (\<lambda>d. 2 ^ d) ds) \<Longrightarrow> uncles C u (ds @ es) (zs @ ys) = uncles C u ds zs @ uncles C u es ys"
proof (induction ds arbitrary: zs)
  case (Cons d ds)
  then have l: "2 ^ d \<le> length zs" by simp
  then have "zs \<noteq> []" by auto
  then show ?case using l Cons.IH [of "drop (2 ^ d) zs"] Cons.prems by simp
qed simp

lemma length_uncles: "length zs = sum_list (map (\<lambda>d. 2 ^ d) ds) \<Longrightarrow> length (uncles C u ds zs) = length ds"
proof (induction ds arbitrary: zs)
  case (Cons d ds)
  then have "2 ^ d \<le> length zs" by simp
  then have "zs \<noteq> []" by auto
  then show ?case using Cons.IH [of "drop (2 ^ d) zs"] Cons.prems by simp
qed simp

lemma slots_append: "slots l (ps @ qs) = slots l ps @ slots (l + length ps) qs"
  by (induction ps arbitrary: l) simp_all

lemma slots_None: "slots l (replicate k None) = [l..<l + k]"
proof (induction k arbitrary: l)
  case (Suc k)
  have "[l..<l + Suc k] = l # [Suc l..<Suc l + k]" by (simp add: upt_rec)
  then show ?case by (simp add: Suc del: upt.simps upt_Suc)
qed simp

lemma slots_bounds: "d \<in> set (slots l ps) \<Longrightarrow> l \<le> d \<and> d < l + length ps"
  by (induction ps arbitrary: l) (fastforce split: if_splits)+

text \<open>The leaves of the path and the room to its right fill the tree.\<close>

lemma slots_capacity:
  "length ns < 2 ^ k \<Longrightarrow> 2 ^ l * Suc (length ns) + sum_list (map (\<lambda>d. 2 ^ d) (slots l (spine C l ns k))) = 2 ^ (l + k)"
proof (induction k arbitrary: l ns)
  case (Suc k)
  have IH: "2 ^ Suc l * Suc (length ns div 2) + sum_list (map (\<lambda>d. 2 ^ d) (slots (Suc l) (spine C (Suc l) (pair_up C l ns) k))) =
      2 ^ (Suc l + k)"
    using Suc.IH [of "pair_up C l ns" "Suc l"] Suc.prems by simp
  have e: "(2::nat) ^ Suc l * Suc (length ns div 2) = 2 ^ l * (2 + 2 * (length ns div 2))" by simp
  show ?case
  proof (rule left_node_cases [of ns])
    assume "even (length ns)" "left_node ns = None"
    then show ?thesis using IH unfolding e by (simp add: algebra_simps)
  next
    fix ms h assume "ns = ms @ [h]" "even (length ms)" "left_node ns = Some h"
    then show ?thesis using IH unfolding e by (simp add: algebra_simps)
  qed
qed simp

lemma next_parents_slots:
  "next_parents d skip ps = (let S = slots d (ps @ replicate k None) in
     if skip < length S then S ! skip else d + length ps + k + (skip - length S))"
proof (induction ps arbitrary: d skip)
  case Nil
  then show ?case by (simp add: slots_None Let_def)
next
  case (Cons p ps)
  show ?case
    using Cons.IH [of "Suc d" skip] Cons.IH [of "Suc d" "skip - 1"]
    by (cases skip) (auto simp: Let_def)
qed

lemma next_depth_tree_of:
  assumes "length ns < 2 ^ D" "0 < D"
  shows "next_depth skip (tree_of C (ns @ [x])) = (let S = slots 0 (spine C 0 ns D) in
    if skip < length S then S ! skip else D + (skip - length S))"
proof -
  let ?ps = "parents_of C 1 (pair_up C 0 ns)"
  have "length ?ps \<le> D - 1"
    unfolding length_parents_of using assms by (cases D) auto
  then have k: "1 + length ?ps + (D - 1 - length ?ps) = D" using assms(2) by simp
  note n = next_parents_slots [of 1 _ ?ps "D - 1 - length ?ps", unfolded k]
  show ?thesis
    unfolding tree_of_spine [OF assms]
    by (cases "left_node ns"; cases skip)
      (simp_all add: next_depth_def tree_of_snoc n [simplified] Let_def)
qed

text \<open>What \<^verbatim>\<open>Hash\<close> promises: the table of empty roots belongs to \<^verbatim>\<open>combine\<close>.\<close>

locale merkle_hash =
  fixes C :: "'h \<Rightarrow> 'h \<Rightarrow> nat \<Rightarrow> 'h" and E :: "nat \<Rightarrow> 'h" and D :: nat
  assumes empty_root: "d < D \<Longrightarrow> E (Suc d) = C (E d) (E d) d"
begin

lemma mroot_Nil: "d \<le> D \<Longrightarrow> mroot C (E 0) d [] = E d"
  by (induction d) (simp_all add: empty_root)

lemma level_Suc: "l < D \<Longrightarrow> level C (E 0) (Suc l) xs = pair_pad C (E l) l (level C (E 0) l xs)"
proof (induction "length xs" arbitrary: xs rule: less_induct)
  case less
  consider "xs = []" | "xs \<noteq> []" "length xs \<le> 2 ^ l" | "2 ^ l < length xs" by linarith
  then show ?case
  proof cases
    case 2
    then show ?thesis using less(2) by (simp add: level_single mroot_Nil)
  next
    case 3
    then have "drop (2 ^ l) xs \<noteq> []" "xs \<noteq> []" by auto
    then have l: "level C (E 0) l xs = mroot C (E 0) l (take (2 ^ l) xs) # mroot C (E 0) l (take (2 ^ l) (drop (2 ^ l) xs)) #
        level C (E 0) l (drop (2 ^ Suc l) xs)"
      by (simp add: level.simps [of C _ l xs] level.simps [of C _ l "drop (2 ^ l) xs"] mult_2)
    have "level C (E 0) (Suc l) xs = C (mroot C (E 0) l (take (2 ^ l) xs)) (mroot C (E 0) l (take (2 ^ l) (drop (2 ^ l) xs))) l #
        level C (E 0) (Suc l) (drop (2 ^ Suc l) xs)"
      using \<open>xs \<noteq> []\<close> by (subst level.simps) (simp add: take_drop min_def mult_2)
    also have "\<dots> = pair_pad C (E l) l (level C (E 0) l xs)"
      using less \<open>xs \<noteq> []\<close> l by simp
    finally show ?thesis .
  qed simp
qed

lemma level_climb_even:
  assumes "l < D" "even (length ns)"
  shows "pair_pad C (E l) l (ns @ r # level C (E 0) l ys) =
    pair_up C l ns @ C r (fst (filler_next E (uncles C (E 0) (l # ds) ys) l)) l # level C (E 0) (Suc l) (drop (2 ^ l) ys)"
proof (cases "ys = []")
  case False
  then show ?thesis
    using assms level_Suc [OF assms(1), of "drop (2 ^ l) ys"]
    by (simp add: pair_pad_append level.simps [of C _ l ys] filler_next_def)
qed (use assms in \<open>simp add: pair_pad_append filler_next_def\<close>)

lemma filler_uncles: "snd (filler_next E (uncles C (E 0) (l # ds) ys) l) = uncles C (E 0) ds (drop (2 ^ l) ys)"
  by (simp add: filler_next_def)

lemma climb:
  assumes "l + k \<le> D" "length zs \<le> 2 ^ (l + k)" "level C (E 0) l zs = ns @ r # level C (E 0) l ys"
  shows "fst (root_parents C E l r (uncles C (E 0) (slots l (spine C l ns k)) ys) (spine C l ns k)) = mroot C (E 0) (l + k) zs"
  using assms
proof (induction k arbitrary: l ns r ys)
  case 0
  then have "zs \<noteq> []" by auto
  then have "level C (E 0) l zs = [mroot C (E 0) l zs]" using 0 by (simp add: level_single)
  then show ?case using 0 by (cases ns) auto
next
  case (Suc k)
  have l: "l < D" using Suc.prems by simp
  show ?case
  proof (rule left_node_cases [of ns])
    assume n: "even (length ns)" "left_node ns = None"
    let ?q = "uncles C (E 0) (l # slots (Suc l) (spine C (Suc l) (pair_up C l ns) k)) ys"
    have "level C (E 0) (Suc l) zs = pair_up C l ns @ C r (fst (filler_next E ?q l)) l # level C (E 0) (Suc l) (drop (2 ^ l) ys)"
      unfolding level_Suc [OF l, of zs] Suc.prems(3) by (rule level_climb_even [OF l n(1)])
    then show ?thesis
      using Suc.IH [of "Suc l" "pair_up C l ns"] Suc.prems n filler_uncles
      by (simp add: split_beta del: uncles.simps)
  next
    fix ms h assume n: "ns = ms @ [h]" "even (length ms)" "left_node ns = Some h"
    then have "level C (E 0) (Suc l) zs = pair_up C l ns @ C h r l # level C (E 0) (Suc l) ys"
      by (simp add: level_Suc [OF l] Suc.prems(3) pair_pad_append pair_up_append)
    then show ?thesis
      using Suc.IH [of "Suc l" "pair_up C l ns"] Suc.prems n(3) by simp
  qed
qed

lemma fill_empty: "l + k \<le> D \<Longrightarrow> fst (root_parents C E l (E l) [] (replicate k None)) = E (l + k)"
  by (induction k arbitrary: l) (simp_all add: filler_next_def empty_root [symmetric])

lemma imt_root_uncles:
  assumes "0 < d" "d \<le> D" "length (ns @ x # ys) \<le> 2 ^ d"
  shows "imt_root C E d (uncles C (E 0) (slots 0 (spine C 0 ns d)) ys) (tree_of C (ns @ [x])) = mroot C (E 0) d (ns @ x # ys)"
proof -
  have "length ns < 2 ^ d" using assms(3) by simp
  then show ?thesis
    using climb [of 0 d "ns @ x # ys" ns x ys] assms by (simp add: imt_root_spine)
qed

lemma imt_root_tree_of:
  assumes "0 < d" "d \<le> D" "length xs \<le> 2 ^ d"
  shows "imt_root C E d [] (tree_of C xs) = mroot C (E 0) d xs"
proof (cases xs rule: rev_cases)
  case Nil
  then show ?thesis
    using assms fill_empty [of 1 "d - 1"] empty_root [of 0] mroot_Nil [of d]
    by (simp add: imt_root_def empty_tree_def filler_next_def root_fill_parents)
next
  case (snoc ns x)
  then show ?thesis using imt_root_uncles [OF assms(1,2), of ns x "[]"] assms by simp
qed

end

section \<open>Witnesses\<close>

text \<open>A witness of the leaf \<open>x\<close> after \<open>ns\<close>, to which \<open>ys\<close> has been appended: the subtrees to the right are filled
  in order, and the cursor is the one being filled.\<close>

definition witness_rep :: "('h \<Rightarrow> 'h \<Rightarrow> nat \<Rightarrow> 'h) \<Rightarrow> 'h \<Rightarrow> nat \<Rightarrow> 'h list \<Rightarrow> 'h \<Rightarrow> 'h list \<Rightarrow> 'h IncrementalWitness \<Rightarrow> bool" where
  "witness_rep C u D ns x ys w \<longleftrightarrow> w_tree w = tree_of C (ns @ [x]) \<and>
     (let S = slots 0 (spine C 0 ns D); m = length (w_filled w) in
      \<exists>zs rest. ys = zs @ rest \<and> m \<le> length S \<and> length zs = sum_list (map (\<lambda>d. 2 ^ d) (take m S)) \<and>
        w_filled w = uncles C u (take m S) zs \<and>
        (case w_cursor w of None \<Rightarrow> rest = []
         | Some c \<Rightarrow> m < length S \<and> w_cursor_depth w = S ! m \<and> 0 < S ! m \<and> rest \<noteq> [] \<and>
             length rest < 2 ^ (S ! m) \<and> c = tree_of C rest))"

lemma witness_repI:
  assumes "w_tree w = tree_of C (ns @ [x])" "length (w_filled w) \<le> length (slots 0 (spine C 0 ns D))"
    and "length zs = sum_list (map (\<lambda>d. 2 ^ d) (take (length (w_filled w)) (slots 0 (spine C 0 ns D))))"
    and "w_filled w = uncles C u (take (length (w_filled w)) (slots 0 (spine C 0 ns D))) zs"
    and "case w_cursor w of None \<Rightarrow> rest = []
      | Some c \<Rightarrow> length (w_filled w) < length (slots 0 (spine C 0 ns D)) \<and>
          w_cursor_depth w = slots 0 (spine C 0 ns D) ! length (w_filled w) \<and>
          0 < slots 0 (spine C 0 ns D) ! length (w_filled w) \<and> rest \<noteq> [] \<and>
          length rest < 2 ^ (slots 0 (spine C 0 ns D) ! length (w_filled w)) \<and> c = tree_of C rest"
  shows "witness_rep C u D ns x (zs @ rest) w"
  using assms unfolding witness_rep_def Let_def by blast

lemma witness_repE:
  assumes "witness_rep C u D ns x ys w"
  obtains zs rest where "ys = zs @ rest" "length (w_filled w) \<le> length (slots 0 (spine C 0 ns D))"
    and "length zs = sum_list (map (\<lambda>d. 2 ^ d) (take (length (w_filled w)) (slots 0 (spine C 0 ns D))))"
    and "w_filled w = uncles C u (take (length (w_filled w)) (slots 0 (spine C 0 ns D))) zs"
    and "w_tree w = tree_of C (ns @ [x])"
    and "case w_cursor w of None \<Rightarrow> rest = []
      | Some c \<Rightarrow> length (w_filled w) < length (slots 0 (spine C 0 ns D)) \<and>
          w_cursor_depth w = slots 0 (spine C 0 ns D) ! length (w_filled w) \<and>
          0 < slots 0 (spine C 0 ns D) ! length (w_filled w) \<and> rest \<noteq> [] \<and>
          length rest < 2 ^ (slots 0 (spine C 0 ns D) ! length (w_filled w)) \<and> c = tree_of C rest"
  using assms unfolding witness_rep_def Let_def by blast

lemma uncles_fill:
  assumes "fs = uncles C u (take m S) zs" "length zs = sum_list (map (\<lambda>d. 2 ^ d) (take m S))" "m < length S"
    and "length ts = 2 ^ (S ! m)"
  shows "uncles C u (take (Suc m) S) (zs @ ts) = fs @ [mroot C u (S ! m) ts]"
    and "length (zs @ ts) = sum_list (map (\<lambda>d. 2 ^ d) (take (Suc m) S))"
  using assms uncles_append [OF assms(2), of C u "[S ! m]" ts] by (auto simp: take_Suc_conv_app_nth)

lemma witness_rep_init: "witness_rep C u D ns x [] (imt_witness (tree_of C (ns @ [x])))"
  by (simp add: witness_rep_def imt_witness_def)

lemma slot_less: "m < length (slots 0 (spine C 0 ns D)) \<Longrightarrow> slots 0 (spine C 0 ns D) ! m < D"
proof -
  have "length (spine C l ns D) = D" for l by (induction D arbitrary: l ns) simp_all
  then show "m < length (slots 0 (spine C 0 ns D)) \<Longrightarrow> ?thesis"
    using slots_bounds [of "slots 0 (spine C 0 ns D) ! m" 0 "spine C 0 ns D"] nth_mem by fastforce
qed

context merkle_hash
begin

lemma witness_partial_path:
  assumes "witness_rep C (E 0) D ns x ys w"
  shows "partial_path C E w = uncles C (E 0) (slots 0 (spine C 0 ns D)) ys"
proof -
  let ?S = "slots 0 (spine C 0 ns D)" and ?m = "length (w_filled w)"
  obtain zs rest where r: "ys = zs @ rest" "length zs = sum_list (map (\<lambda>d. 2 ^ d) (take ?m ?S))"
    "w_filled w = uncles C (E 0) (take ?m ?S) zs"
    and c: "case w_cursor w of None \<Rightarrow> rest = []
         | Some c \<Rightarrow> ?m < length ?S \<and> w_cursor_depth w = ?S ! ?m \<and> 0 < ?S ! ?m \<and> rest \<noteq> [] \<and>
             length rest < 2 ^ (?S ! ?m) \<and> c = tree_of C rest"
    using assms by (rule witness_repE)
  have "uncles C (E 0) ?S ys = w_filled w @ uncles C (E 0) (drop ?m ?S) rest"
    using uncles_append [OF r(2), of C "E 0" "drop ?m ?S" rest] r by simp
  moreover have "uncles C (E 0) (drop ?m ?S) rest =
      (case w_cursor w of Some c \<Rightarrow> [imt_root C E (w_cursor_depth w) [] c] | None \<Rightarrow> [])"
  proof (cases "w_cursor w")
    case (Some cu)
    then show ?thesis
      using c slot_less [of ?m C ns D] by (simp add: Cons_nth_drop_Suc [symmetric] imt_root_tree_of)
  qed (use c in simp)
  ultimately show ?thesis by (simp add: partial_path_def)
qed

lemma witness_room:
  assumes "witness_rep C (E 0) D ns x ys w" "length (ns @ x # ys) < 2 ^ D" "w_cursor w = None"
  shows "length (w_filled w) < length (slots 0 (spine C 0 ns D))"
proof (rule ccontr)
  assume "\<not> ?thesis"
  then have "length ys = sum_list (map (\<lambda>d. 2 ^ d) (slots 0 (spine C 0 ns D)))"
    using assms(1,3) by (auto simp: witness_rep_def Let_def)
  then show False using slots_capacity [of ns D 0 C] assms(2) by simp
qed

lemma witness_append_fresh:
  assumes w: "witness_rep C (E 0) D ns x ys w" and len: "length (ns @ x # ys) < 2 ^ D" and None: "w_cursor w = None"
  shows "\<exists>w'. witness_append C E D y w = Inr w' \<and> witness_rep C (E 0) D ns x (ys @ [y]) w'"
proof -
  let ?S = "slots 0 (spine C 0 ns D)" and ?m = "length (w_filled w)"
  have D: "0 < D" "length ns < 2 ^ D" using len by (cases D; simp)+
  have r: "length ys = sum_list (map (\<lambda>d. 2 ^ d) (take ?m ?S))"
    "w_filled w = uncles C (E 0) (take ?m ?S) ys" "w_tree w = tree_of C (ns @ [x])"
    using witness_repE [OF w] None by auto
  have m: "?m < length ?S" by (rule witness_room [OF w len None])
  then have d: "next_depth ?m (w_tree w) = ?S ! ?m" "?S ! ?m < D"
    using next_depth_tree_of [OF D(2,1), of ?m C x] r(3) slot_less by (auto simp: Let_def)
  show ?thesis
  proof (cases "?S ! ?m = 0")
    case True
    then have "witness_rep C (E 0) D ns x (ys @ [y]) (w\<lparr>w_cursor_depth := 0, w_filled := w_filled w @ [y]\<rparr>)"
      using uncles_fill [OF r(2,1) m, of "[y]"] m r(3) None
      by (intro witness_repI [where zs = "ys @ [y]" and rest = "[]", simplified]) auto
    then show ?thesis using None d True D by (simp add: witness_append_def)
  next
    case False
    then have "length [y] < 2 ^ (?S ! ?m)" using one_less_power [of "2 :: nat" "?S ! ?m"] by simp
    then have "witness_rep C (E 0) D ns x (ys @ [y]) (w\<lparr>w_cursor_depth := ?S ! ?m, w_cursor := Some (tree_of C [y])\<rparr>)"
      using r m False by (intro witness_repI [where rest = "[y]"]) auto
    then show ?thesis
      using None d False D imt_append_tree_of [of "[]" D C y] by (simp add: witness_append_def Let_def)
  qed
qed

lemma witness_append_cursor:
  assumes w: "witness_rep C (E 0) D ns x ys w" and Some: "w_cursor w = Some cu"
  shows "\<exists>w'. witness_append C E D y w = Inr w' \<and> witness_rep C (E 0) D ns x (ys @ [y]) w'"
proof -
  let ?S = "slots 0 (spine C 0 ns D)" and ?m = "length (w_filled w)"
  obtain zs rest where r: "ys = zs @ rest" "length zs = sum_list (map (\<lambda>d. 2 ^ d) (take ?m ?S))"
    "w_filled w = uncles C (E 0) (take ?m ?S) zs" "w_tree w = tree_of C (ns @ [x])"
    and c: "case w_cursor w of None \<Rightarrow> rest = []
         | Some c \<Rightarrow> ?m < length ?S \<and> w_cursor_depth w = ?S ! ?m \<and> 0 < ?S ! ?m \<and> rest \<noteq> [] \<and>
             length rest < 2 ^ (?S ! ?m) \<and> c = tree_of C rest"
    using w by (rule witness_repE)
  then have cu: "?m < length ?S" "w_cursor_depth w = ?S ! ?m" "0 < ?S ! ?m" "length rest < 2 ^ (?S ! ?m)" "cu = tree_of C rest"
    using Some by simp_all
  have "length rest < 2 ^ D"
    using cu(4) slot_less [OF cu(1)] power_increasing [of "?S ! ?m" D "2 :: nat"] by linarith
  then have a: "imt_append C D y cu = Inr (tree_of C (rest @ [y]))"
    using imt_append_tree_of [of rest D C y] cu(5) slot_less [OF cu(1)] by simp
  show ?thesis
  proof (cases "Suc (length rest) = 2 ^ (?S ! ?m)")
    case True
    then have "imt_root C E (?S ! ?m) [] (tree_of C (rest @ [y])) = mroot C (E 0) (?S ! ?m) (rest @ [y])"
      using cu slot_less [OF cu(1)] by (intro imt_root_tree_of) auto
    then have "witness_rep C (E 0) D ns x (ys @ [y])
        (w\<lparr>w_filled := w_filled w @ [imt_root C E (?S ! ?m) [] (tree_of C (rest @ [y]))], w_cursor := None\<rparr>)"
      using uncles_fill [OF r(3,2) cu(1), of "rest @ [y]"] cu True r
      by (intro witness_repI [where zs = "ys @ [y]" and rest = "[]", simplified]) auto
    then show ?thesis using a cu Some True by (simp add: witness_append_def is_complete_tree_of)
  next
    case False
    then have "witness_rep C (E 0) D ns x (ys @ [y]) (w\<lparr>w_cursor := Some (tree_of C (rest @ [y]))\<rparr>)"
      using cu r witness_repI [where zs = zs and rest = "rest @ [y]"] by auto
    then show ?thesis using a cu Some False by (simp add: witness_append_def is_complete_tree_of)
  qed
qed

lemma witness_append_full:
  assumes w: "witness_rep C (E 0) D ns x ys w" and len: "length (ns @ x # ys) = 2 ^ D" and "0 < D"
  shows "witness_append C E D y w = Inl TreeFull"
proof -
  let ?S = "slots 0 (spine C 0 ns D)" and ?m = "length (w_filled w)"
  have D: "0 < D" "length ns < 2 ^ D" using len assms(3) by simp_all
  have cap: "length ys = sum_list (map (\<lambda>d. 2 ^ d) ?S)" using slots_capacity [OF D(2), of 0 C] len by simp
  obtain zs rest where r: "ys = zs @ rest" "?m \<le> length ?S" "length zs = sum_list (map (\<lambda>d. 2 ^ d) (take ?m ?S))"
    "w_tree w = tree_of C (ns @ [x])"
    and c: "case w_cursor w of None \<Rightarrow> rest = []
         | Some c \<Rightarrow> ?m < length ?S \<and> w_cursor_depth w = ?S ! ?m \<and> 0 < ?S ! ?m \<and> rest \<noteq> [] \<and>
             length rest < 2 ^ (?S ! ?m) \<and> c = tree_of C rest"
    using w by (rule witness_repE)
  have split: "sum_list (map (\<lambda>d. 2 ^ d) ?S) = length zs + 2 ^ (?S ! ?m) + sum_list (map (\<lambda>d. 2 ^ d) (drop (Suc ?m) ?S))"
    if "?m < length ?S"
    using that by (subst id_take_nth_drop [OF that]) (simp add: r(3))
  have m: "\<not> ?m < length ?S"
  proof
    assume "?m < length ?S"
    then show False using split cap r(1) c by (cases "w_cursor w") auto
  qed
  then have "w_cursor w = None" using c by (cases "w_cursor w") auto
  then show ?thesis
    using m r(4) next_depth_tree_of [OF D(2,1), of ?m C x] by (simp add: witness_append_def Let_def)
qed

lemma witness_append_rep:
  assumes "witness_rep C (E 0) D ns x ys w" "length (ns @ x # ys) < 2 ^ D"
  shows "\<exists>w'. witness_append C E D y w = Inr w' \<and> witness_rep C (E 0) D ns x (ys @ [y]) w'"
  using witness_append_fresh [OF assms] witness_append_cursor [OF assms(1)] by (cases "w_cursor w") auto

lemma witness_appends_rep:
  assumes "witness_rep C (E 0) D ns x ys w" "length (ns @ x # ys @ zs) \<le> 2 ^ D"
  shows "\<exists>w'. rfold (witness_append C E D) zs w = Inr w' \<and> witness_rep C (E 0) D ns x (ys @ zs) w'"
  using assms
proof (induction zs arbitrary: ys w)
  case (Cons z zs)
  then obtain w1 where "witness_append C E D z w = Inr w1" "witness_rep C (E 0) D ns x (ys @ [z]) w1"
    using witness_append_rep [OF Cons.prems(1), of z] by auto
  then show ?case using Cons.IH [of "ys @ [z]" w1] Cons.prems(2) by simp
qed simp

end

section \<open>Size, index and well-formedness\<close>

lemma spine_bits: "map (\<lambda>p. p \<noteq> None) (spine C l ns k) = map (bit (length ns)) [0..<k]"
proof (induction k arbitrary: l ns)
  case (Suc k)
  have "[0..<Suc k] = 0 # map Suc [0..<k]" by (simp add: upt_conv_Cons map_Suc_upt del: upt_Suc)
  then show ?case
    using Suc by (simp add: left_node_def bit_0 bit_Suc comp_def del: upt_Suc)
qed simp

lemma path_bits: "map fst (fst (path_parents E d q ps)) = map (\<lambda>p. p \<noteq> None) ps"
proof (induction ps arbitrary: d q)
  case (Cons p ps)
  show ?case
    by (cases p; cases "filler_next E q d") (simp_all add: split_beta Cons del: not_None_eq)
qed simp

lemma wrap32_power: "i < 31 \<Longrightarrow> wrap32 (2 ^ i) = 2 ^ i"
proof -
  assume "i < 31"
  then have "(2::int) ^ i < 2 ^ 31" by (intro power_strict_increasing) simp_all
  moreover have "(0::int) \<le> 2 ^ i" by simp
  ultimately have "int32_range (2 ^ i)" unfolding int32_range_def by linarith
  then show ?thesis by (rule wrap32_id)
qed

text \<open>The shape of a tree with \<open>n\<close> leaves, said without the code: the parents are set where the number of pairs
  of leaves below the current one has a one among its binary digits, the lowest first.\<close>

fun binary_digits :: "nat \<Rightarrow> bool list" where
  "binary_digits n = (if n = 0 then [] else odd n # binary_digits (n div 2))"

declare binary_digits.simps [simp del]

definition tree_shape :: "nat \<Rightarrow> 'h IncrementalMerkleTree \<Rightarrow> bool" where
  "tree_shape n t \<longleftrightarrow> (t_left t \<noteq> None \<longleftrightarrow> 0 < n) \<and> (t_right t \<noteq> None \<longleftrightarrow> 0 < n \<and> even n) \<and>
     map (\<lambda>p. p \<noteq> None) (t_parents t) = binary_digits ((n - 1) div 2)"

definition canonical_tree :: "nat \<Rightarrow> 'h IncrementalMerkleTree \<Rightarrow> bool" where
  "canonical_tree D t \<longleftrightarrow> (\<exists>n \<le> 2 ^ D. tree_shape n t)"

lemma binary_digits_0 [simp]: "binary_digits 0 = []"
  by (simp add: binary_digits.simps)

lemma binary_digits_pos: "0 < n \<Longrightarrow> binary_digits n = odd n # binary_digits (n div 2)"
  by (subst binary_digits.simps) simp

lemma binary_digits_last: "binary_digits n \<noteq> [] \<Longrightarrow> last (binary_digits n)"
proof (induction n rule: binary_digits.induct)
  case (1 n)
  then have n: "n \<noteq> 0" by (cases "n = 0") auto
  show ?case
  proof (cases "n div 2 = 0")
    case True
    then have "n = 1" using n by linarith
    then show ?thesis by (simp add: binary_digits.simps)
  next
    case False
    then have "binary_digits (n div 2) \<noteq> []" by (subst binary_digits.simps) simp
    then show ?thesis using 1(1) n by (simp add: binary_digits_pos)
  qed
qed

lemma binary_digits_length: "length (binary_digits n) \<le> k \<longleftrightarrow> n < 2 ^ k"
proof (induction k arbitrary: n)
  case 0
  show ?case by (subst binary_digits.simps) simp
next
  case (Suc k)
  have "n div 2 < 2 ^ k \<longleftrightarrow> n < 2 ^ Suc k" by auto
  then show ?case using Suc [of "n div 2"] by (cases "n = 0") (simp_all add: binary_digits_pos)
qed

lemma binary_digits_onto: "bs = [] \<or> last bs \<Longrightarrow> \<exists>n. binary_digits n = bs"
proof (induction bs)
  case (Cons b bs)
  then obtain n where n: "binary_digits n = bs" by (cases bs) auto
  have "0 < 2 * n + of_bool b" using Cons.prems n by (cases b; cases "n = 0") auto
  then have "binary_digits (2 * n + of_bool b) = b # bs" using n by (simp add: binary_digits_pos)
  then show ?case by blast
qed (use binary_digits_0 in blast)

lemma parents_of_digits: "map (\<lambda>p. p \<noteq> None) (parents_of C l ns) = binary_digits (length ns)"
proof (induction C l ns rule: parents_of.induct)
  case (1 C l ns)
  show ?case
  proof (cases "ns = []")
    case False
    then show ?thesis using 1 parents_of.simps [of C l ns]
      by (simp add: binary_digits_pos left_node_def del: not_None_eq)
  qed (simp add: parents_of.simps)
qed

lemma tree_of_shape: "tree_shape (length xs) (tree_of C xs)"
proof (cases xs rule: rev_cases)
  case Nil
  then show ?thesis by (simp add: tree_shape_def empty_tree_def)
next
  case (snoc ns x)
  then show ?thesis using parents_of_digits [of C 1 "pair_up C 0 ns"]
    by (auto simp: tree_shape_def tree_of_snoc left_node_def simp del: not_None_eq)
qed

text \<open>\<^verbatim>\<open>size\<close> reads the digits; the term of the topmost parent of a Sapling tree is \<^verbatim>\<open>1 << 31\<close>, negative as an \<^verbatim>\<open>int\<close>.\<close>

lemma size_parents_digits:
  assumes "map (\<lambda>p. p \<noteq> None) ps = binary_digits m" "i + length ps \<le> 31"
  shows "size_parents i ps ret = ret + of_nat (2 ^ Suc i * m) - (if ps \<noteq> [] \<and> i + length ps = 31 then 2 ^ 32 else 0)"
  using assms
proof (induction ps arbitrary: i m ret)
  case Nil
  then have "m = 0" by (cases "m = 0") (simp_all add: binary_digits_pos)
  then show ?case by simp
next
  case (Cons p ps)
  have m: "m \<noteq> 0" using Cons.prems(1) by (cases "m = 0") simp_all
  then have p: "(p \<noteq> None) = odd m" and ps: "map (\<lambda>p. p \<noteq> None) ps = binary_digits (m div 2)"
    using Cons.prems(1) by (simp_all add: binary_digits_pos del: not_None_eq)
  have split: "2 ^ Suc (Suc i) * (m div 2) + (if odd m then 2 ^ Suc i else 0) = 2 ^ Suc i * m"
    by (cases "even m") (auto elim!: evenE oddE simp: algebra_simps)
  have IH: "size_parents (Suc i) ps r = r + of_nat (2 ^ Suc (Suc i) * (m div 2)) - (if ps \<noteq> [] \<and> Suc i + length ps = 31 then 2 ^ 32 else 0)" for r
    using Cons.IH [OF ps, of "Suc i" r] Cons.prems(2) by simp
  show ?case
  proof (cases "i = 30")
    case True
    then have e: "ps = []" using Cons.prems(2) by simp
    then have "m div 2 = 0" using ps by (cases "m div 2 = 0") (simp_all add: binary_digits_pos)
    then have "m = 1" using m by linarith
    moreover have "wrap32 (2 ^ 31) = - (2 ^ 31)" by (simp add: wrap32_def)
    ultimately show ?thesis using e p True by simp
  next
    case False
    then have w: "wrap32 (2 ^ Suc i) = 2 ^ Suc i" using Cons.prems(2) by (intro wrap32_power) simp
    have "ret + (if odd m then of_nat (2 ^ Suc i) else 0) + of_nat (2 ^ Suc (Suc i) * (m div 2)) = (ret + of_nat (2 ^ Suc i * m) :: u64)"
      using arg_cong [OF split, of "of_nat :: nat \<Rightarrow> u64"] by (cases "odd m") (simp_all add: algebra_simps)
    moreover have "ps \<noteq> [] \<and> Suc i + length ps = 31 \<longleftrightarrow> p # ps \<noteq> [] \<and> i + length (p # ps) = 31" using False by auto
    ultimately show ?thesis using IH p w by (cases "odd m") (simp_all add: algebra_simps)
  qed
qed

lemma imt_size_shape:
  assumes "tree_shape n t" "n \<le> 2 ^ 32"
  shows "imt_size t = of_nat n - (if n \<le> 2 ^ 31 then 0 else 2 ^ 32)"
proof (cases "n = 0")
  case True
  then show ?thesis using assms(1) by (simp add: tree_shape_def imt_size_def)
next
  case False
  let ?m = "(n - 1) div 2"
  have d: "map (\<lambda>p. p \<noteq> None) (t_parents t) = binary_digits ?m" using assms(1) by (simp add: tree_shape_def)
  have "?m < 2 ^ 31" using assms(2) by auto
  then have "length (binary_digits ?m) \<le> 31" by (simp only: binary_digits_length)
  then have len: "length (t_parents t) \<le> 31" using arg_cong [OF d, of length] by simp
  have "length (binary_digits ?m) \<le> 30 \<longleftrightarrow> ?m < 2 ^ 30" by (rule binary_digits_length)
  then have top: "length (t_parents t) \<le> 30 \<longleftrightarrow> n \<le> 2 ^ 31" using arg_cong [OF d, of length] False by auto
  have n: "n = 2 * ?m + 1 + of_bool (even n)" using False by (cases "even n") (auto elim!: evenE oddE)
  have "imt_size t = 1 + of_bool (even n) + of_nat (2 * ?m) - (if t_parents t \<noteq> [] \<and> length (t_parents t) = 31 then 2 ^ 32 else 0)"
    using assms(1) False size_parents_digits [OF d, of 0] len by (simp add: imt_size_def tree_shape_def)
  also have "1 + of_bool (even n) + of_nat (2 * ?m) = (of_nat n :: u64)"
    using arg_cong [OF n, of "of_nat :: nat \<Rightarrow> u64"] by (simp only: of_nat_add of_nat_1 of_nat_of_bool ac_simps)
  finally show ?thesis using top len by (auto split: if_splits)
qed

lemma imt_size_tree_of:
  assumes "length xs \<le> 2 ^ 32"
  shows "imt_size (tree_of C xs) = of_nat (length xs) - (if length xs \<le> 2 ^ 31 then 0 else 2 ^ 32)"
  using imt_size_shape [OF tree_of_shape assms] .

text \<open>\<^verbatim>\<open>wfcheck\<close> accepts exactly the shapes of trees with at most \<open>2 ^ D\<close> leaves.\<close>

lemma wfcheck_shape:
  assumes "0 < D"
  shows "wfcheck D t = Inr () \<longleftrightarrow> canonical_tree D t"
  unfolding canonical_tree_def
proof
  let ?b = "map (\<lambda>p. p \<noteq> None) (t_parents t)"
  assume w: "wfcheck D t = Inr ()"
  then have "t_parents t = [] \<or> last (t_parents t) \<noteq> None" by (simp add: wfcheck_def split: if_splits)
  then have "?b = [] \<or> last ?b" by (cases "t_parents t = []") (simp_all add: last_map)
  then obtain m where m: "binary_digits m = ?b" using binary_digits_onto by metis
  have "length ?b \<le> D - 1" using w assms by (auto simp: wfcheck_def split: if_splits)
  then have lt: "m < 2 ^ (D - 1)" unfolding m [symmetric] by (simp only: binary_digits_length)
  have D: "(2 :: nat) ^ D = 2 * 2 ^ (D - 1)" using assms by (cases D) simp_all
  show "\<exists>n \<le> 2 ^ D. tree_shape n t"
  proof (cases "t_left t = None")
    case True
    then have "tree_shape 0 t" using w by (auto simp: wfcheck_def tree_shape_def split: if_splits)
    then show ?thesis by (intro exI [of _ 0]) simp
  next
    case False
    let ?n = "2 * m + 1 + of_bool (t_right t \<noteq> None)"
    have "tree_shape ?n t" using False m by (cases "t_right t") (simp_all add: tree_shape_def)
    moreover have "?n \<le> 2 ^ D" using lt D by (cases "t_right t") simp_all
    ultimately show ?thesis by blast
  qed
next
  assume "\<exists>n \<le> 2 ^ D. tree_shape n t"
  then obtain n where n: "n \<le> 2 ^ D" "tree_shape n t" by blast
  let ?b = "map (\<lambda>p. p \<noteq> None) (t_parents t)" and ?m = "(n - 1) div 2"
  have d: "?b = binary_digits ?m" using n(2) by (simp add: tree_shape_def)
  have "?m < k" if "n \<le> 2 * k" "0 < k" for k using that by presburger
  then have "?m < 2 ^ (D - 1)" using n(1) assms by (cases D) simp_all
  then have "length (binary_digits ?m) \<le> D - 1" by (simp only: binary_digits_length)
  then have "length (t_parents t) < D" using arg_cong [OF d, of length] assms by simp
  moreover have "t_parents t \<noteq> [] \<Longrightarrow> last (t_parents t) \<noteq> None"
    using binary_digits_last [of ?m] d [symmetric] by (auto simp: last_map)
  moreover have "n = 0 \<Longrightarrow> t_parents t = []" using d by simp
  ultimately show "wfcheck D t = Inr ()" using n(2) by (cases "n = 0") (auto simp: wfcheck_def tree_shape_def)
qed

lemma wfcheck_tree_of:
  assumes "length xs \<le> 2 ^ D" "0 < D"
  shows "wfcheck D (tree_of C xs) = Inr ()"
  using tree_of_shape [of xs C] assms wfcheck_shape by (auto simp: canonical_tree_def)

section \<open>Sprout and serialization\<close>

definition SHA256Compress_combine :: "uint256 \<Rightarrow> uint256 \<Rightarrow> nat \<Rightarrow> uint256" where
  "SHA256Compress_combine a b depth =
     of_nat (le_to_nat (projr (CSHA256_FinalizeNoPadding True
       (CSHA256_Write (Serialize_uint256 b) (CSHA256_Write (Serialize_uint256 a) CSHA256)))))"

definition INCREMENTAL_MERKLE_TREE_DEPTH :: nat where "INCREMENTAL_MERKLE_TREE_DEPTH = 29"

definition SAPLING_INCREMENTAL_MERKLE_TREE_DEPTH :: nat where "SAPLING_INCREMENTAL_MERKLE_TREE_DEPTH = 32"

text \<open>The exception of \<^verbatim>\<open>FinalizeNoPadding\<close> is not reached, and the node is one application of the compression
  function of FIPS 180-4.\<close>

lemma SHA256Compress_combine_eq:
  "SHA256Compress_combine a b depth =
     of_nat (le_to_nat (concat (map WriteBE32 (fips_sha256_f sha256_Initialize (Serialize_uint256 a @ Serialize_uint256 b)))))"
proof -
  let ?m = "Serialize_uint256 a @ Serialize_uint256 b"
  have m: "length ?m = 64" by (simp add: Serialize_uint256_def)
  have "hasher_rep 64 sha256_Transform sha256_Initialize (fold CSHA256_Write [Serialize_uint256 a, Serialize_uint256 b] CSHA256) ?m"
    using sha256_stream.rep_writes [OF sha256_stream.rep_init, of "[Serialize_uint256 a, Serialize_uint256 b]"] by simp
  then obtain st where st: "fold CSHA256_Write [Serialize_uint256 a, Serialize_uint256 b] CSHA256 = st"
    "hbytes st = of_nat (length ?m)" "hs st = md_compress 64 sha256_Transform sha256_Initialize ?m"
    by (simp add: hasher_rep_def)
  have "hs st = fips_sha256_f sha256_Initialize ?m"
    using st(3) md_compress_block [of ?m 64 sha256_Transform sha256_Initialize "[]"] m
      sha256_Transform_fips [OF length_sha2_Initialize(1), of ?m] by (simp add: md_compress_short)
  moreover have "hbytes st = 64" unfolding st(2) m by simp
  ultimately show ?thesis
    using st(1) by (simp add: SHA256Compress_combine_def CSHA256_FinalizeNoPadding_def)
qed

interpretation sprout_hash: merkle_hash SHA256Compress_combine "\<lambda>d. mroot SHA256Compress_combine 0 d []"
  INCREMENTAL_MERKLE_TREE_DEPTH
  by unfold_locales simp

text \<open>\<^verbatim>\<open>SerializationOp\<close>; \<^verbatim>\<open>wfcheck\<close> runs after reading and after writing.\<close>

definition sizeof_optional_uint256 :: nat where "sizeof_optional_uint256 = 33"

definition Serialize_tree :: "nat \<Rightarrow> uint256 IncrementalMerkleTree \<Rightarrow> ser_error + bytes" where
  "Serialize_tree D t = rbind (wfcheck D t) (\<lambda>_.
     Inr (Serialize_optional Serialize_uint256 (t_left t) @ Serialize_optional Serialize_uint256 (t_right t) @
       Serialize_vector (Serialize_optional Serialize_uint256) (t_parents t)))"

definition Unserialize_tree :: "nat \<Rightarrow> uint256 IncrementalMerkleTree sparser" where
  "Unserialize_tree D =
     pbind (Unserialize_optional Unserialize_uint256) (\<lambda>l.
     pbind (Unserialize_optional Unserialize_uint256) (\<lambda>r.
     pbind (Unserialize_vector sizeof_optional_uint256 (Unserialize_optional Unserialize_uint256)) (\<lambda>ps.
     let t = \<lparr>t_left = l, t_right = r, t_parents = ps\<rparr> in
     case wfcheck D t of Inl e \<Rightarrow> pfail e | Inr _ \<Rightarrow> preturn t)))"

interpretation opt256: codec "Serialize_optional Serialize_uint256" "Unserialize_optional Unserialize_uint256" "\<lambda>_. True"
  using u256.optional_codec by (simp add: option.pred_True)

interpretation vopt256: codec "Serialize_vector (Serialize_optional Serialize_uint256)"
  "Unserialize_vector sizeof_optional_uint256 (Unserialize_optional Unserialize_uint256)" "\<lambda>ps. length ps \<le> unat MAX_SIZE"
  using opt256.vector_codec [of sizeof_optional_uint256] by (simp add: sizeof_optional_uint256_def list.pred_True)

lemma wfcheck_short: "wfcheck D t = Inr () \<Longrightarrow> length (t_parents t) < D"
  by (simp add: wfcheck_def split: if_splits)

lemma wfcheck_parse:
  "(case wfcheck D t of Inl e \<Rightarrow> pfail e | Inr _ \<Rightarrow> preturn t) bs = Inr (t', r) \<longleftrightarrow> wfcheck D t = Inr () \<and> t' = t \<and> r = bs"
  by (cases "wfcheck D t") (auto simp: parser_simps)

interpretation tree: codec "\<lambda>t. projr (Serialize_tree D t)" "Unserialize_tree D"
  "\<lambda>t. wfcheck D t = Inr () \<and> length (t_parents t) \<le> unat MAX_SIZE" for D
proof
  show "Unserialize_tree D (projr (Serialize_tree D t) @ r) = Inr (t, r)"
    if "wfcheck D t = Inr () \<and> length (t_parents t) \<le> unat MAX_SIZE" for t r
    using that by (cases t) (simp add: Serialize_tree_def Unserialize_tree_def parser_simps Let_def opt256.dec_enc vopt256.dec_enc)
  show "(wfcheck D t = Inr () \<and> length (t_parents t) \<le> unat MAX_SIZE) \<and> bs = projr (Serialize_tree D t) @ r"
    if "Unserialize_tree D bs = Inr (t, r)" for bs t r
    using that by (auto simp: Serialize_tree_def Unserialize_tree_def parser_simps opt256.dec_iff vopt256.dec_iff Let_def
        wfcheck_parse)
qed

section \<open>Properties\<close>

definition tree_bytes :: "uint256 IncrementalMerkleTree \<Rightarrow> bytes" where
  "tree_bytes t = Serialize_optional Serialize_uint256 (t_left t) @ Serialize_optional Serialize_uint256 (t_right t) @
     Serialize_vector (Serialize_optional Serialize_uint256) (t_parents t)"

lemma imt_appends:
  assumes "length (xs @ ys) \<le> 2 ^ D" "0 < D"
  shows "rfold (imt_append C D) ys (tree_of C xs) = Inr (tree_of C (xs @ ys))"
  using assms
proof (induction ys arbitrary: xs)
  case (Cons y ys)
  then show ?case using imt_append_tree_of [of xs D C y] Cons.IH [of "xs @ [y]"] by simp
qed simp

text \<open>C4: The incremental tree computes the Merkle root of its leaves: appending \<open>xs\<close> to the empty tree succeeds
  while there is room, keeps the state canonical, and the root is that of the binary tree of depth \<open>D\<close> over \<open>xs\<close>
  padded with empty leaves; a further leaf is refused exactly when the tree is full.\<close>

theorem imt_root_correct:
  assumes "\<forall>d < D. E (Suc d) = C (E d) (E d) d" "0 < D" "length xs \<le> 2 ^ D"
  shows "\<exists>t. rfold (imt_append C D) xs empty_tree = Inr t \<and> wfcheck D t = Inr () \<and>
    imt_root C E D [] t = mroot C (E 0) D xs \<and> (imt_append C D y t = Inl TreeFull \<longleftrightarrow> length xs = 2 ^ D)"
proof -
  have "merkle_hash C E D" using assms(1) by (simp add: merkle_hash_def)
  then have "imt_root C E D [] (tree_of C xs) = mroot C (E 0) D xs"
    using assms by (intro merkle_hash.imt_root_tree_of) auto
  then show ?thesis
    using imt_appends [of "[]" xs D C] wfcheck_tree_of [OF assms(3,2)] imt_append_tree_of [OF assms(3,2)] assms(2,3)
    by (intro exI [of _ "tree_of C xs"]) auto
qed

text \<open>C5: A witness stays valid.  Take a witness after appending \<open>xs\<close> and update it with the further leaves \<open>ys\<close>:
  every update succeeds while there is room, the witness root is the root of the tree over all leaves, the
  element is the last leaf of \<open>xs\<close>, the path has one sibling per level, leads from the element to that root, and
  its index bits are the position of the element.\<close>

theorem witness_correct:
  assumes E: "\<forall>d < D. E (Suc d) = C (E d) (E d) d" and D: "0 < D" and len: "length (xs @ ys) \<le> 2 ^ D" and "xs \<noteq> []"
    and t: "rfold (imt_append C D) xs empty_tree = Inr t"
  shows "\<exists>w path. rfold (witness_append C E D) ys (imt_witness t) = Inr w \<and>
    witness_root C E D w = mroot C (E 0) D (xs @ ys) \<and> witness_element w = Inr (last xs) \<and>
    witness_path_up C E D w = Inr path \<and> path_root C 0 (last xs) path = mroot C (E 0) D (xs @ ys) \<and>
    map fst path = map (bit (length xs - 1)) [0..<D]"
proof -
  obtain ns x where xs: "xs = ns @ [x]" using \<open>xs \<noteq> []\<close> by (cases xs rule: rev_cases) auto
  have m: "merkle_hash C E D" using E by (simp add: merkle_hash_def)
  have tt: "t = tree_of C xs" using t imt_appends [of "[]" xs D C] len D by simp
  have n: "length ns < 2 ^ D" "length (ns @ x # ys) \<le> 2 ^ D" using len xs by simp_all
  obtain w where w: "rfold (witness_append C E D) ys (imt_witness t) = Inr w" "witness_rep C (E 0) D ns x ys w"
    using merkle_hash.witness_appends_rep [OF m witness_rep_init, of ns x ys] n(2) tt xs by auto
  have wt: "w_tree w = tree_of C (ns @ [x])" using w(2) by (simp add: witness_rep_def)
  note p = merkle_hash.witness_partial_path [OF m w(2)]
  let ?path = "fst (path_parents E 0 (partial_path C E w) (spine C 0 ns D))"
  have r: "witness_root C E D w = mroot C (E 0) D (xs @ ys)"
    using merkle_hash.imt_root_uncles [OF m D _ n(2)] p wt xs by (simp add: witness_root_def)
  have "path_root C 0 x ?path = witness_root C E D w"
    using path_root_parents [of C 0 x E "partial_path C E w"] imt_root_spine [OF n(1) D] wt by (simp add: witness_root_def)
  moreover have "witness_path_up C E D w = Inr ?path"
    using imt_path_spine [OF n(1) D] wt by (simp add: witness_path_up_def)
  moreover have "map fst ?path = map (bit (length xs - 1)) [0..<D]"
    by (simp add: path_bits spine_bits xs del: not_None_eq)
  moreover have "witness_element w = Inr (last xs)"
    using wt xs by (cases "left_node ns") (simp_all add: witness_element_def imt_last_def tree_of_snoc)
  ultimately show ?thesis using w(1) r xs by auto
qed

text \<open>\<^verbatim>\<open>size\<close> is the number of leaves, as long as they are at most \<open>2 ^ 31\<close>, and \<^verbatim>\<open>position\<close> of a witness is the
  index of its element.\<close>

theorem imt_size_exact:
  assumes "rfold (imt_append C D) xs empty_tree = Inr t" "length xs \<le> 2 ^ 31" "length xs \<le> 2 ^ D" "0 < D"
  shows "unat (imt_size t) = length xs \<and> (xs \<noteq> [] \<longrightarrow> unat (witness_position (imt_witness t)) = length xs - 1)"
proof -
  have t: "imt_size t = of_nat (length xs)"
    using assms imt_appends [of "[]" xs D C] imt_size_tree_of [of xs C] by simp
  have u: "unat (of_nat n :: u64) = n" if "n \<le> 2 ^ 31" for n
    using that by (simp add: unat_of_nat)
  show ?thesis
  proof (cases xs)
    case (Cons a l)
    then have "witness_position (imt_witness t) = of_nat (length xs - 1)"
      using t by (simp add: witness_position_def imt_witness_def)
    then show ?thesis using t u [OF assms(2)] u [of "length xs - 1"] assms(2) by simp
  qed (use t in simp)
qed

text \<open>C39: Beyond that bound \<^verbatim>\<open>size\<close> is wrong.  A Sapling tree to which more than \<open>2 ^ 31\<close> leaves were appended has
  its topmost parent set, whose term \<^verbatim>\<open>1 << 31\<close> is a negative \<^verbatim>\<open>int\<close> when it is added: the result is the number of leaves
  less \<open>2 ^ 32\<close>, as a \<^verbatim>\<open>size_t\<close>.  Up to \<open>2 ^ 31\<close> leaves it is the number of leaves.\<close>

theorem imt_size_wraps:
  assumes "rfold (imt_append C SAPLING_INCREMENTAL_MERKLE_TREE_DEPTH) xs empty_tree = Inr t"
    "length xs \<le> 2 ^ SAPLING_INCREMENTAL_MERKLE_TREE_DEPTH"
  shows "imt_size t = (if length xs \<le> 2 ^ 31 then of_nat (length xs) else of_nat (length xs) - 2 ^ 32)"
  using assms imt_appends [of "[]" xs SAPLING_INCREMENTAL_MERKLE_TREE_DEPTH C] imt_size_tree_of [of xs C]
  by (simp add: SAPLING_INCREMENTAL_MERKLE_TREE_DEPTH_def)

text \<open>C35: The tree codec.  A tree is canonical when it has the shape of a tree with some number \<open>n\<close> of leaves, at most
  \<open>2 ^ D\<close>: the left leaf is set unless \<open>n = 0\<close>, the right leaf for even \<open>n\<close>, and the parents where the binary digits
  of the number of full pairs of leaves below the current pair are one, with none beyond the highest.  The writer
  writes the left leaf, the right leaf and the parents of canonical trees and throws for all others; the reader accepts
  exactly those bytes and returns that tree.\<close>

theorem tree_wire_canonical:
  assumes "0 < D" "D \<le> unat MAX_SIZE"
  shows "(Unserialize_tree D bs = Inr (t, r) \<longleftrightarrow> canonical_tree D t \<and> bs = tree_bytes t @ r) \<and>
    (if canonical_tree D t' then Serialize_tree D t' = Inr (tree_bytes t') else \<exists>e. Serialize_tree D t' = Inl e)"
proof (rule conjI)
  have "length (t_parents t) \<le> unat MAX_SIZE" if "wfcheck D t = Inr ()" using wfcheck_short [OF that] assms(2) by simp
  then have "Unserialize_tree D bs = Inr (t, r) \<longleftrightarrow> wfcheck D t = Inr () \<and> bs = projr (Serialize_tree D t) @ r"
    unfolding tree.dec_iff by blast
  then show "Unserialize_tree D bs = Inr (t, r) \<longleftrightarrow> canonical_tree D t \<and> bs = tree_bytes t @ r"
    unfolding wfcheck_shape [OF assms(1), symmetric] by (cases "wfcheck D t") (auto simp: Serialize_tree_def tree_bytes_def)
  show "if canonical_tree D t' then Serialize_tree D t' = Inr (tree_bytes t') else \<exists>e. Serialize_tree D t' = Inl e"
    unfolding wfcheck_shape [OF assms(1), symmetric] by (cases "wfcheck D t'") (auto simp: Serialize_tree_def tree_bytes_def)
qed

section \<open>Examples\<close>

definition toy_combine :: "nat \<Rightarrow> nat \<Rightarrow> nat \<Rightarrow> nat" where
  "toy_combine a b d = a + 3 * b + d"

definition toy_empty :: "nat \<Rightarrow> nat" where
  "toy_empty d = mroot toy_combine 7 d []"

lemma toy_empty_Suc: "\<forall>d < D. toy_empty (Suc d) = toy_combine (toy_empty d) (toy_empty d) d"
  by (simp add: toy_empty_def)

theorem imt_root_correct_witness:
  "\<exists>t. rfold (imt_append toy_combine 2) [1, 2, 3] empty_tree = Inr t \<and>
     imt_root toy_combine toy_empty 2 [] t = mroot toy_combine (toy_empty 0) 2 [1, 2, 3] \<and>
     imt_append toy_combine 2 4 t \<noteq> Inl TreeFull"
  using imt_root_correct [of 2 toy_empty toy_combine "[1, 2, 3]" 4] toy_empty_Suc by auto

theorem witness_correct_witness:
  "\<exists>t w path. rfold (imt_append toy_combine 3) [1, 2] empty_tree = Inr t \<and>
     rfold (witness_append toy_combine toy_empty 3) [5, 6, 7] (imt_witness t) = Inr w \<and>
     witness_path_up toy_combine toy_empty 3 w = Inr path \<and> map fst path = [True, False, False] \<and>
     path_root toy_combine 0 2 path = mroot toy_combine (toy_empty 0) 3 [1, 2, 5, 6, 7]"
proof -
  have t: "rfold (imt_append toy_combine 3) [1, 2] empty_tree =
      Inr \<lparr>t_left = Some 1, t_right = Some 2, t_parents = []\<rparr>"
    by (simp add: imt_append_def empty_tree_def is_complete_def)
  have b: "map (bit (1 :: nat)) [0..<3] = [True, False, False]" by code_simp
  show ?thesis
    using witness_correct [of 3 toy_empty toy_combine "[1, 2]" "[5, 6, 7]", OF toy_empty_Suc _ _ _ t] t b by fastforce
qed

theorem imt_size_exact_witness:
  "\<exists>t. rfold (imt_append toy_combine 3) [1, 2] empty_tree = Inr t \<and> unat (imt_size t) = 2 \<and>
     unat (witness_position (imt_witness t)) = 1"
proof -
  have t: "rfold (imt_append toy_combine 3) [1, 2] empty_tree =
      Inr \<lparr>t_left = Some 1, t_right = Some 2, t_parents = []\<rparr>"
    by (simp add: imt_append_def empty_tree_def is_complete_def)
  then show ?thesis using imt_size_exact [OF t] by simp
qed

theorem imt_size_wraps_witness:
  "\<exists>t. rfold (imt_append toy_combine SAPLING_INCREMENTAL_MERKLE_TREE_DEPTH) (replicate (2 ^ 31 + 5) 0) empty_tree = Inr t \<and>
     imt_size t = 5 - 2 ^ 31"
proof -
  let ?xs = "replicate (2 ^ 31 + 5) (0 :: nat)"
  have len: "length ?xs \<le> 2 ^ SAPLING_INCREMENTAL_MERKLE_TREE_DEPTH"
    by (simp only: length_replicate SAPLING_INCREMENTAL_MERKLE_TREE_DEPTH_def) simp
  have t: "rfold (imt_append toy_combine SAPLING_INCREMENTAL_MERKLE_TREE_DEPTH) ?xs empty_tree = Inr (tree_of toy_combine ?xs)"
    using imt_appends [of "[]" ?xs SAPLING_INCREMENTAL_MERKLE_TREE_DEPTH toy_combine] len
    by (simp only: append_Nil tree_of_Nil) (simp add: SAPLING_INCREMENTAL_MERKLE_TREE_DEPTH_def)
  have "imt_size (tree_of toy_combine ?xs) = 5 - 2 ^ 31"
    using imt_size_wraps [OF t len] by (simp only: length_replicate) simp
  then show ?thesis using t by blast
qed

theorem tree_wire_canonical_witness:
  "\<exists>b. Serialize_tree INCREMENTAL_MERKLE_TREE_DEPTH \<lparr>t_left = Some 1, t_right = None, t_parents = [None, Some 5]\<rparr> = Inr b \<and>
     Unserialize_tree INCREMENTAL_MERKLE_TREE_DEPTH (b @ [9]) = Inr (\<lparr>t_left = Some 1, t_right = None, t_parents = [None, Some 5]\<rparr>, [9]) \<and>
     (\<exists>e. Serialize_tree INCREMENTAL_MERKLE_TREE_DEPTH \<lparr>t_left = None, t_right = Some 1, t_parents = []\<rparr> = Inl e)"
proof -
  let ?t = "\<lparr>t_left = Some 1, t_right = None, t_parents = [None, Some 5]\<rparr> :: uint256 IncrementalMerkleTree"
  have s: "tree_shape 5 ?t" by (simp add: tree_shape_def binary_digits.simps)
  have c: "canonical_tree INCREMENTAL_MERKLE_TREE_DEPTH ?t"
    unfolding canonical_tree_def by (rule exI [of _ 5]) (simp add: s INCREMENTAL_MERKLE_TREE_DEPTH_def)
  have D: "0 < INCREMENTAL_MERKLE_TREE_DEPTH" "INCREMENTAL_MERKLE_TREE_DEPTH \<le> unat MAX_SIZE"
    by (simp_all add: INCREMENTAL_MERKLE_TREE_DEPTH_def MAX_SIZE_def)
  have "\<not> canonical_tree D \<lparr>t_left = None, t_right = Some (1 :: uint256), t_parents = []\<rparr>" for D
    by (auto simp: canonical_tree_def tree_shape_def)
  then show ?thesis
    using tree_wire_canonical [OF D, of _ ?t "[9]" ?t] tree_wire_canonical [OF D, where t' = "\<lparr>t_left = None, t_right = Some 1, t_parents = []\<rparr>"] c
    by auto
qed

end
