(* ===== verification/Zc_Compress.thy ===== *)
theory Zc_Compress
  imports Zc_Script
begin

text \<open>
  The compact formats of the chain state, \<^verbatim>\<open>src/compressor.h\<close> and \<^verbatim>\<open>src/compressor.cpp\<close>: amounts, scripts and
  outputs.  Decompression of elliptic-curve points is the parameter \<open>pd\<close> (\<^verbatim>\<open>CPubKey::Decompress\<close>), their
  validity the parameter \<open>fv\<close> (\<^verbatim>\<open>CPubKey::IsFullyValid\<close>).  The lemmas are the round trips.
\<close>

unbundle bit_operations_syntax

section \<open>Amounts\<close>

text \<open>The loop that strips at most nine zeros; the first argument is \<open>9 - e\<close>.\<close>

fun strip_zeros :: "nat \<Rightarrow> u64 \<Rightarrow> u64 \<times> nat" where
  "strip_zeros 0 n = (n, 9)"
| "strip_zeros (Suc k) n = (if n mod 10 = 0 then strip_zeros k (n div 10) else (n, 8 - k))"

definition CompressAmount :: "u64 \<Rightarrow> u64" where
  "CompressAmount n0 =
     (if n0 = 0 then 0
      else case strip_zeros 9 n0 of (n, e) \<Rightarrow>
        if e < 9 then let d = n mod 10; n = n div 10 in 1 + (n * 9 + d - 1) * 10 + of_nat e
        else 1 + (n - 1) * 10 + 9)"

fun mult_tens :: "nat \<Rightarrow> u64 \<Rightarrow> u64" where
  "mult_tens 0 n = n"
| "mult_tens (Suc e) n = mult_tens e (n * 10)"

definition DecompressAmount :: "u64 \<Rightarrow> u64" where
  "DecompressAmount x0 =
     (if x0 = 0 then 0
      else let x = x0 - 1; e = unat (x mod 10); x = x div 10;
               n = (if e < 9 then let d = x mod 9 + 1; x = x div 9 in x * 10 + d else x + 1)
           in mult_tens e n)"

section \<open>Scripts\<close>

definition nSpecialScripts :: nat where "nSpecialScripts = 6"

definition IsToKeyID :: "CScript \<Rightarrow> bytes option" where
  "IsToKeyID script =
     (if length script = 25 \<and> script ! 0 = OP_DUP \<and> script ! 1 = OP_HASH160 \<and> script ! 2 = 20 \<and>
         script ! 23 = OP_EQUALVERIFY \<and> script ! 24 = OP_CHECKSIG
      then Some (take 20 (drop 3 script)) else None)"

definition IsToScriptID :: "CScript \<Rightarrow> bytes option" where
  "IsToScriptID script =
     (if length script = 23 \<and> script ! 0 = OP_HASH160 \<and> script ! 1 = 20 \<and> script ! 22 = OP_EQUAL
      then Some (take 20 (drop 2 script)) else None)"

definition IsToPubKey :: "(bytes \<Rightarrow> bool) \<Rightarrow> CScript \<Rightarrow> bytes option" where
  "IsToPubKey fv script =
     (if length script = 35 \<and> script ! 0 = 33 \<and> script ! 34 = OP_CHECKSIG \<and> (script ! 1 = 2 \<or> script ! 1 = 3)
      then Some (take 33 (drop 1 script))
      else if length script = 67 \<and> script ! 0 = 65 \<and> script ! 66 = OP_CHECKSIG \<and> script ! 1 = 4
      then (if fv (take 65 (drop 1 script)) then Some (take 65 (drop 1 script)) else None)
      else None)"

definition Compress :: "(bytes \<Rightarrow> bool) \<Rightarrow> CScript \<Rightarrow> bytes option" where
  "Compress fv script =
     (case IsToKeyID script of Some h \<Rightarrow> Some (0x00 # h)
      | None \<Rightarrow> (case IsToScriptID script of Some h \<Rightarrow> Some (0x01 # h)
      | None \<Rightarrow> (case IsToPubKey fv script of
          Some pubkey \<Rightarrow>
            if pubkey ! 0 = 2 \<or> pubkey ! 0 = 3 then Some (pubkey ! 0 # take 32 (drop 1 pubkey))
            else if pubkey ! 0 = 4 then Some ((4 OR (pubkey ! 64 AND 1)) # take 32 (drop 1 pubkey))
            else None
        | None \<Rightarrow> None)))"

definition GetSpecialSize :: "nat \<Rightarrow> nat" where
  "GetSpecialSize nSize = (if nSize = 0 \<or> nSize = 1 then 20 else if 2 \<le> nSize \<and> nSize \<le> 5 then 32 else 0)"

text \<open>\<^verbatim>\<open>Decompress\<close>: the script it leaves, with the returned flag.\<close>

definition Decompress :: "(bytes \<Rightarrow> bytes option) \<Rightarrow> nat \<Rightarrow> bytes \<Rightarrow> CScript \<Rightarrow> bool \<times> CScript" where
  "Decompress pd nSize inp script =
     (if nSize = 0 then (True, [OP_DUP, OP_HASH160, 20] @ take 20 inp @ [OP_EQUALVERIFY, OP_CHECKSIG])
      else if nSize = 1 then (True, [OP_HASH160, 20] @ take 20 inp @ [OP_EQUAL])
      else if nSize = 2 \<or> nSize = 3 then (True, [33, of_nat nSize] @ take 32 inp @ [OP_CHECKSIG])
      else if nSize = 4 \<or> nSize = 5 then
        (case pd (of_nat (nSize - 2) # take 32 inp) of None \<Rightarrow> (False, script)
         | Some pubkey \<Rightarrow> (True, [65] @ take 65 pubkey @ [OP_CHECKSIG]))
      else (False, script))"

definition Serialize_CScriptCompressor :: "(bytes \<Rightarrow> bool) \<Rightarrow> CScript \<Rightarrow> bytes" where
  "Serialize_CScriptCompressor fv script =
     (case Compress fv script of Some compr \<Rightarrow> compr
      | None \<Rightarrow> WriteVarInt (int (length script + nSpecialScripts)) @ script)"

definition Unserialize_CScriptCompressor :: "(bytes \<Rightarrow> bytes option) \<Rightarrow> CScript \<Rightarrow> CScript sparser" where
  "Unserialize_CScriptCompressor pd script =
     pbind (ReadVarInt (take_bit 32)) (\<lambda>nSize0. let nSize = nat nSize0 in
     if nSize < nSpecialScripts then
       pbind (stream_read (GetSpecialSize nSize)) (\<lambda>v. preturn (snd (Decompress pd nSize v script)))
     else
       pbind (stream_read (nSize - nSpecialScripts)) (\<lambda>v.
       preturn (if MAX_SCRIPT_SIZE < nSize - nSpecialScripts then script @ [OP_RETURN] else v)))"

section \<open>Outputs\<close>

definition Serialize_CTxOutCompressor :: "(bytes \<Rightarrow> bool) \<Rightarrow> CTxOut \<Rightarrow> bytes" where
  "Serialize_CTxOutCompressor fv out =
     WriteVarInt (uint (CompressAmount (of_int (nValue out)))) @ Serialize_CScriptCompressor fv (scriptPubKey out)"

definition Unserialize_CTxOutCompressor :: "(bytes \<Rightarrow> bytes option) \<Rightarrow> CTxOut \<Rightarrow> CTxOut sparser" where
  "Unserialize_CTxOutCompressor pd old =
     pbind (ReadVarInt (take_bit 64)) (\<lambda>nVal.
     pbind (Unserialize_CScriptCompressor pd (scriptPubKey old)) (\<lambda>s.
     preturn \<lparr>nValue = sint (DecompressAmount (of_int nVal)), scriptPubKey = s\<rparr>))"

section \<open>Amounts: round trip\<close>

lemma strip_zeros_spec:
  assumes "strip_zeros k n = (m, e)" "k \<le> 9"
  shows "unat n = unat m * 10 ^ (e - (9 - k)) \<and> 9 - k \<le> e \<and> e \<le> 9 \<and> (e < 9 \<longrightarrow> unat m mod 10 \<noteq> 0)"
  using assms
proof (induction k arbitrary: n)
  case (Suc k)
  show ?case
  proof (cases "n mod 10 = 0")
    case True
    have "unat n mod 10 = unat (n mod 10)" by (simp add: unat_mod_distrib)
    then have "unat n mod 10 = 0" using True by simp
    then have "unat n = 10 * (unat n div 10)" by (metis add.right_neutral mult_div_mod_eq)
    then have n: "unat n = 10 * unat (n div 10)" by (simp add: unat_div_distrib)
    from Suc True have "unat (n div 10) = unat m * 10 ^ (e - (9 - k)) \<and> 9 - k \<le> e \<and> e \<le> 9 \<and> (e < 9 \<longrightarrow> unat m mod 10 \<noteq> 0)"
      by (intro Suc.IH) auto
    moreover have "e - (9 - Suc k) = Suc (e - (9 - k))" if "9 - k \<le> e" using that Suc.prems(2) by linarith
    ultimately show ?thesis using n by auto
  next
    case False
    have "unat n mod 10 = unat (n mod 10)" by (simp add: unat_mod_distrib)
    then have "unat n mod 10 \<noteq> 0" using False by (simp add: unat_eq_0)
    then show ?thesis using Suc.prems False by auto
  qed
qed simp

lemma mult_tens_unat: "unat n * 10 ^ e < 2 ^ 64 \<Longrightarrow> unat (mult_tens e n) = unat n * 10 ^ e"
proof (induction e arbitrary: n)
  case (Suc e)
  have "unat n * 10 \<le> unat n * 10 ^ Suc e" by simp
  then have "unat n * 10 < 2 ^ 64" using Suc.prems by (rule le_less_trans)
  then have "unat (n * 10) = unat n * 10" by (simp add: unat_word_ariths)
  then show ?case using Suc.IH [of "n * 10"] Suc.prems by (simp add: mult_ac)
qed simp

lemma word_div_mod_nat:
  "(n :: u64) div numeral k = of_nat (unat n div unat (numeral k :: u64))"
  "(n :: u64) mod numeral k = of_nat (unat n mod unat (numeral k :: u64))"
proof -
  have u: "of_nat (unat w) = w" for w :: u64 by simp
  show "n div numeral k = of_nat (unat n div unat (numeral k :: u64))"
    by (subst u [symmetric]) (simp only: unat_div_distrib)
  show "n mod numeral k = of_nat (unat n mod unat (numeral k :: u64))"
    by (subst u [symmetric]) (simp only: unat_mod_distrib)
qed

definition amount_code :: "nat \<Rightarrow> nat \<Rightarrow> nat" where
  "amount_code m e = (if e < 9 then 1 + (m div 10 * 9 + m mod 10 - 1) * 10 + e else 1 + (m - 1) * 10 + 9)"

lemma CompressAmount_code:
  assumes "n0 \<noteq> 0" "strip_zeros 9 n0 = (n, e)"
  shows "CompressAmount n0 = of_nat (amount_code (unat n) e)"
proof -
  have s: "unat n0 = unat n * 10 ^ e" "e \<le> 9" "e < 9 \<longrightarrow> unat n mod 10 \<noteq> 0"
    using strip_zeros_spec [OF assms(2)] by simp_all
  have "unat n \<noteq> 0" using s(1) assms(1) unat_eq_0 [of n0] by (metis mult_zero_left)
  then have n: "0 < unat n" by (rule neq0_conv [THEN iffD1])
  have w: "n = of_nat (unat n)" "n div 10 = of_nat (unat n div 10)" "n mod 10 = of_nat (unat n mod 10)"
    by (simp_all add: word_div_mod_nat)
  show ?thesis
  proof (cases "e < 9")
    case True
    then have "0 < unat n div 10 * 9 + unat n mod 10" using s(3) by simp
    then show ?thesis
      using assms True w(2,3) by (simp add: CompressAmount_def amount_code_def of_nat_diff Suc_le_eq)
  next
    case False
    then have "(of_nat (unat n - 1) :: u64) = n - 1" using n by (simp add: of_nat_diff)
    then show ?thesis using assms False by (simp add: CompressAmount_def amount_code_def)
  qed
qed

text \<open>Reading a code, on natural numbers.\<close>

lemma DecompressAmount_code:
  assumes "0 < x" "x < 2 ^ 64"
  shows "DecompressAmount (of_nat x) = mult_tens ((x - 1) mod 10)
    (of_nat (if (x - 1) mod 10 < 9 then (x - 1) div 10 div 9 * 10 + ((x - 1) div 10 mod 9 + 1) else (x - 1) div 10 + 1))"
proof -
  have u: "unat (of_nat k :: u64) = k" if "k < 2 ^ 64" for k using that by (simp add: unat_of_nat)
  have x: "(of_nat x :: u64) \<noteq> 0" using u [OF assms(2)] assms(1) by auto
  have 1: "(of_nat x :: u64) - 1 = of_nat (x - 1)" using assms(1) by (simp add: of_nat_diff)
  have b: "x - 1 < 2 ^ 64" "(x - 1) div 10 < 2 ^ 64" using assms(2) by (auto intro: le_less_trans [OF div_le_dividend])
  have 2: "(of_nat (x - 1) :: u64) mod 10 = of_nat ((x - 1) mod 10)" "(of_nat (x - 1) :: u64) div 10 = of_nat ((x - 1) div 10)"
    using u [OF b(1)] by (simp_all add: word_div_mod_nat)
  have 3: "(of_nat ((x - 1) div 10) :: u64) mod 9 = of_nat ((x - 1) div 10 mod 9)"
    "(of_nat ((x - 1) div 10) :: u64) div 9 = of_nat ((x - 1) div 10 div 9)"
    using u [OF b(2)] by (simp_all add: word_div_mod_nat)
  have 4: "unat (of_nat ((x - 1) mod 10) :: u64) = (x - 1) mod 10"
    by (rule u) (simp add: less_trans [OF mod_less_divisor [of 10]])
  show ?thesis
    unfolding DecompressAmount_def Let_def 1 2 3 4 using x by (simp add: ac_simps)
qed

lemma amount_code_decode:
  assumes "0 < m" "e \<le> 9" "e < 9 \<longrightarrow> m mod 10 \<noteq> 0"
  defines "x \<equiv> amount_code m e"
  shows "0 < x" "(x - 1) mod 10 = e"
    "(if (x - 1) mod 10 < 9 then (x - 1) div 10 div 9 * 10 + ((x - 1) div 10 mod 9 + 1) else (x - 1) div 10 + 1) = m"
    "x \<le> 10 * m + 9"
proof -
  have d: "m mod 10 - 1 < 9" using mod_less_divisor [of 10 m] by linarith
  have s: "m div 10 * 9 + m mod 10 - 1 = m div 10 * 9 + (m mod 10 - 1)" if "e < 9" using assms(3) that by simp
  define y where "y = (if e < 9 then m div 10 * 9 + (m mod 10 - 1) else m - 1)"
  have xy: "x - 1 = y * 10 + e" using assms(2) s by (auto simp: x_def amount_code_def y_def)
  then have q: "(x - 1) mod 10 = e" "(x - 1) div 10 = y" using assms(2) by simp_all
  have "m = m div 10 * 10 + m mod 10" by simp
  then have "m div 10 * 9 + (m mod 10 - 1) < m" if "e < 9" using assms(3) that by linarith
  then have "y < m" using assms(1) by (simp add: y_def)
  show "0 < x" by (simp add: x_def amount_code_def)
  show "(x - 1) mod 10 = e" by (rule q)
  show "(if (x - 1) mod 10 < 9 then (x - 1) div 10 div 9 * 10 + ((x - 1) div 10 mod 9 + 1) else (x - 1) div 10 + 1) = m"
    unfolding q y_def using assms(1,3) d by auto
  show "x \<le> 10 * m + 9"
    using xy \<open>y < m\<close> assms(2) by linarith
qed

lemma CompressAmount_inverse:
  assumes "unat n < 2 ^ 60"
  shows "DecompressAmount (CompressAmount n) = n"
proof (cases "n = 0")
  case True
  then show ?thesis by (simp add: CompressAmount_def DecompressAmount_def)
next
  case False
  obtain m e where s: "strip_zeros 9 n = (m, e)" by (cases "strip_zeros 9 n")
  then have n: "unat n = unat m * 10 ^ e" "e \<le> 9" "e < 9 \<longrightarrow> unat m mod 10 \<noteq> 0"
    using strip_zeros_spec [OF s] by simp_all
  then have "unat m \<noteq> 0" using False unat_eq_0 [of n] by (metis mult_zero_left)
  then have m: "0 < unat m" by (rule neq0_conv [THEN iffD1])
  have "unat m \<le> unat n" unfolding n(1) by simp
  then have b: "unat m < 2 ^ 60" using assms by (rule le_less_trans)
  note c = amount_code_decode [OF m n(2,3)]
  have "amount_code (unat m) e < 2 ^ 64" using c(4) b by simp
  then have "DecompressAmount (CompressAmount n) = mult_tens e m"
    using DecompressAmount_code [OF c(1)] c(2,3) CompressAmount_code [OF False s] by simp
  then show ?thesis using mult_tens_unat [of m e] n(1) assms by (simp add: word_unat_eq_iff)
qed

section \<open>Scripts: round trip\<close>

lemma split_ends:
  assumes "length s = a + n + b"
  shows "s = map ((!) s) [0..<a] @ take n (drop a s) @ map ((!) s) [a + n..<a + n + b]"
  by (rule nth_equalityI) (use assms in \<open>auto simp: nth_append\<close>)

lemma IsToKeyID_eq: "IsToKeyID s = Some h \<Longrightarrow> s = [OP_DUP, OP_HASH160, 20] @ h @ [OP_EQUALVERIFY, OP_CHECKSIG] \<and> length h = 20"
  using split_ends [of s 3 20 2] by (auto simp: IsToKeyID_def upt_rec numeral_2_eq_2 split: if_splits)

lemma IsToScriptID_eq: "IsToScriptID s = Some h \<Longrightarrow> s = [OP_HASH160, 20] @ h @ [OP_EQUAL] \<and> length h = 20"
  using split_ends [of s 2 20 1] by (auto simp: IsToScriptID_def upt_rec split: if_splits)

lemma IsToPubKey_eq:
  assumes "IsToPubKey fv s = Some k"
  shows "(length k = 33 \<and> (k ! 0 = 2 \<or> k ! 0 = 3) \<and> s = 33 # k @ [OP_CHECKSIG]) \<or>
    (length k = 65 \<and> k ! 0 = 4 \<and> fv k \<and> s = 65 # k @ [OP_CHECKSIG])"
  using split_ends [of s 1 33 1] split_ends [of s 1 65 1] assms
  by (auto simp: IsToPubKey_def upt_rec nth_append split: if_splits)

text \<open>What the curve library promises: a valid uncompressed key is recovered from its first coordinate and the
  parity of the second.\<close>

definition decompression_law :: "(bytes \<Rightarrow> bool) \<Rightarrow> (bytes \<Rightarrow> bytes option) \<Rightarrow> bool" where
  "decompression_law fv pd \<longleftrightarrow> (\<forall>k. length k = 65 \<and> k ! 0 = 4 \<and> fv k \<longrightarrow>
     pd ((2 OR (k ! 64 AND 1)) # take 32 (drop 1 k)) = Some k)"

lemma parity_byte: "(b :: byte) AND 1 = 0 \<or> b AND 1 = 1"
  by (cases "bit b 0") (auto simp: and_one_eq bit_0 odd_iff_mod_2_eq_one even_iff_mod_2_eq_zero)

lemma Compress_Decompress:
  assumes "Compress fv s = Some out" "decompression_law fv pd"
  shows "\<exists>c v. out = c # v \<and> unat c < 6 \<and> length v = GetSpecialSize (unat c) \<and> snd (Decompress pd (unat c) v old) = s"
proof -
  consider h where "IsToKeyID s = Some h" "out = 0 # h" | h where "IsToScriptID s = Some h" "out = 1 # h"
    | k where "IsToPubKey fv s = Some k" "k ! 0 = 2 \<or> k ! 0 = 3" "out = k ! 0 # take 32 (drop 1 k)"
    | k where "IsToPubKey fv s = Some k" "k ! 0 = 4" "out = (4 OR (k ! 64 AND 1)) # take 32 (drop 1 k)"
    using assms(1) by (auto simp: Compress_def split: option.splits if_splits)
  then show ?thesis
  proof cases
    case 1
    then show ?thesis using IsToKeyID_eq [OF 1(1)] by (simp add: GetSpecialSize_def Decompress_def)
  next
    case 2
    then show ?thesis using IsToScriptID_eq [OF 2(1)] by (simp add: GetSpecialSize_def Decompress_def)
  next
    case 3
    then have k: "length k = 33" "s = 33 # k @ [OP_CHECKSIG]" using IsToPubKey_eq [OF 3(1)] by auto
    then obtain x v where "k = x # v" by (cases k) auto
    then show ?thesis using 3 k by (auto simp: GetSpecialSize_def Decompress_def)
  next
    case 4
    then have k: "length k = 65" "fv k" "s = 65 # k @ [OP_CHECKSIG]" using IsToPubKey_eq [OF 4(1)] by auto
    then have "pd ((2 OR (k ! 64 AND 1)) # take 32 (drop 1 k)) = Some k"
      using assms(2) 4(2) by (simp add: decompression_law_def)
    then show ?thesis
      using 4(3) k parity_byte [of "k ! 64"] by (auto simp: GetSpecialSize_def Decompress_def)
  qed
qed

lemma ReadVarInt_special: "unat c < 6 \<Longrightarrow> ReadVarInt (take_bit 32) (c # r) = Inr (int (unat c), r)"
proof -
  assume c: "unat c < 6"
  then have l: "int (unat c) \<le> 127" by linarith
  then have "WriteVarInt (int (unat c)) = [c]"
    by (simp add: WriteVarInt_def varint_tmp.simps ser_writedata8_def [abs_def])
  moreover have "take_bit 32 k = k" if "0 \<le> k" "k \<le> int (unat c)" for k :: int
    using that l by (intro take_bit_int_eq_self) auto
  ultimately show ?thesis using ReadVarInt_Write [of "int (unat c)" "take_bit 32" r] by simp
qed

lemma CScriptCompressor_roundtrip:
  assumes "decompression_law fv pd" "length s \<le> MAX_SCRIPT_SIZE"
  shows "Unserialize_CScriptCompressor pd old (Serialize_CScriptCompressor fv s @ r) = Inr (s, r)"
proof (cases "Compress fv s")
  case None
  let ?n = "int (length s + nSpecialScripts)"
  have "take_bit 32 k = k" if "0 \<le> k" "k \<le> ?n" for k :: int
    using that assms(2) by (intro take_bit_int_eq_self) (auto simp: MAX_SCRIPT_SIZE_def nSpecialScripts_def)
  then have "ReadVarInt (take_bit 32) (WriteVarInt ?n @ s @ r) = Inr (?n, s @ r)"
    by (intro ReadVarInt_Write) auto
  then show ?thesis
    using None assms(2)
    by (simp add: Serialize_CScriptCompressor_def Unserialize_CScriptCompressor_def pbind_apply parser_simps Let_def
        nat_int_add)
next
  case (Some out)
  obtain c v where o: "out = c # v" "unat c < 6" "length v = GetSpecialSize (unat c)" "snd (Decompress pd (unat c) v old) = s"
    using Compress_Decompress [OF Some assms(1)] by blast
  then show ?thesis
    using Some ReadVarInt_special [OF o(2)]
    by (simp add: Serialize_CScriptCompressor_def Unserialize_CScriptCompressor_def pbind_apply parser_simps
        nSpecialScripts_def Let_def)
qed

section \<open>Outputs: round trip\<close>

definition compressible :: "CTxOut \<Rightarrow> bool" where
  "compressible out \<longleftrightarrow> 0 \<le> nValue out \<and> nValue out < 2 ^ 60 \<and> length (scriptPubKey out) \<le> MAX_SCRIPT_SIZE"

lemma CTxOutCompressor_read:
  assumes "decompression_law fv pd" "compressible out"
  shows "Unserialize_CTxOutCompressor pd old (Serialize_CTxOutCompressor fv out @ r) = Inr (out, r)"
proof -
  let ?w = "of_int (nValue out) :: u64"
  have "uint ?w = nValue out"
    using assms(2) by (simp add: compressible_def unsigned_of_int take_bit_int_eq_self)
  then have u: "unat ?w = nat (nValue out)" using nat_uint_eq [of ?w] by simp
  then have rt: "DecompressAmount (CompressAmount ?w) = ?w"
    using assms(2) by (intro CompressAmount_inverse) (simp add: compressible_def nat_less_iff)
  have s: "sint ?w = nValue out"
    using assms(2) by (simp add: compressible_def signed_of_int signed_take_bit_int_eq_self)
  have "take_bit 64 k = k" if "0 \<le> k" "k \<le> uint (CompressAmount ?w)" for k :: int
    using that uint_lt2p [of "CompressAmount ?w"] by (intro take_bit_int_eq_self) auto
  then have "ReadVarInt (take_bit 64) (WriteVarInt (uint (CompressAmount ?w)) @ x) = Inr (uint (CompressAmount ?w), x)" for x
    by (intro ReadVarInt_Write) auto
  moreover have "Unserialize_CScriptCompressor pd (scriptPubKey old)
      (Serialize_CScriptCompressor fv (scriptPubKey out) @ r) = Inr (scriptPubKey out, r)"
    using assms by (intro CScriptCompressor_roundtrip) (simp_all add: compressible_def)
  ultimately show ?thesis
    using rt s by (simp add: Serialize_CTxOutCompressor_def Unserialize_CTxOutCompressor_def pbind_apply parser_simps)
qed

section \<open>Properties\<close>

text \<open>The compact format of an output, with its special forms for the standard scripts, reads back as the
  output, given that the curve library recovers a valid key from its compressed form.\<close>

theorem CTxOutCompressor_roundtrip:
  assumes "decompression_law fv pd" "compressible out"
  shows "Unserialize_CTxOutCompressor pd old (Serialize_CTxOutCompressor fv out @ r) = Inr (out, r)"
  using assms by (rule CTxOutCompressor_read)

definition sample_key :: bytes where
  "sample_key = 4 # replicate 63 7 @ [9]"

definition sample_pd :: "bytes \<Rightarrow> bytes option" where
  "sample_pd v = (if v = 3 # replicate 32 7 then Some sample_key else None)"

theorem CTxOutCompressor_roundtrip_witness:
  "let out = \<lparr>nValue = 5, scriptPubKey = 65 # sample_key @ [OP_CHECKSIG]\<rparr> in
     Serialize_CTxOutCompressor (\<lambda>k. k = sample_key) out = WriteVarInt (uint (CompressAmount 5)) @ 5 # replicate 32 7 \<and>
     Unserialize_CTxOutCompressor sample_pd \<lparr>nValue = - 1, scriptPubKey = []\<rparr>
       (Serialize_CTxOutCompressor (\<lambda>k. k = sample_key) out @ [1]) = Inr (out, [1])"
proof -
  have "decompression_law (\<lambda>k. k = sample_key) sample_pd"
    by (simp add: decompression_law_def sample_pd_def sample_key_def nth_append)
  then show ?thesis
    using CTxOutCompressor_roundtrip [of "\<lambda>k. k = sample_key" sample_pd "\<lparr>nValue = 5, scriptPubKey = 65 # sample_key @ [OP_CHECKSIG]\<rparr>"]
    by (simp add: compressible_def MAX_SCRIPT_SIZE_def sample_key_def Serialize_CTxOutCompressor_def
        Serialize_CScriptCompressor_def Compress_def IsToKeyID_def IsToScriptID_def IsToPubKey_def nth_append)
qed

end
