(* ===== verification/Zc_Coins.thy ===== *)
theory Zc_Coins
  imports Zc_Compress Zc_Merkle_Tree
begin

text \<open>
  The unspent outputs of one transaction, class \<^verbatim>\<open>CCoins\<close> of \<^verbatim>\<open>src/coins.h\<close> and \<^verbatim>\<open>src/coins.cpp\<close>: its
  operations and its format on disk, with the bit mask of the available outputs.  A failed \<^verbatim>\<open>assert\<close> is \<open>None\<close>.
  The lemmas show that the format reads back every coin the node keeps, and that writing aborts exactly for coins
  that are fully spent.
\<close>

unbundle bit_operations_syntax

section \<open>Coins of one transaction\<close>

record CCoins =
  fCoinBase :: bool
  c_vout :: "CTxOut list"
  c_nHeight :: int
  c_nVersion :: int

definition CCoins0 :: CCoins where
  "CCoins0 = \<lparr>fCoinBase = False, c_vout = [], c_nHeight = 0, c_nVersion = 0\<rparr>"

definition Cleanup :: "CCoins \<Rightarrow> CCoins" where
  "Cleanup c = c\<lparr>c_vout := rev (dropWhile CTxOut_IsNull (rev (c_vout c)))\<rparr>"

definition ClearUnspendable :: "CCoins \<Rightarrow> CCoins" where
  "ClearUnspendable c =
     Cleanup (c\<lparr>c_vout := map (\<lambda>out. if IsUnspendable (scriptPubKey out) then CTxOut_null else out) (c_vout c)\<rparr>)"

definition FromTx :: "('z) CMutableTransaction_scheme \<Rightarrow> int \<Rightarrow> CCoins" where
  "FromTx tx nHeightIn = ClearUnspendable
     \<lparr>fCoinBase = IsCoinBase tx, c_vout = vout tx, c_nHeight = nHeightIn, c_nVersion = nVersion tx\<rparr>"

definition IsAvailable :: "CCoins \<Rightarrow> u32 \<Rightarrow> bool" where
  "IsAvailable c nPos \<longleftrightarrow> unat nPos < length (c_vout c) \<and> \<not> CTxOut_IsNull (c_vout c ! unat nPos)"

definition IsPruned :: "CCoins \<Rightarrow> bool" where
  "IsPruned c \<longleftrightarrow> list_all CTxOut_IsNull (c_vout c)"

definition CCoins_eq :: "CCoins \<Rightarrow> CCoins \<Rightarrow> bool" where
  "CCoins_eq a b \<longleftrightarrow> (IsPruned a \<and> IsPruned b) \<or>
     (fCoinBase a = fCoinBase b \<and> c_nHeight a = c_nHeight b \<and> c_nVersion a = c_nVersion b \<and> c_vout a = c_vout b)"

definition Spend :: "u32 \<Rightarrow> CCoins \<Rightarrow> bool \<times> CCoins" where
  "Spend nPos c =
     (if length (c_vout c) \<le> unat nPos \<or> CTxOut_IsNull (c_vout c ! unat nPos) then (False, c)
      else (True, Cleanup (c\<lparr>c_vout := (c_vout c)[unat nPos := CTxOut_null]\<rparr>)))"

section \<open>The format on disk\<close>

text \<open>The availability of the outputs after the second, in groups of eight.\<close>

fun mask_groups :: "bool list \<Rightarrow> bool list list" where
  "mask_groups [] = []"
| "mask_groups (a # as) = take 8 (a # as) # mask_groups (drop 7 as)"

definition avail_bits :: "CCoins \<Rightarrow> bool list" where
  "avail_bits c = map (\<lambda>out. \<not> CTxOut_IsNull out) (c_vout c)"

text \<open>\<^verbatim>\<open>CalcMaskSize\<close>: the number of bytes up to the last non-zero one, and of non-zero bytes.\<close>

definition CalcMaskSize :: "CCoins \<Rightarrow> nat \<times> nat" where
  "CalcMaskSize c =
     (let gs = mask_groups (drop 2 (avail_bits c)) in
      (length (rev (dropWhile (\<lambda>g. True \<notin> set g) (rev gs))), length (filter (\<lambda>g. True \<in> set g) gs)))"

definition mask_byte :: "bool list \<Rightarrow> byte" where
  "mask_byte g = foldr (\<lambda>b w. (if b then 1 else 0) + 2 * w) g 0"

definition Serialize_CCoins :: "(bytes \<Rightarrow> bool) \<Rightarrow> CCoins \<Rightarrow> bytes option" where
  "Serialize_CCoins fv c =
     (let (nMaskSize, nMaskCode) = CalcMaskSize c;
          fFirst = (0 < length (c_vout c) \<and> \<not> CTxOut_IsNull (c_vout c ! 0));
          fSecond = (1 < length (c_vout c) \<and> \<not> CTxOut_IsNull (c_vout c ! 1));
          nCode = (8 * (nMaskCode - (if fFirst \<or> fSecond then 0 else 1)) + (if fCoinBase c then 1 else 0) +
                  (if fFirst then 2 else 0) + (if fSecond then 4 else 0)) mod 2 ^ 32
      in if \<not> (fFirst \<or> fSecond \<or> nMaskCode \<noteq> 0) then None
         else Some (WriteVarInt (c_nVersion c) @ WriteVarInt (int nCode) @
           map mask_byte (take nMaskSize (mask_groups (drop 2 (avail_bits c)))) @
           concat (map (Serialize_CTxOutCompressor fv) (filter (\<lambda>out. \<not> CTxOut_IsNull out) (c_vout c))) @
           WriteVarInt (c_nHeight c)))"

text \<open>\<^verbatim>\<open>while (nMaskCode > 0)\<close>: reads bytes until that many are non-zero.\<close>

fun read_mask :: "nat \<Rightarrow> bool list sparser" where
  "read_mask nMaskCode [] = (if nMaskCode = 0 then Inr ([], []) else Inl EndOfData)"
| "read_mask nMaskCode (chAvail # bs) =
     (if nMaskCode = 0 then Inr ([], chAvail # bs)
      else rbind (read_mask (if chAvail \<noteq> 0 then nMaskCode - 1 else nMaskCode) bs) (\<lambda>(v, r).
        Inr (map (bit chAvail) [0..<8] @ v, r)))"

fun read_outs :: "(bytes \<Rightarrow> bytes option) \<Rightarrow> bool list \<Rightarrow> CTxOut list sparser" where
  "read_outs pd [] = preturn []"
| "read_outs pd (a # vAvail) =
     pbind (if a then Unserialize_CTxOutCompressor pd CTxOut_null else preturn CTxOut_null) (\<lambda>out.
     pbind (read_outs pd vAvail) (\<lambda>outs. preturn (out # outs)))"

definition Unserialize_CCoins :: "(bytes \<Rightarrow> bytes option) \<Rightarrow> CCoins sparser" where
  "Unserialize_CCoins pd =
     pbind (ReadVarInt wrap32) (\<lambda>v.
     pbind (ReadVarInt (take_bit 32)) (\<lambda>nCode0. let nCode = nat nCode0 in
     pbind (read_mask (nCode div 8 + (if nCode AND 6 \<noteq> 0 then 0 else 1))) (\<lambda>mask.
     pbind (read_outs pd ([nCode AND 2 \<noteq> 0, nCode AND 4 \<noteq> 0] @ mask)) (\<lambda>outs.
     pbind (ReadVarInt wrap32) (\<lambda>h.
     preturn (Cleanup \<lparr>fCoinBase = (nCode AND 1 \<noteq> 0), c_vout = outs, c_nHeight = h, c_nVersion = v\<rparr>))))))"

section \<open>The format on disk: round trip\<close>

definition pad8 :: "bool list \<Rightarrow> bool list" where
  "pad8 g = g @ replicate (8 - length g) False"

lemma mask_byte_bits:
  assumes "length g \<le> 8"
  shows "map (bit (mask_byte g)) [0..<8] = pad8 g"
proof -
  have "bit (mask_byte g) i \<longleftrightarrow> i < length g \<and> g ! i" if "i < 8" for i
    using assms that
  proof (induction g arbitrary: i)
    case (Cons b g)
    let ?w = "mask_byte g"
    have m: "mask_byte (b # g) = (if b then 1 else 0) + 2 * ?w" by (simp add: mask_byte_def)
    show ?case
    proof (cases i)
      case 0
      then show ?thesis by (simp add: m bit_0)
    next
      case (Suc j)
      then have "bit (mask_byte (b # g)) i \<longleftrightarrow> bit ?w j"
        unfolding m using Cons.prems by (auto simp: bit_double_iff even_bit_succ_iff)
      then show ?thesis using Cons.IH [of j] Cons.prems Suc by simp
    qed
  qed (simp add: mask_byte_def)
  then show ?thesis
    by (intro nth_equalityI) (auto simp: pad8_def assms nth_append)
qed

lemma mask_byte_eq_0: "length g \<le> 8 \<Longrightarrow> mask_byte g = 0 \<longleftrightarrow> True \<notin> set g"
proof -
  assume g: "length g \<le> 8"
  show ?thesis
  proof
    assume "mask_byte g = 0"
    then have "pad8 g = map bot [0..<8]" using mask_byte_bits [OF g] by simp
    then have "set (pad8 g) \<subseteq> {False}" by auto
    then show "True \<notin> set g" by (auto simp: pad8_def)
  next
    assume "True \<notin> set g"
    then show "mask_byte g = 0" by (induction g) (auto simp: mask_byte_def)
  qed
qed

lemma read_mask_groups:
  assumes "\<forall>g \<in> set gs. length g \<le> 8" "gs \<noteq> [] \<longrightarrow> True \<in> set (last gs)"
  shows "read_mask (length (filter (\<lambda>g. True \<in> set g) gs)) (map mask_byte gs @ r) = Inr (concat (map pad8 gs), r)"
  using assms
proof (induction gs)
  case Nil
  then show ?case by (cases r) simp_all
next
  case (Cons g gs)
  let ?n = "length (filter (\<lambda>g. True \<in> set g) gs)"
  have n: "length (filter (\<lambda>g. True \<in> set g) (g # gs)) \<noteq> 0"
  proof -
    have "last (g # gs) \<in> set (g # gs)" by (rule last_in_set) simp
    moreover have "True \<in> set (last (g # gs))" using Cons.prems(2) by blast
    ultimately show ?thesis unfolding length_0_conv filter_empty_conv by blast
  qed
  have IH: "read_mask ?n (map mask_byte gs @ r) = Inr (concat (map pad8 gs), r)"
    using Cons by (cases gs) simp_all
  have g: "length g \<le> 8" using Cons.prems(1) by simp
  show ?case
    using n IH mask_byte_eq_0 [OF g] mask_byte_bits [OF g] by (cases "True \<in> set g") auto
qed

lemma concat_pad8: "\<exists>k. concat (map pad8 (mask_groups bs)) = bs @ replicate k False"
proof (induction bs rule: mask_groups.induct)
  case (2 a as)
  then obtain k where k: "concat (map pad8 (mask_groups (drop 7 as))) = drop 7 as @ replicate k False" by blast
  show ?case
  proof (cases "7 \<le> length as")
    case True
    then have "pad8 (take 8 (a # as)) = a # take 7 as" by (simp add: pad8_def)
    then have "concat (map pad8 (mask_groups (a # as))) = (a # as) @ replicate k False" using k by simp
    then show ?thesis by blast
  next
    case False
    then have "pad8 (take 8 (a # as)) = a # as @ replicate (7 - length as) False" by (simp add: pad8_def)
    then have "concat (map pad8 (mask_groups (a # as))) = (a # as) @ replicate (7 - length as + k) False"
      using k False by (simp add: replicate_add)
    then show ?thesis by blast
  qed
qed simp

lemma mask_groups_last: "bs \<noteq> [] \<Longrightarrow> last bs \<Longrightarrow> mask_groups bs \<noteq> [] \<and> True \<in> set (last (mask_groups bs))"
proof (induction bs rule: mask_groups.induct)
  case (2 a as)
  show ?case
  proof (cases "7 < length as")
    case True
    then have "drop 7 as \<noteq> []" "last (drop 7 as)" using 2(3) by (auto simp: last_drop split: if_splits)
    then show ?thesis using 2(1) by simp
  next
    case False
    then have "take 8 (a # as) = a # as" "drop 7 as = []" by simp_all
    then have "mask_groups (a # as) = [a # as]" by simp
    moreover have "True \<in> set (a # as)" using 2(3) last_in_set [of "a # as"] by (simp del: last.simps)
    ultimately show ?thesis by simp
  qed
qed simp

lemma mask_groups_short: "g \<in> set (mask_groups bs) \<Longrightarrow> length g \<le> 8"
  by (induction bs rule: mask_groups.induct) auto


lemma nat_and_bit: "(n::nat) AND 2 ^ k \<noteq> 0 \<longleftrightarrow> bit n k"
  by (simp add: and_exp_eq_0_iff_not_bit)

lemma nCode_fields:
  fixes m :: nat and a b c :: bool
  defines "n \<equiv> 8 * m + of_bool a + 2 * of_bool b + 4 * of_bool c"
  shows "n AND 1 \<noteq> 0 \<longleftrightarrow> a" "n AND 2 \<noteq> 0 \<longleftrightarrow> b" "n AND 4 \<noteq> 0 \<longleftrightarrow> c" "n AND 6 \<noteq> 0 \<longleftrightarrow> b \<or> c" "n div 8 = m"
proof -
  have d: "n div 2 = 4 * m + of_bool b + 2 * of_bool c" "n div 4 = 2 * m + of_bool c"
    by (cases a; cases b; cases c; simp add: n_def)+
  show b0: "n AND 1 \<noteq> 0 \<longleftrightarrow> a"
    unfolding n_def and_one_eq by (cases a; cases b; cases c; simp; presburger)
  show b1: "n AND 2 \<noteq> 0 \<longleftrightarrow> b"
    using nat_and_bit [of n 1] by (cases b; cases c; simp add: bit_iff_odd d)
  show b2: "n AND 4 \<noteq> 0 \<longleftrightarrow> c"
    using nat_and_bit [of n 2] by (cases c; simp add: bit_iff_odd d)
  have "n AND (2 OR 4) = (n AND 2) OR (n AND 4)"
    by (rule bit_eqI) (simp only: bit_and_iff bit_or_iff, blast)
  then have "n AND 6 = (n AND 2) OR (n AND 4)" by simp
  then show "n AND 6 \<noteq> 0 \<longleftrightarrow> b \<or> c" using b1 b2 by (simp add: or_eq_0_iff)
  show "n div 8 = m" by (cases a; cases b; cases c; simp add: n_def)
qed

lemma read_outs_avail:
  assumes "decompression_law fv pd" "list_all (\<lambda>out. out = CTxOut_null \<or> compressible out) outs"
  shows "read_outs pd (map (\<lambda>out. \<not> CTxOut_IsNull out) outs @ replicate k False)
     (concat (map (Serialize_CTxOutCompressor fv) (filter (\<lambda>out. \<not> CTxOut_IsNull out) outs)) @ r) =
     Inr (outs @ replicate k CTxOut_null, r)"
  using assms(2)
proof (induction outs)
  case Nil
  show ?case by (induction k) (simp_all add: parser_simps pbind_apply)
next
  case (Cons out outs)
  then show ?case
    using CTxOutCompressor_read [OF assms(1), of out]
    by (cases "CTxOut_IsNull out") (auto simp: parser_simps pbind_apply compressible_def CTxOut_IsNull_def CTxOut_null_def)
qed

section \<open>Properties of the coin format\<close>

definition coins_ok :: "CCoins \<Rightarrow> bool" where
  "coins_ok c \<longleftrightarrow> \<not> IsPruned c \<and> Cleanup c = c \<and> list_all (\<lambda>out. out = CTxOut_null \<or> compressible out) (c_vout c) \<and>
     length (c_vout c) < 2 ^ 28 \<and> 0 \<le> c_nHeight c \<and> c_nHeight c < 2 ^ 31 \<and> 0 \<le> c_nVersion c \<and> c_nVersion c < 2 ^ 31"

lemma Cleanup_last: "Cleanup c = c \<longleftrightarrow> c_vout c = [] \<or> \<not> CTxOut_IsNull (last (c_vout c))"
proof (cases "c_vout c" rule: rev_cases)
  case (snoc xs x)
  have "length (dropWhile CTxOut_IsNull (rev xs)) \<le> length xs" by (rule order_trans [OF length_dropWhile_le]) simp
  then have "rev (dropWhile CTxOut_IsNull (rev xs)) \<noteq> xs @ [x]" by (auto dest!: arg_cong [of _ _ length])
  then show ?thesis using snoc by (cases c) (auto simp: Cleanup_def)
qed (cases c, simp add: Cleanup_def)

lemma ReadVarInt_int32: "0 \<le> v \<Longrightarrow> v < 2 ^ 31 \<Longrightarrow> ReadVarInt wrap32 (WriteVarInt v @ r) = Inr (v, r)"
  by (rule ReadVarInt_Write) (auto simp: int32_range_def)

lemma ReadVarInt_uint32: "n < 2 ^ 32 \<Longrightarrow> ReadVarInt (take_bit 32) (WriteVarInt (int n) @ r) = Inr (int n, r)"
  by (rule ReadVarInt_Write) (auto simp: take_bit_int_eq_self)

lemma Cleanup_pad:
  assumes "Cleanup c = c"
  shows "Cleanup (c\<lparr>c_vout := c_vout c @ replicate k CTxOut_null\<rparr>) = c"
proof -
  have "dropWhile CTxOut_IsNull (replicate k CTxOut_null @ rev (c_vout c)) = dropWhile CTxOut_IsNull (rev (c_vout c))"
    by (induction k) (simp_all add: CTxOut_null_def CTxOut_IsNull_def)
  then show ?thesis using assms by (simp add: Cleanup_def)
qed

lemma mask_groups_trim:
  assumes "Cleanup c = c" "mask_groups (drop 2 (avail_bits c)) \<noteq> []"
  shows "True \<in> set (last (mask_groups (drop 2 (avail_bits c))))"
proof -
  let ?bs = "drop 2 (avail_bits c)"
  have bs: "?bs \<noteq> []" using assms(2) by (metis mask_groups.simps(1))
  then have "c_vout c \<noteq> []" by (auto simp: avail_bits_def)
  then have "last ?bs" using assms(1) bs by (simp add: Cleanup_last last_drop avail_bits_def last_map)
  then show ?thesis using mask_groups_last [OF bs] by blast
qed

lemma CalcMaskSize_groups:
  assumes "Cleanup c = c"
  shows "CalcMaskSize c = (let gs = mask_groups (drop 2 (avail_bits c)) in (length gs, length (filter (\<lambda>g. True \<in> set g) gs)))"
proof -
  have "dropWhile (\<lambda>g. True \<notin> set g) (rev (mask_groups (drop 2 (avail_bits c)))) = rev (mask_groups (drop 2 (avail_bits c)))"
    using mask_groups_trim [OF assms] by (cases "mask_groups (drop 2 (avail_bits c))" rule: rev_cases) auto
  then show ?thesis by (simp add: CalcMaskSize_def Let_def)
qed

lemma length_mask_groups: "length (mask_groups bs) \<le> length bs"
  by (induction bs rule: mask_groups.induct) auto

lemma avail_head: "avail_bits c @ replicate k False =
    [0 < length (c_vout c) \<and> \<not> CTxOut_IsNull (c_vout c ! 0), 1 < length (c_vout c) \<and> \<not> CTxOut_IsNull (c_vout c ! 1)] @
      drop 2 (avail_bits c) @ replicate (k - (2 - length (c_vout c))) False" if "2 - length (c_vout c) \<le> k"
proof (cases "c_vout c")
  case Nil
  then show ?thesis using that by (cases k; cases "k - 1") (auto simp: avail_bits_def)
next
  case (Cons a as)
  then show ?thesis using that by (cases as; cases k) (auto simp: avail_bits_def)
qed

lemma Serialize_CCoins_eq:
  fixes c f s gs
  defines "gs \<equiv> mask_groups (drop 2 (avail_bits c))"
    and "f \<equiv> 0 < length (c_vout c) \<and> \<not> CTxOut_IsNull (c_vout c ! 0)"
    and "s \<equiv> 1 < length (c_vout c) \<and> \<not> CTxOut_IsNull (c_vout c ! 1)"
  assumes "Cleanup c = c" "f \<or> s \<or> m \<noteq> 0" "n < 2 ^ 32" "m = length (filter (\<lambda>g. True \<in> set g) gs)"
    "n = 8 * (m - (if f \<or> s then 0 else 1)) + of_bool (fCoinBase c) + 2 * of_bool f + 4 * of_bool s"
  shows "Serialize_CCoins fv c = Some (WriteVarInt (c_nVersion c) @ WriteVarInt (int n) @ map mask_byte gs @
     concat (map (Serialize_CTxOutCompressor fv) (filter (\<lambda>out. \<not> CTxOut_IsNull out) (c_vout c))) @
     WriteVarInt (c_nHeight c))"
proof -
  have calc: "CalcMaskSize c = (length gs, m)"
    using CalcMaskSize_groups [OF assms(4)] by (simp add: Let_def gs_def assms(7))
  have n': "(8 * (m - (if f \<or> s then 0 else 1)) + (if fCoinBase c then 1 else 0) + (if f then 2 else 0) + (if s then 4 else 0)) mod 2 ^ 32 = n"
    using mod_less [OF assms(6)] unfolding assms(8) by (cases f; cases s; cases "fCoinBase c"; simp)
  show ?thesis
    using assms(5)
    unfolding Serialize_CCoins_def calc Let_def prod.case gs_def [symmetric] f_def [symmetric] s_def [symmetric] n'
    by simp
qed

lemma Unserialize_CCoins_eq:
  assumes "v = c_nVersion c" "h = c_nHeight c" "0 \<le> v" "v < 2 ^ 31" "0 \<le> h" "h < 2 ^ 31" "n < 2 ^ 32"
    and "n AND 1 \<noteq> 0 \<longleftrightarrow> fCoinBase c" "\<And>x. read_mask (n div 8 + (if n AND 6 \<noteq> 0 then 0 else 1)) (bs @ x) = Inr (mk, x)"
    and "\<And>x. read_outs pd ([n AND 2 \<noteq> 0, n AND 4 \<noteq> 0] @ mk) (os @ x) = Inr (c_vout c @ replicate k CTxOut_null, x)"
    and "Cleanup c = c"
  shows "Unserialize_CCoins pd ((WriteVarInt v @ WriteVarInt (int n) @ bs @ os @ WriteVarInt h) @ r) = Inr (c, r)"
proof -
  have "\<lparr>fCoinBase = n AND 1 \<noteq> 0, c_vout = c_vout c @ replicate k CTxOut_null, c_nHeight = h, c_nVersion = v\<rparr> =
      c\<lparr>c_vout := c_vout c @ replicate k CTxOut_null\<rparr>"
    using assms(1,2,8) by simp
  then show ?thesis
    using Cleanup_pad [OF assms(11), of k]
    by (simp only: Unserialize_CCoins_def append_assoc pbind_apply preturn_apply Let_def nat_int prod.case sum.case
        ReadVarInt_int32 [OF assms(3,4)] ReadVarInt_int32 [OF assms(5,6)] ReadVarInt_uint32 [OF assms(7)] assms(9,10))
qed

lemma CCoins_read:
  assumes d: "decompression_law fv pd" and c: "coins_ok c"
  shows "\<exists>bs. Serialize_CCoins fv c = Some bs \<and> Unserialize_CCoins pd (bs @ r) = Inr (c, r)"
proof -
  define f where "f \<longleftrightarrow> 0 < length (c_vout c) \<and> \<not> CTxOut_IsNull (c_vout c ! 0)"
  define s where "s \<longleftrightarrow> 1 < length (c_vout c) \<and> \<not> CTxOut_IsNull (c_vout c ! 1)"
  define gs where "gs = mask_groups (drop 2 (avail_bits c))"
  define m where "m = length (filter (\<lambda>g. True \<in> set g) gs)"
  define n where "n = 8 * (m - (if f \<or> s then 0 else 1)) + of_bool (fCoinBase c) + 2 * of_bool f + 4 * of_bool s"
  have ok: "\<not> IsPruned c" "Cleanup c = c" "list_all (\<lambda>out. out = CTxOut_null \<or> compressible out) (c_vout c)"
      "length (c_vout c) < 2 ^ 28" "0 \<le> c_nHeight c" "c_nHeight c < 2 ^ 31" "0 \<le> c_nVersion c" "c_nVersion c < 2 ^ 31"
    using c by (auto simp: coins_ok_def)
  have "length (drop 2 (avail_bits c)) \<le> length (c_vout c)" by (simp add: avail_bits_def)
  then have "m \<le> length (c_vout c)"
    using length_mask_groups [of "drop 2 (avail_bits c)"] length_filter_le [of "\<lambda>g. True \<in> set g" gs]
    unfolding m_def gs_def by linarith
  then have n: "n < 2 ^ 32" using ok(4) unfolding n_def by (cases f; cases s; cases "fCoinBase c"; simp)
  obtain k where k: "concat (map pad8 gs) = drop 2 (avail_bits c) @ replicate k False" using concat_pad8 gs_def by blast
  have av: "[f, s] @ concat (map pad8 gs) = avail_bits c @ replicate (k + (2 - length (c_vout c))) False"
    using avail_head [of c "k + (2 - length (c_vout c))"] k by (simp add: f_def s_def)
  have "True \<in> set (avail_bits c)" using ok(1) by (auto simp: IsPruned_def avail_bits_def list_all_iff)
  then have "True \<in> set ([f, s] @ concat (map pad8 gs))" unfolding av by simp
  then have as: "f \<or> s \<or> m \<noteq> 0" by (auto simp: pad8_def filter_empty_conv m_def)
  have w: "Serialize_CCoins fv c = Some (WriteVarInt (c_nVersion c) @ WriteVarInt (int n) @ map mask_byte gs @
     concat (map (Serialize_CTxOutCompressor fv) (filter (\<lambda>out. \<not> CTxOut_IsNull out) (c_vout c))) @ WriteVarInt (c_nHeight c))"
    unfolding gs_def using as n
    by (intro Serialize_CCoins_eq [of c m n fv] ok(2)) (simp_all add: f_def s_def gs_def m_def n_def)
  have "read_mask m (map mask_byte gs @ x) = Inr (concat (map pad8 gs), x)" for x
    using mask_groups_trim [OF ok(2)] mask_groups_short unfolding m_def gs_def by (intro read_mask_groups) blast+
  moreover have "n div 8 + (if n AND 6 \<noteq> 0 then 0 else 1) = m"
    unfolding n_def nCode_fields using as by auto
  moreover have "read_outs pd ([f, s] @ concat (map pad8 gs))
      (concat (map (Serialize_CTxOutCompressor fv) (filter (\<lambda>out. \<not> CTxOut_IsNull out) (c_vout c))) @ x) =
      Inr (c_vout c @ replicate (k + (2 - length (c_vout c))) CTxOut_null, x)" for x
    unfolding av avail_bits_def by (rule read_outs_avail [OF d ok(3)])
  moreover have "n AND 1 \<noteq> 0 \<longleftrightarrow> fCoinBase c" "(n AND 2 \<noteq> 0) = f" "(n AND 4 \<noteq> 0) = s"
    unfolding n_def nCode_fields by simp_all
  ultimately have "Unserialize_CCoins pd ((WriteVarInt (c_nVersion c) @ WriteVarInt (int n) @ map mask_byte gs @
     concat (map (Serialize_CTxOutCompressor fv) (filter (\<lambda>out. \<not> CTxOut_IsNull out) (c_vout c))) @ WriteVarInt (c_nHeight c)) @ r) =
     Inr (c, r)"
    using ok(2)
    by (intro Unserialize_CCoins_eq [OF refl refl ok(7,8,5,6) n, where k = "k + (2 - length (c_vout c))"]) (simp_all only:)
  then show ?thesis using w by blast
qed

lemma IsPruned_bits:
  "IsPruned c \<longleftrightarrow> \<not> (0 < length (c_vout c) \<and> \<not> CTxOut_IsNull (c_vout c ! 0)) \<and>
     \<not> (1 < length (c_vout c) \<and> \<not> CTxOut_IsNull (c_vout c ! 1)) \<and> snd (CalcMaskSize c) = 0"
proof -
  let ?gs = "mask_groups (drop 2 (avail_bits c))"
  obtain k where k: "concat (map pad8 ?gs) = drop 2 (avail_bits c) @ replicate k False" using concat_pad8 by blast
  have "IsPruned c \<longleftrightarrow> True \<notin> set (avail_bits c @ replicate (k + (2 - length (c_vout c))) False)"
    by (auto simp: IsPruned_def avail_bits_def list_all_iff)
  also have "\<dots> \<longleftrightarrow> \<not> (0 < length (c_vout c) \<and> \<not> CTxOut_IsNull (c_vout c ! 0)) \<and>
      \<not> (1 < length (c_vout c) \<and> \<not> CTxOut_IsNull (c_vout c ! 1)) \<and> True \<notin> set (concat (map pad8 ?gs))"
    using avail_head [of c "k + (2 - length (c_vout c))"] k by simp
  also have "True \<notin> set (concat (map pad8 ?gs)) \<longleftrightarrow> snd (CalcMaskSize c) = 0"
    by (auto simp: pad8_def CalcMaskSize_def Let_def filter_empty_conv)
  finally show ?thesis .
qed

text \<open>C36: The format of coins on disk loses nothing.  A coin as the node keeps it (not fully spent, without spent
  outputs at the end, outputs either spent or compressible, height and version not negative) is written, and reading
  the bytes gives the same coin back and leaves what follows them; for any coin, writing hits its assertion exactly
  when the coin is fully spent.\<close>

theorem CCoins_roundtrip:
  assumes "decompression_law fv pd"
  shows "(coins_ok c \<longrightarrow> (\<exists>bs. Serialize_CCoins fv c = Some bs \<and> Unserialize_CCoins pd (bs @ r) = Inr (c, r))) \<and>
    (Serialize_CCoins fv c = None \<longleftrightarrow> IsPruned c)"
proof
  show "coins_ok c \<longrightarrow> (\<exists>bs. Serialize_CCoins fv c = Some bs \<and> Unserialize_CCoins pd (bs @ r) = Inr (c, r))"
    using CCoins_read [OF assms] by blast
  show "Serialize_CCoins fv c = None \<longleftrightarrow> IsPruned c"
    by (cases "CalcMaskSize c") (simp add: Serialize_CCoins_def IsPruned_bits Let_def)
qed

definition sample_coins :: CCoins where
  "sample_coins = \<lparr>fCoinBase = True, c_vout = [CTxOut_null, CTxOut_null, CTxOut_null, CTxOut_null, \<lparr>nValue = 234925952, scriptPubKey = [0x51]\<rparr>],
     c_nHeight = 120891, c_nVersion = 1\<rparr>"

theorem CCoins_roundtrip_witness:
  "\<exists>bs. Serialize_CCoins (\<lambda>_. False) sample_coins = Some bs \<and> Unserialize_CCoins (\<lambda>_. None) (bs @ [7]) = Inr (sample_coins, [7])"
proof -
  have "decompression_law (\<lambda>_. False) (\<lambda>_. None)" by (simp add: decompression_law_def)
  moreover have "coins_ok sample_coins"
    by (simp add: coins_ok_def sample_coins_def IsPruned_def Cleanup_last CTxOut_IsNull_def compressible_def
        MAX_SCRIPT_SIZE_def)
  ultimately show ?thesis using CCoins_roundtrip by blast
qed

end
