(* ===== verification/Zc_WriteBack.thy ===== *)
theory Zc_WriteBack
  imports Zc_Prelude
begin

text \<open>
  Stacks of write-back caches over a base map, the shape that the caches of coins, anchors and nullifiers of
  \<^verbatim>\<open>src/coins.cpp\<close> share.  \<open>peek\<close> is the value a stack shows for a key, \<open>read_through\<close> the read that fills the
  caches it passes.  The locale \<open>write_back\<close> states what an entry promises about the layers under it and what writing
  a dirty entry into the layer below must achieve; its lemmas show that reads change nothing that can be seen and that
  a flush moves the changes down without changing what is seen.
\<close>

section \<open>Reading\<close>

fun peek :: "('e \<Rightarrow> 'v) \<Rightarrow> ('k \<Rightarrow> 'v) \<Rightarrow> ('k \<rightharpoonup> 'e) list \<Rightarrow> 'k \<Rightarrow> 'v" where
  "peek val base [] k = base k"
| "peek val base (m # ms) k = (case m k of Some e \<Rightarrow> val e | None \<Rightarrow> peek val base ms k)"

fun read_through :: "('e \<Rightarrow> 'v) \<Rightarrow> ('v \<Rightarrow> 'e option) \<Rightarrow> ('k \<Rightarrow> 'v) \<Rightarrow> ('k \<rightharpoonup> 'e) list \<Rightarrow> 'k \<Rightarrow> 'v \<times> ('k \<rightharpoonup> 'e) list" where
  "read_through val fill base [] k = (base k, [])"
| "read_through val fill base (m # ms) k =
     (case m k of Some e \<Rightarrow> (val e, m # ms)
      | None \<Rightarrow> (case read_through val fill base ms k of (v, ms') \<Rightarrow>
          (v, (case fill v of None \<Rightarrow> m | Some e \<Rightarrow> m(k \<mapsto> e)) # ms')))"

definition present :: "('k \<rightharpoonup> 'e) list \<Rightarrow> 'k \<Rightarrow> bool" where
  "present ms k \<longleftrightarrow> ms = [] \<or> hd ms k \<noteq> None"

lemma present_simps [simp]: "present [] k" "present (m # ms) k \<longleftrightarrow> m k \<noteq> None"
  by (simp_all add: present_def)

text \<open>\<open>promise k e below pres\<close>: what entry \<open>e\<close> for key \<open>k\<close> promises of the value \<open>below\<close> that the layers under its own
  show, and of the presence of an entry in the next layer.\<close>

fun layers_ok :: "('e \<Rightarrow> 'v) \<Rightarrow> ('k \<Rightarrow> 'e \<Rightarrow> 'v \<Rightarrow> bool \<Rightarrow> bool) \<Rightarrow> ('k \<Rightarrow> 'v) \<Rightarrow> ('k \<rightharpoonup> 'e) list \<Rightarrow> bool" where
  "layers_ok val promise base [] \<longleftrightarrow> True"
| "layers_ok val promise base (m # ms) \<longleftrightarrow>
     (\<forall>k e. m k = Some e \<longrightarrow> promise k e (peek val base ms k) (present ms k)) \<and> layers_ok val promise base ms"

lemma layers_okD: "layers_ok val promise base (m # ms) \<Longrightarrow> m k = Some e \<Longrightarrow> promise k e (peek val base ms k) (present ms k)"
  by simp

section \<open>Entries that keep their promises\<close>

locale write_back =
  fixes val :: "'e \<Rightarrow> 'v"
    and norm :: "'v \<Rightarrow> 'w"
    and promise :: "'k \<Rightarrow> 'e \<Rightarrow> 'v \<Rightarrow> bool \<Rightarrow> bool"
    and fill :: "'v \<Rightarrow> 'e option"
    and base_ok :: "'k \<Rightarrow> 'v \<Rightarrow> bool"
    and dirty :: "'e \<Rightarrow> bool"
    and merge :: "'e \<Rightarrow> 'e option \<Rightarrow> 'e option"
  assumes fill_val: "fill v = Some e \<Longrightarrow> val e = v"
    and fill_promise: "fill v = Some e \<Longrightarrow> base_ok k v \<Longrightarrow> promise k e v True"
    and promise_ok: "promise k e v p \<Longrightarrow> base_ok k (val e)"
    and promise_mono: "promise k e v False \<Longrightarrow> promise k e v p"
    and clean: "promise k e v p \<Longrightarrow> \<not> dirty e \<Longrightarrow> norm (val e) = norm v"
    and merge_some: "promise k e (val f) True \<Longrightarrow> promise k f v p \<Longrightarrow> dirty e \<Longrightarrow>
      (case merge e (Some f) of Some g \<Rightarrow> norm (val g) = norm (val e) \<and> promise k g v p | None \<Rightarrow> norm v = norm (val e))"
    and merge_none: "promise k e v False \<Longrightarrow> base_ok k v \<Longrightarrow> dirty e \<Longrightarrow>
      (case merge e None of Some g \<Rightarrow> norm (val g) = norm (val e) \<and> promise k g v p | None \<Rightarrow> norm v = norm (val e))"
begin

lemma peek_base_ok: "layers_ok val promise base ms \<Longrightarrow> \<forall>k. base_ok k (base k) \<Longrightarrow> base_ok k (peek val base ms k)"
proof (induction ms)
  case (Cons m ms)
  then show ?case by (cases "m k") (auto dest: promise_ok layers_okD)
qed simp

lemma read_peek: "fst (read_through val fill base ms k) = peek val base ms k"
  by (induction ms) (auto split: option.splits prod.splits)

lemma read_same: "peek val base (snd (read_through val fill base ms k)) k' = peek val base ms k'"
proof (induction ms)
  case (Cons m ms)
  show ?case
  proof (cases "m k")
    case None
    obtain v ms' where r: "read_through val fill base ms k = (v, ms')" by fastforce
    have "v = peek val base ms k" using read_peek [of base ms k] r by simp
    then show ?thesis
      using None Cons r by (cases "fill v") (auto simp: fill_val split: option.splits)
  qed simp
qed simp

lemma read_present: "present ms k' \<Longrightarrow> present (snd (read_through val fill base ms k)) k'"
  by (cases ms) (auto split: option.splits prod.splits)

lemma read_fills: "fill (peek val base ms k) \<noteq> None \<Longrightarrow> present (snd (read_through val fill base ms k)) k"
proof (cases ms)
  case (Cons m ms')
  then show "fill (peek val base ms k) \<noteq> None \<Longrightarrow> ?thesis"
    using read_peek [of base ms' k] by (auto split: option.splits prod.splits)
qed simp

lemma promise_weaken: "promise k e v p \<Longrightarrow> (p \<Longrightarrow> p') \<Longrightarrow> promise k e v p'"
  using promise_mono by (cases p; cases p') auto

lemma read_ok:
  assumes "layers_ok val promise base ms" "\<forall>k. base_ok k (base k)"
  shows "layers_ok val promise base (snd (read_through val fill base ms k))"
  using assms
proof (induction ms)
  case (Cons m ms)
  show ?case
  proof (cases "m k")
    case None
    obtain v ms' where r: "read_through val fill base ms k = (v, ms')" by fastforce
    have v: "v = peek val base ms k" using read_peek [of base ms k] r by simp
    have same: "peek val base ms' k' = peek val base ms k'" for k' using read_same [of base ms k k'] r by simp
    have pres: "present ms k' \<Longrightarrow> present ms' k'" for k' using read_present [of ms k' base k] r by simp
    have ok: "layers_ok val promise base ms'" using Cons r by simp
    have old: "promise k' e (peek val base ms' k') (present ms' k')" if "m k' = Some e" for k' e
      using layers_okD [OF Cons.prems(1) that] pres [of k'] unfolding same by (rule promise_weaken)
    have new: "promise k e (peek val base ms' k) (present ms' k)" if "fill v = Some e" for e
    proof -
      have "present ms' k" using read_fills [of base ms k] r v that by simp
      then show ?thesis
        using fill_promise [OF that, of k] peek_base_ok [OF _ Cons.prems(2), of ms k] Cons.prems(1) v same by simp
    qed
    show ?thesis using None r ok old new by (auto split: option.splits if_splits)
  qed (use Cons.prems in simp)
qed simp

section \<open>Writing a cache into the next layer\<close>

lemma flush_cache:
  assumes "layers_ok val promise base (m # p # ms)" "\<forall>k. base_ok k (base k)"
  defines "p' \<equiv> (\<lambda>k. case m k of None \<Rightarrow> p k | Some e \<Rightarrow> if dirty e then merge e (p k) else p k)"
  shows "norm (peek val base (p' # ms) k) = norm (peek val base (m # p # ms) k)" "layers_ok val promise base (p' # ms)"
proof -
  have ms: "layers_ok val promise base ms" using assms(1) by simp
  have key: "norm (peek val base (p' # ms) k) = norm (peek val base (m # p # ms) k) \<and>
      (\<forall>g. p' k = Some g \<longrightarrow> promise k g (peek val base ms k) (present ms k))" for k
  proof (cases "m k")
    case None
    then show ?thesis using assms(1) by (auto simp: p'_def)
  next
    case (Some e)
    have e: "promise k e (peek val base (p # ms) k) (p k \<noteq> None)" using layers_okD [OF assms(1) Some] by simp
    show ?thesis
    proof (cases "dirty e")
      case False
      then show ?thesis using Some assms(1) clean [OF e False] by (auto simp: p'_def)
    next
      case True
      show ?thesis
      proof (cases "p k")
        case None
        then show ?thesis
          using Some True merge_none [OF _ peek_base_ok [OF ms assms(2)], of k e "present ms k"] e
          by (auto simp: p'_def split: option.splits)
      next
        case (Some f)
        have f: "promise k f (peek val base ms k) (present ms k)" using assms(1) Some by simp
        show ?thesis
          using Some True merge_some [of k e f "peek val base ms k" "present ms k"] e f \<open>m k = Some e\<close>
          by (auto simp: p'_def split: option.splits)
      qed
    qed
  qed
  show "norm (peek val base (p' # ms) k) = norm (peek val base (m # p # ms) k)" using key by blast
  show "layers_ok val promise base (p' # ms)" using key ms by auto
qed

lemma flush_base:
  assumes "layers_ok val promise base [m]"
    and "\<And>k e. m k = Some e \<Longrightarrow> dirty e \<Longrightarrow> promise k e (base k) True \<Longrightarrow> norm (base' k) = norm (val e)"
    and "\<And>k. (\<forall>e. m k = Some e \<longrightarrow> \<not> dirty e) \<Longrightarrow> norm (base' k) = norm (base k)"
  shows "norm (base' k) = norm (peek val base [m] k)"
proof (cases "m k")
  case (Some e)
  have "promise k e (base k) True" using layers_okD [OF assms(1) Some] by simp
  then show ?thesis using assms(2) [OF Some] assms(3) [of k] clean Some by (cases "dirty e") auto
qed (simp add: assms(3))

end

end
