(* ===== verification/Zc_CoinsView.thy ===== *)
theory Zc_CoinsView
  imports Zc_Coins Zc_WriteBack
begin

text \<open>
  The views of the chain state, \<^verbatim>\<open>src/coins.h\<close>, \<^verbatim>\<open>src/coins.cpp\<close>, \<^verbatim>\<open>src/txdb.cpp\<close> and
  \<^verbatim>\<open>src/zcash/History.cpp\<close>: a stack of \<^verbatim>\<open>CCoinsViewCache\<close> over \<^verbatim>\<open>CCoinsViewDB\<close>.  A list of caches stands for
  the chain of \<^verbatim>\<open>base\<close> pointers, the cache in use first; a read fills the caches it passes.  The tables of the
  database are maps from keys to values, because \<^verbatim>\<open>leveldb\<close> is a library; the keys of the history nodes are kept
  as bytes, since the code writes and erases them at different widths.  The counters of memory use, which only decide
  when a cache is flushed, are not modelled.
\<close>

section \<open>State\<close>

datatype ShieldedType = SPROUT | SAPLING

datatype view_error = AssertFailed | InvalidHistoryRequest | HistoryInconsistent | HistoryHashFailed | TwoHistoryNodes
  | NoHistoryTree | TreeError tree_error | ValueError value_error

text \<open>A commitment tree of one pool: the hash of the template argument, the roots of empty subtrees and the depth.\<close>

record tree_pool =
  p_combine :: "uint256 \<Rightarrow> uint256 \<Rightarrow> nat \<Rightarrow> uint256"
  p_empty :: "nat \<Rightarrow> uint256"
  p_depth :: nat

type_synonym tree = "uint256 IncrementalMerkleTree"

definition tree_root :: "tree_pool \<Rightarrow> tree \<Rightarrow> uint256" where
  "tree_root P t = imt_root (p_combine P) (p_empty P) (p_depth P) [] t"

definition empty_root :: "tree_pool \<Rightarrow> uint256" where
  "empty_root P = p_empty P (p_depth P)"

definition tree_append :: "tree_pool \<Rightarrow> uint256 \<Rightarrow> tree \<Rightarrow> view_error + tree" where
  "tree_append P cm t = (case imt_append (p_combine P) (p_depth P) cm t of Inl e \<Rightarrow> Inl (TreeError e) | Inr t' \<Rightarrow> Inr t')"

record CCoinsCacheEntry =
  e_coins :: CCoins
  e_dirty :: bool
  e_fresh :: bool

record CAnchorsCacheEntry =
  a_entered :: bool
  a_tree :: tree
  a_dirty :: bool

record CNullifiersCacheEntry =
  n_entered :: bool
  n_dirty :: bool

record HistoryCache =
  h_appends :: "u64 \<rightharpoonup> bytes"
  h_length :: u64
  h_updateDepth :: u64
  h_root :: uint256
  h_epoch :: u32

record CCoinsViewCache =
  hashBlock :: uint256
  cacheCoins :: "uint256 \<rightharpoonup> CCoinsCacheEntry"
  hashAnchor :: "ShieldedType \<Rightarrow> uint256"
  cacheAnchors :: "ShieldedType \<Rightarrow> uint256 \<rightharpoonup> CAnchorsCacheEntry"
  cacheNullifiers :: "ShieldedType \<Rightarrow> uint256 \<rightharpoonup> CNullifiersCacheEntry"
  historyCacheMap :: "u32 \<rightharpoonup> HistoryCache"

definition CCoinsViewCache0 :: CCoinsViewCache where
  "CCoinsViewCache0 = \<lparr>hashBlock = 0, cacheCoins = Map.empty, hashAnchor = (\<lambda>_. 0), cacheAnchors = (\<lambda>_. Map.empty),
     cacheNullifiers = (\<lambda>_. Map.empty), historyCacheMap = Map.empty\<rparr>"

record coins_db =
  db_coins :: "uint256 \<rightharpoonup> CCoins"
  db_anchors :: "ShieldedType \<Rightarrow> uint256 \<rightharpoonup> tree"
  db_nullifiers :: "ShieldedType \<Rightarrow> uint256 \<rightharpoonup> bool"
  db_best_block :: "uint256 option"
  db_best_anchor :: "ShieldedType \<Rightarrow> uint256 option"
  db_mmr_length :: "u32 \<rightharpoonup> u64"
  db_mmr_node :: "u32 \<Rightarrow> bytes \<rightharpoonup> bytes"
  db_mmr_root :: "u32 \<rightharpoonup> uint256"

type_synonym caches = "CCoinsViewCache list"
type_synonym pools = "ShieldedType \<Rightarrow> tree_pool"

section \<open>The database\<close>

definition DB_GetAnchorAt :: "pools \<Rightarrow> coins_db \<Rightarrow> ShieldedType \<Rightarrow> uint256 \<Rightarrow> tree option" where
  "DB_GetAnchorAt P db ty rt = (if rt = empty_root (P ty) then Some empty_tree else db_anchors db ty rt)"

definition DB_GetNullifier :: "coins_db \<Rightarrow> ShieldedType \<Rightarrow> uint256 \<Rightarrow> bool" where
  "DB_GetNullifier db ty nf \<longleftrightarrow> db_nullifiers db ty nf \<noteq> None"

definition DB_GetBestBlock :: "coins_db \<Rightarrow> uint256" where
  "DB_GetBestBlock db = (case db_best_block db of None \<Rightarrow> 0 | Some h \<Rightarrow> h)"

definition DB_GetBestAnchor :: "pools \<Rightarrow> coins_db \<Rightarrow> ShieldedType \<Rightarrow> uint256" where
  "DB_GetBestAnchor P db ty = (case db_best_anchor db ty of None \<Rightarrow> empty_root (P ty) | Some h \<Rightarrow> h)"

definition DB_GetHistoryLength :: "coins_db \<Rightarrow> u32 \<Rightarrow> u64" where
  "DB_GetHistoryLength db epochId = (case db_mmr_length db epochId of None \<Rightarrow> 0 | Some n \<Rightarrow> n)"

definition DB_GetHistoryAt :: "coins_db \<Rightarrow> u32 \<Rightarrow> u64 \<Rightarrow> view_error + bytes" where
  "DB_GetHistoryAt db epochId index =
     (if DB_GetHistoryLength db epochId \<le> index then Inl HistoryInconsistent
      else case db_mmr_node db epochId (ser_writedata64 index) of None \<Rightarrow> Inl HistoryInconsistent | Some n \<Rightarrow> Inr n)"

definition DB_GetHistoryRoot :: "coins_db \<Rightarrow> u32 \<Rightarrow> uint256" where
  "DB_GetHistoryRoot db epochId = (case db_mmr_root db epochId of None \<Rightarrow> 0 | Some r \<Rightarrow> r)"

section \<open>Reading through the caches\<close>

text \<open>\<^verbatim>\<open>GetCoins\<close> of the database, and of a cache by \<^verbatim>\<open>FetchCoins\<close>.\<close>

fun GetCoins :: "coins_db \<Rightarrow> caches \<Rightarrow> uint256 \<Rightarrow> CCoins option \<times> caches" where
  "GetCoins db [] txid = (db_coins db txid, [])"
| "GetCoins db (c # base) txid =
     (case cacheCoins c txid of Some it \<Rightarrow> (Some (e_coins it), c # base)
      | None \<Rightarrow> (case GetCoins db base txid of
          (None, base') \<Rightarrow> (None, c # base')
        | (Some tmp, base') \<Rightarrow> (Some tmp,
            c\<lparr>cacheCoins := (cacheCoins c)(txid \<mapsto> \<lparr>e_coins = tmp, e_dirty = False, e_fresh = IsPruned tmp\<rparr>)\<rparr> # base')))"

fun GetAnchorAt :: "pools \<Rightarrow> coins_db \<Rightarrow> caches \<Rightarrow> ShieldedType \<Rightarrow> uint256 \<Rightarrow> tree option \<times> caches" where
  "GetAnchorAt P db [] ty rt = (DB_GetAnchorAt P db ty rt, [])"
| "GetAnchorAt P db (c # base) ty rt =
     (case cacheAnchors c ty rt of Some it \<Rightarrow> (if a_entered it then Some (a_tree it) else None, c # base)
      | None \<Rightarrow> (case GetAnchorAt P db base ty rt of
          (None, base') \<Rightarrow> (None, c # base')
        | (Some tree, base') \<Rightarrow> (Some tree, c\<lparr>cacheAnchors := (cacheAnchors c)(ty := (cacheAnchors c ty)(rt \<mapsto>
            \<lparr>a_entered = True, a_tree = tree, a_dirty = False\<rparr>))\<rparr> # base')))"

fun GetNullifier :: "coins_db \<Rightarrow> caches \<Rightarrow> ShieldedType \<Rightarrow> uint256 \<Rightarrow> bool \<times> caches" where
  "GetNullifier db [] ty nf = (DB_GetNullifier db ty nf, [])"
| "GetNullifier db (c # base) ty nf =
     (case cacheNullifiers c ty nf of Some it \<Rightarrow> (n_entered it, c # base)
      | None \<Rightarrow> (case GetNullifier db base ty nf of (tmp, base') \<Rightarrow>
          (tmp, c\<lparr>cacheNullifiers := (cacheNullifiers c)(ty := (cacheNullifiers c ty)(nf \<mapsto>
             \<lparr>n_entered = tmp, n_dirty = False\<rparr>))\<rparr> # base')))"

fun GetBestBlock :: "coins_db \<Rightarrow> caches \<Rightarrow> uint256 \<times> caches" where
  "GetBestBlock db [] = (DB_GetBestBlock db, [])"
| "GetBestBlock db (c # base) =
     (if hashBlock c = 0 then (case GetBestBlock db base of (h, base') \<Rightarrow> (h, c\<lparr>hashBlock := h\<rparr> # base'))
      else (hashBlock c, c # base))"

fun GetBestAnchor :: "pools \<Rightarrow> coins_db \<Rightarrow> caches \<Rightarrow> ShieldedType \<Rightarrow> uint256 \<times> caches" where
  "GetBestAnchor P db [] ty = (DB_GetBestAnchor P db ty, [])"
| "GetBestAnchor P db (c # base) ty =
     (if hashAnchor c ty = 0
      then (case GetBestAnchor P db base ty of (h, base') \<Rightarrow> (h, c\<lparr>hashAnchor := (hashAnchor c)(ty := h)\<rparr> # base'))
      else (hashAnchor c ty, c # base))"

text \<open>\<^verbatim>\<open>GetHistoryLength\<close> and \<^verbatim>\<open>GetHistoryRoot\<close>, and \<^verbatim>\<open>SelectHistoryCache\<close>, which asks the base for both.\<close>

definition HistoryCache_new :: "u64 \<Rightarrow> uint256 \<Rightarrow> u32 \<Rightarrow> HistoryCache" where
  "HistoryCache_new initialLength initialRoot initialEpoch =
     \<lparr>h_appends = Map.empty, h_length = initialLength, h_updateDepth = initialLength, h_root = initialRoot,
      h_epoch = initialEpoch\<rparr>"

fun GetHistoryLengthRoot :: "coins_db \<Rightarrow> caches \<Rightarrow> u32 \<Rightarrow> (u64 \<times> uint256) \<times> caches" where
  "GetHistoryLengthRoot db [] epochId = ((DB_GetHistoryLength db epochId, DB_GetHistoryRoot db epochId), [])"
| "GetHistoryLengthRoot db (c # base) epochId =
     (case historyCacheMap c epochId of Some hc \<Rightarrow> ((h_length hc, h_root hc), c # base)
      | None \<Rightarrow> (case GetHistoryLengthRoot db base epochId of ((n, r), base') \<Rightarrow>
          ((n, r), c\<lparr>historyCacheMap := (historyCacheMap c)(epochId \<mapsto> HistoryCache_new n r epochId)\<rparr> # base')))"

definition SelectHistoryCache :: "coins_db \<Rightarrow> CCoinsViewCache \<Rightarrow> caches \<Rightarrow> u32 \<Rightarrow> HistoryCache \<times> CCoinsViewCache \<times> caches" where
  "SelectHistoryCache db c base epochId =
     (case historyCacheMap c epochId of Some hc \<Rightarrow> (hc, c, base)
      | None \<Rightarrow> (case GetHistoryLengthRoot db base epochId of ((n, r), base') \<Rightarrow>
          let hc = HistoryCache_new n r epochId
          in (hc, c\<lparr>historyCacheMap := (historyCacheMap c)(epochId \<mapsto> hc)\<rparr>, base')))"

text \<open>The layer below is read as it was before the cache was selected, since selecting it again gives what it gave the
  first time.  An index between \<^verbatim>\<open>updateDepth\<close> and \<^verbatim>\<open>length\<close> without an appended node, which the invariant of the
  caches excludes, reads as the zero node of \<^verbatim>\<open>operator[]\<close>; the entry that \<^verbatim>\<open>operator[]\<close> would then insert is left out.\<close>

fun GetHistoryAt :: "coins_db \<Rightarrow> caches \<Rightarrow> u32 \<Rightarrow> u64 \<Rightarrow> view_error + bytes \<times> caches" where
  "GetHistoryAt db [] epochId index = rbind (DB_GetHistoryAt db epochId index) (\<lambda>n. Inr (n, []))"
| "GetHistoryAt db (c # base) epochId index =
     (case SelectHistoryCache db c base epochId of (hc, c', base') \<Rightarrow>
        if h_length hc \<le> index then Inl InvalidHistoryRequest
        else if h_updateDepth hc \<le> index
        then Inr (case h_appends hc index of None \<Rightarrow> replicate 171 0 | Some n \<Rightarrow> n, c' # base')
        else rbind (GetHistoryAt db base epochId index) (\<lambda>(n, b). Inr (n, c' # b)))"

section \<open>The view in use\<close>

record coins_view =
  v_top :: CCoinsViewCache
  v_below :: caches
  v_db :: coins_db

definition v_caches :: "coins_view \<Rightarrow> caches" where
  "v_caches v = v_top v # v_below v"

definition set_caches :: "caches \<Rightarrow> coins_view \<Rightarrow> coins_view" where
  "set_caches cs v = v\<lparr>v_top := hd cs, v_below := tl cs\<rparr>"

definition AccessCoins :: "coins_view \<Rightarrow> uint256 \<Rightarrow> CCoins option \<times> coins_view" where
  "AccessCoins v txid = (case GetCoins (v_db v) (v_caches v) txid of (r, cs) \<Rightarrow> (r, set_caches cs v))"

definition HaveCoins :: "coins_view \<Rightarrow> uint256 \<Rightarrow> bool \<times> coins_view" where
  "HaveCoins v txid = (case AccessCoins v txid of (it, v') \<Rightarrow>
     (case it of None \<Rightarrow> False | Some coins \<Rightarrow> c_vout coins \<noteq> [], v'))"

definition view_GetAnchorAt :: "pools \<Rightarrow> coins_view \<Rightarrow> ShieldedType \<Rightarrow> uint256 \<Rightarrow> tree option \<times> coins_view" where
  "view_GetAnchorAt P v ty rt = (case GetAnchorAt P (v_db v) (v_caches v) ty rt of (r, cs) \<Rightarrow> (r, set_caches cs v))"

definition view_GetNullifier :: "coins_view \<Rightarrow> ShieldedType \<Rightarrow> uint256 \<Rightarrow> bool \<times> coins_view" where
  "view_GetNullifier v ty nf = (case GetNullifier (v_db v) (v_caches v) ty nf of (r, cs) \<Rightarrow> (r, set_caches cs v))"

definition view_GetBestBlock :: "coins_view \<Rightarrow> uint256 \<times> coins_view" where
  "view_GetBestBlock v = (case GetBestBlock (v_db v) (v_caches v) of (r, cs) \<Rightarrow> (r, set_caches cs v))"

definition view_GetBestAnchor :: "pools \<Rightarrow> coins_view \<Rightarrow> ShieldedType \<Rightarrow> uint256 \<times> coins_view" where
  "view_GetBestAnchor P v ty = (case GetBestAnchor P (v_db v) (v_caches v) ty of (r, cs) \<Rightarrow> (r, set_caches cs v))"

definition view_GetHistoryRoot :: "coins_view \<Rightarrow> u32 \<Rightarrow> uint256 \<times> coins_view" where
  "view_GetHistoryRoot v epochId =
     (case GetHistoryLengthRoot (v_db v) (v_caches v) epochId of ((_, r), cs) \<Rightarrow> (r, set_caches cs v))"

definition SetBestBlock :: "uint256 \<Rightarrow> coins_view \<Rightarrow> coins_view" where
  "SetBestBlock h v = v\<lparr>v_top := (v_top v)\<lparr>hashBlock := h\<rparr>\<rparr>"

section \<open>Changing the view\<close>

text \<open>The destructor of \<^verbatim>\<open>CCoinsModifier\<close>, applied to the modified entry.\<close>

definition modifier_done :: "uint256 \<Rightarrow> CCoinsCacheEntry \<Rightarrow> coins_view \<Rightarrow> coins_view" where
  "modifier_done txid it v =
     (let it' = it\<lparr>e_coins := Cleanup (e_coins it)\<rparr>; c = v_top v
      in v\<lparr>v_top := c\<lparr>cacheCoins := (if e_fresh it' \<and> IsPruned (e_coins it') then (cacheCoins c)(txid := None)
                                     else (cacheCoins c)(txid \<mapsto> it'))\<rparr>\<rparr>)"

text \<open>\<^verbatim>\<open>ModifyCoins\<close> and the life of the modifier it returns: \<open>f\<close> is what the caller does with the reference.\<close>

definition ModifyCoins :: "uint256 \<Rightarrow> (CCoins \<Rightarrow> 'a \<times> CCoins) \<Rightarrow> coins_view \<Rightarrow> 'a \<times> coins_view" where
  "ModifyCoins txid f v =
     (let (it, v1) = (case cacheCoins (v_top v) txid of
            Some it \<Rightarrow> (it, v)
          | None \<Rightarrow> (case GetCoins (v_db v) (v_below v) txid of (r, base') \<Rightarrow>
              (case r of None \<Rightarrow> \<lparr>e_coins = CCoins0, e_dirty = False, e_fresh = True\<rparr>
               | Some coins \<Rightarrow> \<lparr>e_coins = coins, e_dirty = False, e_fresh = IsPruned coins\<rparr>,
               v\<lparr>v_below := base'\<rparr>)));
          (x, coins) = f (e_coins it)
      in (x, modifier_done txid (it\<lparr>e_coins := coins, e_dirty := True\<rparr>) v1))"

definition ModifyNewCoins :: "uint256 \<Rightarrow> (CCoins \<Rightarrow> 'a \<times> CCoins) \<Rightarrow> coins_view \<Rightarrow> 'a \<times> coins_view" where
  "ModifyNewCoins txid f v =
     (let (x, coins) = f CCoins0 in (x, modifier_done txid \<lparr>e_coins = coins, e_dirty = True, e_fresh = True\<rparr> v))"

definition PushAnchor :: "pools \<Rightarrow> ShieldedType \<Rightarrow> tree \<Rightarrow> coins_view \<Rightarrow> coins_view" where
  "PushAnchor P ty tree v =
     (let newrt = tree_root (P ty) tree; (currentRoot, v1) = view_GetBestAnchor P v ty; c = v_top v1
      in if currentRoot \<noteq> newrt
         then v1\<lparr>v_top := c\<lparr>cacheAnchors := (cacheAnchors c)(ty := (cacheAnchors c ty)(newrt \<mapsto>
                             \<lparr>a_entered = True, a_tree = tree, a_dirty = True\<rparr>)),
                           hashAnchor := (hashAnchor c)(ty := newrt)\<rparr>\<rparr>
         else v1)"

definition PopAnchor :: "pools \<Rightarrow> ShieldedType \<Rightarrow> uint256 \<Rightarrow> coins_view \<Rightarrow> view_error + coins_view" where
  "PopAnchor P ty newrt v =
     (case view_GetBestAnchor P v ty of (currentRoot, v1) \<Rightarrow>
      if currentRoot \<noteq> newrt
      then (case view_GetAnchorAt P v1 ty currentRoot of
          (None, v2) \<Rightarrow> Inl AssertFailed
        | (Some tree, v2) \<Rightarrow> (let c = v_top v2 in
            let it = (case cacheAnchors c ty currentRoot of Some it \<Rightarrow> it
                      | None \<Rightarrow> \<lparr>a_entered = False, a_tree = empty_tree, a_dirty = False\<rparr>) in
            Inr (v2\<lparr>v_top := c\<lparr>
              cacheAnchors := (cacheAnchors c)(ty := (cacheAnchors c ty)(currentRoot \<mapsto> it\<lparr>a_entered := False, a_dirty := True\<rparr>)),
              hashAnchor := (hashAnchor c)(ty := newrt)\<rparr>\<rparr>)))
      else Inr v1)"

definition set_nullifier :: "ShieldedType \<Rightarrow> bool \<Rightarrow> uint256 \<Rightarrow> CCoinsViewCache \<Rightarrow> CCoinsViewCache" where
  "set_nullifier ty spent nf c = c\<lparr>cacheNullifiers := (cacheNullifiers c)(ty := (cacheNullifiers c ty)(nf \<mapsto>
     \<lparr>n_entered = spent, n_dirty = True\<rparr>))\<rparr>"

definition SetNullifiers :: "('z) CMutableTransaction_scheme \<Rightarrow> bool \<Rightarrow> coins_view \<Rightarrow> coins_view" where
  "SetNullifiers tx spent v =
     (let c1 = fold (\<lambda>joinsplit. fold (set_nullifier SPROUT spent) (js_nullifiers joinsplit)) (vJoinSplit tx) (v_top v);
          c2 = fold (\<lambda>spendDescription. set_nullifier SAPLING spent (sd_nullifier spendDescription)) (vShieldedSpend tx) c1
      in v\<lparr>v_top := c2\<rparr>)"

section \<open>Writing a cache into its base\<close>

text \<open>The loops over a child's map treat each key on its own, so the maps are written key by key.\<close>

definition BatchWriteNullifiers :: "(uint256 \<rightharpoonup> CNullifiersCacheEntry) \<Rightarrow> (uint256 \<rightharpoonup> CNullifiersCacheEntry) \<Rightarrow>
    (uint256 \<rightharpoonup> CNullifiersCacheEntry)" where
  "BatchWriteNullifiers child parent = (\<lambda>k. case child k of None \<Rightarrow> parent k
     | Some ch \<Rightarrow> (if \<not> n_dirty ch then parent k
        else case parent k of None \<Rightarrow> Some \<lparr>n_entered = n_entered ch, n_dirty = True\<rparr>
        | Some us \<Rightarrow> Some (if n_entered us \<noteq> n_entered ch then us\<lparr>n_entered := n_entered ch, n_dirty := True\<rparr> else us)))"

definition BatchWriteAnchors :: "(uint256 \<rightharpoonup> CAnchorsCacheEntry) \<Rightarrow> (uint256 \<rightharpoonup> CAnchorsCacheEntry) \<Rightarrow>
    (uint256 \<rightharpoonup> CAnchorsCacheEntry)" where
  "BatchWriteAnchors child parent = (\<lambda>k. case child k of None \<Rightarrow> parent k
     | Some ch \<Rightarrow> (if \<not> a_dirty ch then parent k
        else case parent k of None \<Rightarrow> Some \<lparr>a_entered = a_entered ch, a_tree = a_tree ch, a_dirty = True\<rparr>
        | Some us \<Rightarrow> Some (if a_entered us \<noteq> a_entered ch then us\<lparr>a_entered := a_entered ch, a_dirty := True\<rparr> else us)))"

definition BatchWriteCoins_assert :: "(uint256 \<rightharpoonup> CCoinsCacheEntry) \<Rightarrow> (uint256 \<rightharpoonup> CCoinsCacheEntry) \<Rightarrow> bool" where
  "BatchWriteCoins_assert child parent \<longleftrightarrow> (\<forall>k it. child k = Some it \<and> e_dirty it \<and> parent k = None \<and>
     \<not> IsPruned (e_coins it) \<longrightarrow> e_fresh it)"

definition BatchWriteCoins :: "(uint256 \<rightharpoonup> CCoinsCacheEntry) \<Rightarrow> (uint256 \<rightharpoonup> CCoinsCacheEntry) \<Rightarrow> (uint256 \<rightharpoonup> CCoinsCacheEntry)" where
  "BatchWriteCoins child parent = (\<lambda>k. case child k of None \<Rightarrow> parent k
     | Some it \<Rightarrow> (if \<not> e_dirty it then parent k
        else case parent k of
          None \<Rightarrow> (if IsPruned (e_coins it) then None else Some \<lparr>e_coins = e_coins it, e_dirty = True, e_fresh = True\<rparr>)
        | Some itUs \<Rightarrow> (if e_fresh itUs \<and> IsPruned (e_coins it) then None
                       else Some (itUs\<lparr>e_coins := e_coins it, e_dirty := True\<rparr>))))"

definition history_Extend :: "bytes \<Rightarrow> HistoryCache \<Rightarrow> HistoryCache" where
  "history_Extend leaf h = h\<lparr>h_appends := (h_appends h)(h_length h \<mapsto> leaf), h_length := h_length h + 1\<rparr>"

definition history_Truncate :: "u64 \<Rightarrow> HistoryCache \<Rightarrow> HistoryCache" where
  "history_Truncate newLength h =
     (let h1 = h\<lparr>h_appends := (if 0 < newLength
                  then (\<lambda>idx. if newLength \<le> idx \<and> idx \<le> h_length h then None else h_appends h idx)
                  else Map.empty), h_length := newLength\<rparr>
      in if h_updateDepth h1 > newLength then h1\<lparr>h_updateDepth := newLength\<rparr> else h1)"

text \<open>The nodes a history cache adds, read with \<^verbatim>\<open>operator[]\<close>.\<close>

definition appended_nodes :: "HistoryCache \<Rightarrow> bytes list" where
  "appended_nodes h = map (\<lambda>i. case h_appends h (of_nat i) of None \<Rightarrow> replicate 171 0 | Some n \<Rightarrow> n)
     [unat (h_updateDepth h)..<unat (h_length h)]"

definition merge_history :: "HistoryCache \<Rightarrow> HistoryCache \<Rightarrow> HistoryCache" where
  "merge_history hIn h = (fold history_Extend (appended_nodes hIn) (history_Truncate (h_updateDepth hIn) h))\<lparr>h_root := h_root hIn\<rparr>"

definition BatchWriteHistory_assert :: "(u32 \<rightharpoonup> HistoryCache) \<Rightarrow> (u32 \<rightharpoonup> HistoryCache) \<Rightarrow> bool" where
  "BatchWriteHistory_assert child parent \<longleftrightarrow> (\<forall>k hIn h. child k = Some hIn \<and> parent k = Some h \<longrightarrow>
     h_length (merge_history hIn h) = h_length hIn)"

definition BatchWriteHistory :: "(u32 \<rightharpoonup> HistoryCache) \<Rightarrow> (u32 \<rightharpoonup> HistoryCache) \<Rightarrow> (u32 \<rightharpoonup> HistoryCache)" where
  "BatchWriteHistory child parent = (\<lambda>k. case child k of None \<Rightarrow> parent k
     | Some hIn \<Rightarrow> (case parent k of None \<Rightarrow> Some hIn | Some h \<Rightarrow> Some (merge_history hIn h)))"

definition BatchWrite :: "CCoinsViewCache \<Rightarrow> CCoinsViewCache \<Rightarrow> view_error + CCoinsViewCache" where
  "BatchWrite child c =
     (if \<not> (BatchWriteCoins_assert (cacheCoins child) (cacheCoins c) \<and>
            BatchWriteHistory_assert (historyCacheMap child) (historyCacheMap c)) then Inl AssertFailed
      else Inr \<lparr>hashBlock = hashBlock child,
        cacheCoins = BatchWriteCoins (cacheCoins child) (cacheCoins c),
        hashAnchor = hashAnchor child,
        cacheAnchors = (\<lambda>ty. BatchWriteAnchors (cacheAnchors child ty) (cacheAnchors c ty)),
        cacheNullifiers = (\<lambda>ty. BatchWriteNullifiers (cacheNullifiers child ty) (cacheNullifiers c ty)),
        historyCacheMap = BatchWriteHistory (historyCacheMap child) (historyCacheMap c)\<rparr>)"

text \<open>The database: \<^verbatim>\<open>int i\<close> gives the erased node keys four bytes, while written ones have eight.\<close>

definition DB_erased_keys :: "HistoryCache \<Rightarrow> bytes list" where
  "DB_erased_keys h = map (\<lambda>i. ser_writedata32 (of_nat i))
     (filter (\<lambda>i. i < 2 ^ 31) [unat (h_updateDepth h) + 1..<unat (h_length h) + 1])"

definition DB_write_nodes :: "HistoryCache \<Rightarrow> (bytes \<rightharpoonup> bytes) \<Rightarrow> (bytes \<rightharpoonup> bytes)" where
  "DB_write_nodes h nodes = (\<lambda>k.
     case (if length k = 8 then h_appends h (of_nat (le_to_nat k)) else None) of
       Some n \<Rightarrow> Some n | None \<Rightarrow> (if k \<in> set (DB_erased_keys h) then None else nodes k))"

definition DB_BatchWrite :: "pools \<Rightarrow> CCoinsViewCache \<Rightarrow> coins_db \<Rightarrow> coins_db" where
  "DB_BatchWrite P child db =
     \<lparr>db_coins = (\<lambda>k. case cacheCoins child k of None \<Rightarrow> db_coins db k
        | Some it \<Rightarrow> (if \<not> e_dirty it then db_coins db k
                      else if IsPruned (e_coins it) then None else Some (e_coins it))),
      db_anchors = (\<lambda>ty k. case cacheAnchors child ty k of None \<Rightarrow> db_anchors db ty k
        | Some it \<Rightarrow> (if \<not> a_dirty it then db_anchors db ty k
                      else if \<not> a_entered it then None
                      else if k \<noteq> empty_root (P ty) then Some (a_tree it) else db_anchors db ty k)),
      db_nullifiers = (\<lambda>ty k. case cacheNullifiers child ty k of None \<Rightarrow> db_nullifiers db ty k
        | Some it \<Rightarrow> (if \<not> n_dirty it then db_nullifiers db ty k else if \<not> n_entered it then None else Some True)),
      db_best_block = (if hashBlock child \<noteq> 0 then Some (hashBlock child) else db_best_block db),
      db_best_anchor = (\<lambda>ty. if hashAnchor child ty \<noteq> 0 then Some (hashAnchor child ty) else db_best_anchor db ty),
      db_mmr_length = (\<lambda>k. case historyCacheMap child k of None \<Rightarrow> db_mmr_length db k | Some h \<Rightarrow> Some (h_length h)),
      db_mmr_node = (\<lambda>k. case historyCacheMap child k of None \<Rightarrow> db_mmr_node db k | Some h \<Rightarrow> DB_write_nodes h (db_mmr_node db k)),
      db_mmr_root = (\<lambda>k. case historyCacheMap child k of None \<Rightarrow> db_mmr_root db k | Some h \<Rightarrow> Some (h_root h))\<rparr>"

definition Flush :: "pools \<Rightarrow> coins_view \<Rightarrow> view_error + coins_view" where
  "Flush P v =
     (let c = v_top v; cleared = CCoinsViewCache0\<lparr>hashBlock := hashBlock c, hashAnchor := hashAnchor c\<rparr> in
      case v_below v of
        [] \<Rightarrow> Inr (v\<lparr>v_top := cleared, v_db := DB_BatchWrite P c (v_db v)\<rparr>)
      | parent # rest \<Rightarrow> rbind (BatchWrite c parent) (\<lambda>parent'. Inr (v\<lparr>v_top := cleared, v_below := parent' # rest\<rparr>)))"

section \<open>Queries of a transaction\<close>

definition GetOutputFor :: "CTxIn \<Rightarrow> coins_view \<Rightarrow> view_error + CTxOut \<times> coins_view" where
  "GetOutputFor input v =
     (case AccessCoins v (op_hash (prevout input)) of
        (Some coins, v') \<Rightarrow> (if IsAvailable coins (op_n (prevout input))
           then Inr (c_vout coins ! unat (op_n (prevout input)), v') else Inl AssertFailed)
      | (None, v') \<Rightarrow> Inl AssertFailed)"

definition GetValueIn :: "('z) CMutableTransaction_scheme \<Rightarrow> coins_view \<Rightarrow> view_error + int \<times> coins_view" where
  "GetValueIn tx v =
     (if IsCoinBase tx then Inr (0, v)
      else rbind (rfold (\<lambda>txin (nResult, v). rbind (GetOutputFor txin v) (\<lambda>(out, v').
          Inr (wrap64 (nResult + nValue out), v'))) (vin tx) (0, v)) (\<lambda>(nResult, v').
        case GetShieldedValueIn tx of Inl e \<Rightarrow> Inl (ValueError e) | Inr s \<Rightarrow> Inr (wrap64 (nResult + s), v')))"

fun have_inputs :: "CTxIn list \<Rightarrow> coins_view \<Rightarrow> bool \<times> coins_view" where
  "have_inputs [] v = (True, v)"
| "have_inputs (txin # txins) v =
     (case AccessCoins v (op_hash (prevout txin)) of
        (None, v') \<Rightarrow> (False, v')
      | (Some coins, v') \<Rightarrow> (if IsAvailable coins (op_n (prevout txin)) then have_inputs txins v' else (False, v')))"

definition HaveInputs :: "('z) CMutableTransaction_scheme \<Rightarrow> coins_view \<Rightarrow> bool \<times> coins_view" where
  "HaveInputs tx v = (if \<not> IsCoinBase tx then have_inputs (vin tx) v else (True, v))"

fun no_nullifier :: "ShieldedType \<Rightarrow> uint256 list \<Rightarrow> coins_view \<Rightarrow> bool \<times> coins_view" where
  "no_nullifier ty [] v = (True, v)"
| "no_nullifier ty (nf # nfs) v =
     (case view_GetNullifier v ty nf of (True, v') \<Rightarrow> (False, v') | (False, v') \<Rightarrow> no_nullifier ty nfs v')"

text \<open>The loop over the JoinSplits: \<open>mid\<close> is \<^verbatim>\<open>intermediates\<close>, whose \<^verbatim>\<open>insert\<close> keeps an entry that is there.\<close>

fun have_joinsplits :: "pools \<Rightarrow> (uint256 \<rightharpoonup> tree) \<Rightarrow> JSDescription list \<Rightarrow> coins_view \<Rightarrow> view_error + bool \<times> coins_view" where
  "have_joinsplits P mid [] v = Inr (True, v)"
| "have_joinsplits P mid (js # jss) v =
     (case no_nullifier SPROUT (js_nullifiers js) v of
        (False, v1) \<Rightarrow> Inr (False, v1)
      | (True, v1) \<Rightarrow>
          (case (case mid (js_anchor js) of Some tree \<Rightarrow> (Some tree, v1) | None \<Rightarrow> view_GetAnchorAt P v1 SPROUT (js_anchor js)) of
             (None, v2) \<Rightarrow> Inr (False, v2)
           | (Some tree, v2) \<Rightarrow> rbind (rfold (tree_append (P SPROUT)) (js_commitments js) tree) (\<lambda>tree'.
               let rt = tree_root (P SPROUT) tree' in
               have_joinsplits P (if mid rt = None then mid(rt \<mapsto> tree') else mid) jss v2)))"

fun have_spends :: "pools \<Rightarrow> SpendDescription list \<Rightarrow> coins_view \<Rightarrow> bool \<times> coins_view" where
  "have_spends P [] v = (True, v)"
| "have_spends P (sd # sds) v =
     (case view_GetNullifier v SAPLING (sd_nullifier sd) of
        (True, v1) \<Rightarrow> (False, v1)
      | (False, v1) \<Rightarrow> (case view_GetAnchorAt P v1 SAPLING (sd_anchor sd) of
          (None, v2) \<Rightarrow> (False, v2) | (Some _, v2) \<Rightarrow> have_spends P sds v2))"

definition HaveShieldedRequirements :: "pools \<Rightarrow> ('z) CMutableTransaction_scheme \<Rightarrow> coins_view \<Rightarrow> view_error + bool \<times> coins_view" where
  "HaveShieldedRequirements P tx v =
     rbind (have_joinsplits P Map.empty (vJoinSplit tx) v) (\<lambda>(ok, v1).
       Inr (if ok then have_spends P (vShieldedSpend tx) v1 else (False, v1)))"

section \<open>Coins, anchors and nullifiers as write-back caches\<close>

definition unspent :: "CCoins option \<Rightarrow> CCoins option" where
  "unspent r = (case r of None \<Rightarrow> None | Some c \<Rightarrow> if IsPruned c then None else Some c)"

definition trimmed :: "CCoins \<Rightarrow> bool" where
  "trimmed c \<longleftrightarrow> Cleanup c = c"

definition coins_val :: "CCoinsCacheEntry \<Rightarrow> CCoins option" where
  "coins_val e = Some (e_coins e)"

definition coins_fill :: "CCoins option \<Rightarrow> CCoinsCacheEntry option" where
  "coins_fill r = map_option (\<lambda>c. \<lparr>e_coins = c, e_dirty = False, e_fresh = IsPruned c\<rparr>) r"

definition coins_promise :: "uint256 \<Rightarrow> CCoinsCacheEntry \<Rightarrow> CCoins option \<Rightarrow> bool \<Rightarrow> bool" where
  "coins_promise k e below pres \<longleftrightarrow> trimmed (e_coins e) \<and>
     (\<not> e_dirty e \<longrightarrow> unspent (Some (e_coins e)) = unspent below) \<and>
     (e_fresh e \<longrightarrow> unspent below = None) \<and> (\<not> e_fresh e \<longrightarrow> pres)"

definition merge_coins :: "CCoinsCacheEntry \<Rightarrow> CCoinsCacheEntry option \<Rightarrow> CCoinsCacheEntry option" where
  "merge_coins it us = BatchWriteCoins [0 \<mapsto> it] (\<lambda>_. us) 0"

definition coins_base_ok :: "uint256 \<Rightarrow> CCoins option \<Rightarrow> bool" where
  "coins_base_ok k v \<longleftrightarrow> (\<forall>c. v = Some c \<longrightarrow> trimmed c)"

interpretation coins_cache: write_back coins_val unspent coins_promise coins_fill coins_base_ok e_dirty merge_coins
  by unfold_locales
    (auto simp: coins_fill_def coins_val_def coins_promise_def coins_base_ok_def merge_coins_def BatchWriteCoins_def unspent_def
      split: option.splits if_splits)

definition anchor_val :: "CAnchorsCacheEntry \<Rightarrow> tree option" where
  "anchor_val e = (if a_entered e then Some (a_tree e) else None)"

definition anchor_fill :: "tree option \<Rightarrow> CAnchorsCacheEntry option" where
  "anchor_fill r = map_option (\<lambda>t. \<lparr>a_entered = True, a_tree = t, a_dirty = False\<rparr>) r"

definition anchor_promise :: "(uint256 \<Rightarrow> tree) \<Rightarrow> uint256 \<Rightarrow> uint256 \<Rightarrow> CAnchorsCacheEntry \<Rightarrow> tree option \<Rightarrow> bool \<Rightarrow> bool" where
  "anchor_promise T r0 k e below pres \<longleftrightarrow> a_tree e = T k \<and> (k = r0 \<longrightarrow> a_entered e) \<and> (\<not> a_dirty e \<longrightarrow> anchor_val e = below)"

definition merge_anchor :: "CAnchorsCacheEntry \<Rightarrow> CAnchorsCacheEntry option \<Rightarrow> CAnchorsCacheEntry option" where
  "merge_anchor it us = BatchWriteAnchors [0 \<mapsto> it] (\<lambda>_. us) 0"

definition anchor_base_ok :: "(uint256 \<Rightarrow> tree) \<Rightarrow> uint256 \<Rightarrow> uint256 \<Rightarrow> tree option \<Rightarrow> bool" where
  "anchor_base_ok T r0 k v \<longleftrightarrow> (\<forall>t. v = Some t \<longrightarrow> t = T k) \<and> (k = r0 \<longrightarrow> v \<noteq> None)"

lemma merge_anchor_simps:
  "a_dirty e \<Longrightarrow> merge_anchor e None = Some \<lparr>a_entered = a_entered e, a_tree = a_tree e, a_dirty = True\<rparr>"
  "a_dirty e \<Longrightarrow> merge_anchor e (Some f) =
     Some (if a_entered f \<noteq> a_entered e then f\<lparr>a_entered := a_entered e, a_dirty := True\<rparr> else f)"
  by (simp_all add: merge_anchor_def BatchWriteAnchors_def)

interpretation anchor_cache: write_back anchor_val id "anchor_promise T r0" anchor_fill "anchor_base_ok T r0" a_dirty merge_anchor
  for T r0
proof unfold_locales
  fix k e v p
  assume "anchor_promise T r0 k e v p"
  then show "anchor_base_ok T r0 k (anchor_val e)" "\<not> a_dirty e \<Longrightarrow> id (anchor_val e) = id v"
    by (simp_all add: anchor_promise_def anchor_base_ok_def anchor_val_def)
next
  fix k e f v p
  assume "anchor_promise T r0 k e (anchor_val f) True" "anchor_promise T r0 k f v p" "a_dirty e"
  then show "case merge_anchor e (Some f) of
      Some g \<Rightarrow> id (anchor_val g) = id (anchor_val e) \<and> anchor_promise T r0 k g v p | None \<Rightarrow> id v = id (anchor_val e)"
    by (cases "a_entered f"; cases "a_entered e") (simp_all add: merge_anchor_simps anchor_promise_def anchor_val_def)
next
  fix k e v p
  assume "anchor_promise T r0 k e v False" "a_dirty e"
  then show "case merge_anchor e None of
      Some g \<Rightarrow> id (anchor_val g) = id (anchor_val e) \<and> anchor_promise T r0 k g v p | None \<Rightarrow> id v = id (anchor_val e)"
    by (simp add: merge_anchor_simps anchor_promise_def anchor_val_def)
next
  fix v e
  assume "anchor_fill v = Some e"
  then obtain t where "v = Some t" "e = \<lparr>a_entered = True, a_tree = t, a_dirty = False\<rparr>" by (auto simp: anchor_fill_def)
  then show "anchor_val e = v" "anchor_base_ok T r0 k v \<Longrightarrow> anchor_promise T r0 k e v True" for k
    by (simp_all add: anchor_val_def anchor_promise_def anchor_base_ok_def)
qed (simp add: anchor_promise_def)

definition nullifier_promise :: "uint256 \<Rightarrow> CNullifiersCacheEntry \<Rightarrow> bool \<Rightarrow> bool \<Rightarrow> bool" where
  "nullifier_promise k e below pres \<longleftrightarrow> (\<not> n_dirty e \<longrightarrow> n_entered e = below)"

definition nullifier_fill :: "bool \<Rightarrow> CNullifiersCacheEntry option" where
  "nullifier_fill b = Some \<lparr>n_entered = b, n_dirty = False\<rparr>"

definition merge_nullifier :: "CNullifiersCacheEntry \<Rightarrow> CNullifiersCacheEntry option \<Rightarrow> CNullifiersCacheEntry option" where
  "merge_nullifier it us = BatchWriteNullifiers [0 \<mapsto> it] (\<lambda>_. us) 0"

interpretation nullifier_cache: write_back n_entered id nullifier_promise nullifier_fill "\<lambda>_ _. True" n_dirty merge_nullifier
  by unfold_locales
    (auto simp: nullifier_fill_def nullifier_promise_def merge_nullifier_def BatchWriteNullifiers_def split: option.splits if_splits)

end
