(* ===== verification/Zc_View_Refine.thy ===== *)
theory Zc_View_Refine
  imports Zc_CoinsView
begin

text \<open>
  What a view shows, as a plain state without caches, and the lemmas that each operation on a stack of caches acts on
  that state as its name says: reads change nothing, modifications change one component, and \<^verbatim>\<open>Flush\<close> changes nothing
  but the layer the data sits in.  \<open>view_ok\<close> is the invariant of the stack.
\<close>

section \<open>The history tree\<close>

text \<open>\<open>hcs\<close> lists what the caches hold for one epoch, \<open>b\<close> is what the database holds: the nodes and the root.\<close>

fun peek_history :: "bytes list \<times> uint256 \<Rightarrow> HistoryCache option list \<Rightarrow> bytes list \<times> uint256" where
  "peek_history b [] = b"
| "peek_history b (None # hcs) = peek_history b hcs"
| "peek_history b (Some h # hcs) =
     (take (unat (h_updateDepth h)) (fst (peek_history b hcs)) @ appended_nodes h, h_root h)"

definition history_cache_ok :: "HistoryCache \<Rightarrow> nat \<Rightarrow> bool" where
  "history_cache_ok h n \<longleftrightarrow> h_updateDepth h \<le> h_length h \<and> unat (h_updateDepth h) \<le> n \<and>
     (\<forall>i. h_appends h i \<noteq> None \<longleftrightarrow> h_updateDepth h \<le> i \<and> i < h_length h)"

fun history_ok :: "bytes list \<times> uint256 \<Rightarrow> HistoryCache option list \<Rightarrow> bool" where
  "history_ok b [] \<longleftrightarrow> True"
| "history_ok b (None # hcs) \<longleftrightarrow> history_ok b hcs"
| "history_ok b (Some h # hcs) \<longleftrightarrow> history_cache_ok h (length (fst (peek_history b hcs))) \<and> history_ok b hcs"

definition db_history :: "coins_db \<Rightarrow> u32 \<Rightarrow> bytes list \<times> uint256" where
  "db_history db k = (map (\<lambda>i. case db_mmr_node db k (ser_writedata64 (of_nat i)) of None \<Rightarrow> replicate 171 0 | Some n \<Rightarrow> n)
     [0..<unat (DB_GetHistoryLength db k)], DB_GetHistoryRoot db k)"

definition db_history_ok :: "coins_db \<Rightarrow> u32 \<Rightarrow> bool" where
  "db_history_ok db k \<longleftrightarrow> (\<forall>i < DB_GetHistoryLength db k. db_mmr_node db k (ser_writedata64 i) \<noteq> None)"

lemma unat_u64: "n < 2 ^ 64 \<Longrightarrow> unat (of_nat n :: u64) = n"
  by (simp add: unat_of_nat)

lemma unat_less_u64: "unat (w :: u64) < 2 ^ 64"
  using unsigned_less [of w] by simp

lemma length_appended [simp]: "length (appended_nodes h) = unat (h_length h) - unat (h_updateDepth h)"
  by (simp add: appended_nodes_def)

lemma peek_history_length:
  assumes "history_ok b hcs" "length (fst b) < 2 ^ 64"
  shows "length (fst (peek_history b hcs)) < 2 ^ 64"
  using assms
proof (induction b hcs rule: peek_history.induct)
  case (3 b h hcs)
  have "unat (h_updateDepth h) \<le> unat (h_length h)" using 3(2) by (simp add: history_cache_ok_def word_le_nat_alt)
  then have "length (fst (peek_history b (Some h # hcs))) = unat (h_length h)"
    using 3(2) by (simp add: history_cache_ok_def)
  then show ?case using unat_less_u64 [of "h_length h"] by simp
qed simp_all

lemma history_cache_new_ok: "n < 2 ^ 64 \<Longrightarrow> history_cache_ok (HistoryCache_new (of_nat n) r k) n"
  by (auto simp: history_cache_ok_def HistoryCache_new_def unat_u64)

lemma appended_new [simp]: "appended_nodes (HistoryCache_new n r k) = []"
  by (simp add: appended_nodes_def HistoryCache_new_def)

lemma cache_length:
  assumes "history_cache_ok h (length (fst (peek_history b hcs)))"
  shows "length (fst (peek_history b (Some h # hcs))) = unat (h_length h)"
  using assms by (simp add: history_cache_ok_def word_le_nat_alt)

subsection \<open>Extending and truncating\<close>

lemma history_extend:
  assumes "history_cache_ok h n" "unat (h_length h) + 1 < 2 ^ 64"
  shows "history_cache_ok (history_Extend x h) n" "appended_nodes (history_Extend x h) = appended_nodes h @ [x]"
    "unat (h_length (history_Extend x h)) = unat (h_length h) + 1"
proof -
  have len: "unat (h_length h + 1) = unat (h_length h) + 1" using assms(2) by (simp add: unat_word_ariths)
  then have less: "i < h_length h + 1 \<longleftrightarrow> i < h_length h \<or> i = h_length h" for i
    by (auto simp: word_less_nat_alt word_unat_eq_iff)
  have le: "h_updateDepth h \<le> h_length h" using assms(1) by (simp add: history_cache_ok_def)
  have "h_updateDepth h \<le> h_length h + 1" using le len by (simp add: word_le_nat_alt)
  then show "history_cache_ok (history_Extend x h) n"
    using assms(1) le by (auto simp: history_cache_ok_def history_Extend_def less)
  show "unat (h_length (history_Extend x h)) = unat (h_length h) + 1" by (simp add: history_Extend_def len)
  have "of_nat i \<noteq> h_length h" if "i < unat (h_length h)" for i
  proof
    assume "of_nat i = h_length h"
    then have "unat (of_nat i :: u64) = unat (h_length h)" by simp
    then show False using that unat_u64 [of i] unat_less_u64 [of "h_length h"] by simp
  qed
  then show "appended_nodes (history_Extend x h) = appended_nodes h @ [x]"
    using le len by (auto simp: appended_nodes_def history_Extend_def word_le_nat_alt)
qed

lemma history_extends:
  assumes "history_cache_ok h n" "unat (h_length h) + length xs < 2 ^ 64"
  shows "history_cache_ok (fold history_Extend xs h) n \<and> appended_nodes (fold history_Extend xs h) = appended_nodes h @ xs \<and>
    unat (h_length (fold history_Extend xs h)) = unat (h_length h) + length xs \<and>
    h_updateDepth (fold history_Extend xs h) = h_updateDepth h"
  using assms
proof (induction xs arbitrary: h)
  case (Cons x xs)
  note e = history_extend [OF Cons.prems(1), of x]
  have "unat (h_length h) + 1 < 2 ^ 64" using Cons.prems(2) by simp
  then show ?case using Cons.IH [of "history_Extend x h"] e Cons.prems(2) by (simp add: history_Extend_def)
qed simp

lemma history_truncate:
  assumes "history_cache_ok h n" "m \<le> h_length h"
  shows "history_cache_ok (history_Truncate m h) n" (is ?ok)
    "appended_nodes (history_Truncate m h) = take (unat m - unat (h_updateDepth h)) (appended_nodes h)" (is ?app)
    "h_length (history_Truncate m h) = m" (is ?len) "h_updateDepth (history_Truncate m h) = min m (h_updateDepth h)" (is ?ud)
proof -
  show ?len ?ud by (simp_all add: history_Truncate_def Let_def)
  have dom: "h_appends h i \<noteq> None \<longleftrightarrow> h_updateDepth h \<le> i \<and> i < h_length h" for i
    using assms(1) unfolding history_cache_ok_def by blast
  have app: "h_appends (history_Truncate m h) i = (if i < m then h_appends h i else None)" for i
  proof (cases "m = 0")
    case False
    then have "0 < m" by (simp add: word_neq_0_conv)
    then show ?thesis using dom [of i] by (auto simp: history_Truncate_def Let_def)
  qed (simp add: history_Truncate_def Let_def)
  show ?ok
    using assms dom \<open>?len\<close> \<open>?ud\<close>
    by (auto simp: history_cache_ok_def app word_le_nat_alt word_less_nat_alt min_def)
  have le: "unat (h_updateDepth h) \<le> unat (h_length h)" "unat m \<le> unat (h_length h)"
    using assms by (simp_all add: history_cache_ok_def word_le_nat_alt)
  show ?app
  proof (cases "m \<le> h_updateDepth h")
    case True
    then show ?thesis using \<open>?len\<close> \<open>?ud\<close> by (simp add: appended_nodes_def word_le_nat_alt)
  next
    case False
    then have m: "min m (h_updateDepth h) = h_updateDepth h" "unat (h_updateDepth h) \<le> unat m" by (auto simp: word_le_nat_alt)
    have "(of_nat i :: u64) < m" if "i < unat m" for i
      using that unat_u64 [of i] unat_less_u64 [of m] by (simp add: word_less_nat_alt)
    then show ?thesis using \<open>?len\<close> \<open>?ud\<close> m le by (simp add: appended_nodes_def take_map app)
  qed
qed

lemma history_merge:
  assumes "history_cache_ok hIn (length (fst (peek_history b (Some h # hcs))))" "history_cache_ok h (length (fst (peek_history b hcs)))"
  shows "history_cache_ok (merge_history hIn h) (length (fst (peek_history b hcs)))"
    "peek_history b (Some (merge_history hIn h) # hcs) = peek_history b (Some hIn # Some h # hcs)"
    "h_length (merge_history hIn h) = h_length hIn"
proof -
  let ?t = "history_Truncate (h_updateDepth hIn) h" and ?n = "length (fst (peek_history b hcs))"
  let ?g = "fold history_Extend (appended_nodes hIn) ?t"
  have le: "h_updateDepth hIn \<le> h_length hIn" using assms(1) by (simp add: history_cache_ok_def)
  have "unat (h_updateDepth hIn) \<le> unat (h_length h)"
    using assms(1) cache_length [OF assms(2)] by (simp add: history_cache_ok_def)
  note tr = history_truncate [OF assms(2) this [folded word_le_nat_alt]]
  have "unat (h_length ?t) + length (appended_nodes hIn) = unat (h_length hIn)"
    using le tr(3) by (simp add: word_le_nat_alt)
  moreover have "unat (h_length hIn) < 2 ^ 64" by (rule unat_less_u64)
  ultimately have ext: "history_cache_ok ?g ?n" "appended_nodes ?g = appended_nodes ?t @ appended_nodes hIn"
      "unat (h_length ?g) = unat (h_length hIn)" "h_updateDepth ?g = h_updateDepth ?t"
    using history_extends [OF tr(1), of "appended_nodes hIn"] by simp_all
  show "history_cache_ok (merge_history hIn h) ?n" using ext(1) by (simp add: merge_history_def history_cache_ok_def)
  show "h_length (merge_history hIn h) = h_length hIn" using ext(3) by (simp add: merge_history_def word_unat_eq_iff)
  have "appended_nodes (merge_history hIn h) = appended_nodes ?g" by (simp add: merge_history_def appended_nodes_def)
  moreover have "h_updateDepth (merge_history hIn h) = h_updateDepth ?t" using ext(4) by (simp add: merge_history_def)
  moreover have "unat (min a b) = min (unat a) (unat b)" for a b :: u64 by (simp add: min_def word_le_nat_alt)
  ultimately show "peek_history b (Some (merge_history hIn h) # hcs) = peek_history b (Some hIn # Some h # hcs)"
    using ext(2) tr(2,4) assms(2) by (simp add: history_cache_ok_def min.commute, simp add: merge_history_def)
qed

lemma GetHistoryLengthRoot_peek:
  assumes "history_ok (db_history db k) (map (\<lambda>c. historyCacheMap c k) cs)"
  shows "fst (GetHistoryLengthRoot db cs k) = (of_nat (length (fst (peek_history (db_history db k) (map (\<lambda>c. historyCacheMap c k) cs)))),
    snd (peek_history (db_history db k) (map (\<lambda>c. historyCacheMap c k) cs)))"
  using assms
proof (induction cs)
  case Nil
  show ?case by (simp add: db_history_def)
next
  case (Cons c cs)
  show ?case
  proof (cases "historyCacheMap c k")
    case None
    then show ?thesis using Cons by (simp split: prod.splits) (simp add: prod_eq_iff)
  next
    case (Some h)
    then show ?thesis using Cons.prems cache_length [of h "db_history db k" "map (\<lambda>c. historyCacheMap c k) cs"]
      by simp
  qed
qed

lemma db_history_length: "length (fst (db_history db k)) < 2 ^ 64"
  using unat_less_u64 by (simp add: db_history_def)

abbreviation hist_of :: "coins_db \<Rightarrow> caches \<Rightarrow> u32 \<Rightarrow> bytes list \<times> uint256" where
  "hist_of db cs k \<equiv> peek_history (db_history db k) (map (\<lambda>c. historyCacheMap c k) cs)"

abbreviation hist_ok :: "coins_db \<Rightarrow> caches \<Rightarrow> u32 \<Rightarrow> bool" where
  "hist_ok db cs k \<equiv> history_ok (db_history db k) (map (\<lambda>c. historyCacheMap c k) cs)"

lemma fresh_history:
  assumes "hist_ok db cs k" "fst (GetHistoryLengthRoot db cs k) = (n, r)"
  shows "peek_history (db_history db k) (Some (HistoryCache_new n r k) # map (\<lambda>c. historyCacheMap c k) cs) = hist_of db cs k"
    "history_cache_ok (HistoryCache_new n r k) (length (fst (hist_of db cs k)))"
proof -
  have len: "length (fst (hist_of db cs k)) < 2 ^ 64" using peek_history_length [OF assms(1) db_history_length] .
  have n: "n = of_nat (length (fst (hist_of db cs k)))" "r = snd (hist_of db cs k)"
    using GetHistoryLengthRoot_peek [OF assms(1)] assms(2) by simp_all
  show "history_cache_ok (HistoryCache_new n r k) (length (fst (hist_of db cs k)))"
    unfolding n by (rule history_cache_new_ok [OF len])
  show "peek_history (db_history db k) (Some (HistoryCache_new n r k) # map (\<lambda>c. historyCacheMap c k) cs) = hist_of db cs k"
    using n unat_u64 [OF len] by (simp add: HistoryCache_new_def appended_nodes_def)
qed

lemma GetHistoryLengthRoot_same:
  assumes "\<forall>k. hist_ok db cs k"
  shows "hist_of db (snd (GetHistoryLengthRoot db cs k)) k' = hist_of db cs k' \<and> hist_ok db (snd (GetHistoryLengthRoot db cs k)) k'"
  using assms
proof (induction cs)
  case (Cons c cs)
  show ?case
  proof (cases "historyCacheMap c k")
    case None
    have ok: "\<forall>k. hist_ok db cs k"
    proof
      fix j show "hist_ok db cs j" using spec [OF Cons.prems, of j] by (cases "historyCacheMap c j") simp_all
    qed
    obtain n r cs' where r: "GetHistoryLengthRoot db cs k = ((n, r), cs')" by (metis prod.collapse)
    have IH: "hist_of db cs' k' = hist_of db cs k'" "hist_ok db cs' k'" using Cons.IH [OF ok] r by simp_all
    show ?thesis
    proof (cases "k' = k")
      case True
      then show ?thesis
        using None r IH fresh_history [of db k cs n r] ok by simp
    next
      case False
      then show ?thesis using None r IH spec [OF Cons.prems, of k'] by (cases "historyCacheMap c k'") simp_all
    qed
  qed (use Cons.prems in simp)
qed simp

lemma cons_history:
  assumes "peek_history b hcs' = peek_history b hcs" "history_ok b hcs'"
  shows "peek_history b (x # hcs') = peek_history b (x # hcs)" "history_ok b (x # hcs) \<Longrightarrow> history_ok b (x # hcs')"
  using assms by (cases x; simp)+

lemma hist_ok_tl: "\<forall>k. hist_ok db (c # cs) k \<Longrightarrow> hist_ok db cs k"
proof -
  assume "\<forall>k. hist_ok db (c # cs) k"
  then have "hist_ok db (c # cs) k" by blast
  then show "hist_ok db cs k" by (cases "historyCacheMap c k") simp_all
qed

lemma GetHistoryAt_correct:
  assumes "\<forall>k. hist_ok db cs k" "db_history_ok db k" "unat index < length (fst (hist_of db cs k))"
  shows "\<exists>cs'. GetHistoryAt db cs k index = Inr (fst (hist_of db cs k) ! unat index, cs') \<and>
    (\<forall>k'. hist_of db cs' k' = hist_of db cs k' \<and> hist_ok db cs' k')"
  using assms(1,3)
proof (induction cs)
  case Nil
  then have "index < DB_GetHistoryLength db k" by (simp add: db_history_def word_less_nat_alt)
  then have "db_mmr_node db k (ser_writedata64 index) \<noteq> None" using assms(2) by (simp add: db_history_ok_def)
  then show ?case
    using Nil \<open>index < DB_GetHistoryLength db k\<close> by (auto simp: DB_GetHistoryAt_def db_history_def)
next
  case (Cons c cs)
  note tl = hist_ok_tl [OF Cons.prems(1)]
  obtain n r b where g: "GetHistoryLengthRoot db cs k = ((n, r), b)" by (metis prod.collapse)
  define h where "h = (case historyCacheMap c k of Some h \<Rightarrow> h | None \<Rightarrow> HistoryCache_new n r k)"
  define c' where "c' = c\<lparr>historyCacheMap := (historyCacheMap c)(k \<mapsto> h)\<rparr>"
  have sel: "SelectHistoryCache db c cs k = (h, c', if historyCacheMap c k = None then b else cs)"
    using g by (auto simp: SelectHistoryCache_def h_def c'_def Let_def fun_upd_idem split: option.splits)
  have h: "peek_history (db_history db k) (Some h # map (\<lambda>c. historyCacheMap c k) cs) = hist_of db (c # cs) k"
    "history_cache_ok h (length (fst (hist_of db cs k)))"
    using fresh_history [OF tl, of k n r] g spec [OF Cons.prems(1), of k]
    by (auto simp: h_def split: option.splits)
  have c': "hist_of db (c' # cs) j = hist_of db (c # cs) j \<and> hist_ok db (c' # cs) j" for j
    using h spec [OF Cons.prems(1), of j] tl [of k] by (cases "j = k") (auto simp: c'_def)
  have below: "\<forall>k'. hist_of db (c' # x) k' = hist_of db (c # cs) k' \<and> hist_ok db (c' # x) k'"
    if "\<forall>k'. hist_of db x k' = hist_of db cs k' \<and> hist_ok db x k'" for x
    using that cons_history c' unfolding list.map by metis
  have b: "\<forall>k'. hist_of db (if historyCacheMap c k = None then b else cs) k' = hist_of db cs k' \<and>
      hist_ok db (if historyCacheMap c k = None then b else cs) k'"
    using GetHistoryLengthRoot_same [where db = db and cs = cs and k = k] tl g by simp
  have len: "length (fst (hist_of db (c # cs) k)) = unat (h_length h)" using cache_length [OF h(2)] unfolding h(1) .
  have lt: "\<not> h_length h \<le> index" using Cons.prems(2) len by (simp add: word_le_nat_alt)
  show ?case
  proof (cases "h_updateDepth h \<le> index")
    case True
    then have "fst (hist_of db (c # cs) k) ! unat index = appended_nodes h ! (unat index - unat (h_updateDepth h))"
      unfolding h(1) [symmetric] using h(2) by (simp add: nth_append history_cache_ok_def word_le_nat_alt)
    also have "\<dots> = (case h_appends h index of None \<Rightarrow> replicate 171 0 | Some n \<Rightarrow> n)"
      using True lt by (simp add: appended_nodes_def word_le_nat_alt)
    finally show ?thesis using sel lt True below [OF b] by auto
  next
    case False
    then have ud: "unat index < unat (h_updateDepth h)" by (simp add: word_le_nat_alt)
    then have "unat index < length (fst (hist_of db cs k))" using h(2) by (simp add: history_cache_ok_def)
    then obtain x where x: "GetHistoryAt db cs k index = Inr (fst (hist_of db cs k) ! unat index, x)"
        "\<forall>k'. hist_of db x k' = hist_of db cs k' \<and> hist_ok db x k'"
      using Cons.IH tl by blast
    have "fst (hist_of db (c # cs) k) ! unat index = fst (hist_of db cs k) ! unat index"
      unfolding h(1) [symmetric] using ud h(2) by (simp add: nth_append history_cache_ok_def)
    then show ?thesis using sel lt False x(1) below [OF x(2)] by auto
  qed
qed

section \<open>What a view shows\<close>

record chainstate =
  s_coins :: "uint256 \<rightharpoonup> CCoins"
  s_base :: "uint256 \<rightharpoonup> CCoins"
  s_anchors :: "ShieldedType \<Rightarrow> uint256 \<rightharpoonup> tree"
  s_nullifiers :: "ShieldedType \<Rightarrow> uint256 \<Rightarrow> bool"
  s_best_block :: uint256
  s_best_anchor :: "ShieldedType \<Rightarrow> uint256"
  s_history :: "u32 \<Rightarrow> bytes list \<times> uint256"

fun peek_best :: "uint256 \<Rightarrow> uint256 list \<Rightarrow> uint256" where
  "peek_best b [] = b"
| "peek_best b (h # hcs) = (if h = 0 then peek_best b hcs else h)"

text \<open>\<open>s_coins\<close> are the coins with an unspent output, \<open>s_base\<close> those of the layers under the cache in use.\<close>

definition caches_state :: "pools \<Rightarrow> coins_db \<Rightarrow> caches \<Rightarrow> chainstate" where
  "caches_state P db cs =
     \<lparr>s_coins = (\<lambda>k. unspent (peek coins_val (db_coins db) (map cacheCoins cs) k)),
      s_base = (\<lambda>k. unspent (peek coins_val (db_coins db) (map cacheCoins (tl cs)) k)),
      s_anchors = (\<lambda>ty. peek anchor_val (DB_GetAnchorAt P db ty) (map (\<lambda>c. cacheAnchors c ty) cs)),
      s_nullifiers = (\<lambda>ty. peek n_entered (DB_GetNullifier db ty) (map (\<lambda>c. cacheNullifiers c ty) cs)),
      s_best_block = peek_best (DB_GetBestBlock db) (map hashBlock cs),
      s_best_anchor = (\<lambda>ty. peek_best (DB_GetBestAnchor P db ty) (map (\<lambda>c. hashAnchor c ty) cs)),
      s_history = hist_of db cs\<rparr>"

definition state_of :: "pools \<Rightarrow> coins_view \<Rightarrow> chainstate" where
  "state_of P v = caches_state P (v_db v) (v_caches v)"

text \<open>\<open>T\<close> names the tree of each root: two trees with one root would be a collision of the tree hash.\<close>

definition caches_ok :: "pools \<Rightarrow> (ShieldedType \<Rightarrow> uint256 \<Rightarrow> tree) \<Rightarrow> coins_db \<Rightarrow> caches \<Rightarrow> bool" where
  "caches_ok P T db cs \<longleftrightarrow>
     layers_ok coins_val coins_promise (db_coins db) (map cacheCoins cs) \<and> (\<forall>k. coins_base_ok k (db_coins db k)) \<and>
     (\<forall>ty. layers_ok anchor_val (anchor_promise (T ty) (empty_root (P ty))) (DB_GetAnchorAt P db ty) (map (\<lambda>c. cacheAnchors c ty) cs)) \<and>
     (\<forall>ty k. anchor_base_ok (T ty) (empty_root (P ty)) k (DB_GetAnchorAt P db ty k)) \<and>
     (\<forall>ty. layers_ok n_entered nullifier_promise (DB_GetNullifier db ty) (map (\<lambda>c. cacheNullifiers c ty) cs)) \<and>
     (\<forall>k. hist_ok db cs k) \<and> (\<forall>k. db_history_ok db k)"

definition view_ok :: "pools \<Rightarrow> (ShieldedType \<Rightarrow> uint256 \<Rightarrow> tree) \<Rightarrow> coins_view \<Rightarrow> bool" where
  "view_ok P T v \<longleftrightarrow> caches_ok P T (v_db v) (v_caches v)"

text \<open>A group of fields is the same in two stacks, cache by cache.\<close>

definition frame_coins :: "caches \<Rightarrow> caches \<Rightarrow> bool" where
  "frame_coins cs cs' \<longleftrightarrow> map cacheCoins cs' = map cacheCoins cs"

definition frame_anchors :: "caches \<Rightarrow> caches \<Rightarrow> bool" where
  "frame_anchors cs cs' \<longleftrightarrow> map cacheAnchors cs' = map cacheAnchors cs"

definition frame_nullifiers :: "caches \<Rightarrow> caches \<Rightarrow> bool" where
  "frame_nullifiers cs cs' \<longleftrightarrow> map cacheNullifiers cs' = map cacheNullifiers cs"

definition frame_best :: "caches \<Rightarrow> caches \<Rightarrow> bool" where
  "frame_best cs cs' \<longleftrightarrow> map hashBlock cs' = map hashBlock cs \<and> map hashAnchor cs' = map hashAnchor cs"

definition frame_history :: "caches \<Rightarrow> caches \<Rightarrow> bool" where
  "frame_history cs cs' \<longleftrightarrow> map historyCacheMap cs' = map historyCacheMap cs"

lemmas frame_defs = frame_coins_def frame_anchors_def frame_nullifiers_def frame_best_def frame_history_def

lemma frame_fields:
  "frame_anchors cs cs' \<Longrightarrow> map (\<lambda>c. cacheAnchors c ty) cs' = map (\<lambda>c. cacheAnchors c ty) cs"
  "frame_nullifiers cs cs' \<Longrightarrow> map (\<lambda>c. cacheNullifiers c ty) cs' = map (\<lambda>c. cacheNullifiers c ty) cs"
  "frame_best cs cs' \<Longrightarrow> map (\<lambda>c. hashAnchor c ty) cs' = map (\<lambda>c. hashAnchor c ty) cs"
  "frame_history cs cs' \<Longrightarrow> map (\<lambda>c. historyCacheMap c k) cs' = map (\<lambda>c. historyCacheMap c k) cs"
  unfolding frame_defs
  by (drule arg_cong [of _ _ "map (\<lambda>m. m ty)"], simp add: o_def)+
     (auto dest: arg_cong [of _ _ "map (\<lambda>m. m ty)"] arg_cong [of _ _ "map (\<lambda>m. m k)"] simp: o_def)

lemma GetCoins_frame:
  "length (snd (GetCoins db cs k)) = length cs \<and> frame_anchors cs (snd (GetCoins db cs k)) \<and>
   frame_nullifiers cs (snd (GetCoins db cs k)) \<and> frame_best cs (snd (GetCoins db cs k)) \<and> frame_history cs (snd (GetCoins db cs k))"
  by (induction cs) (auto simp: frame_defs split: option.splits prod.splits)

lemma GetAnchorAt_frame:
  "length (snd (GetAnchorAt P db cs ty k)) = length cs \<and> frame_coins cs (snd (GetAnchorAt P db cs ty k)) \<and>
   frame_nullifiers cs (snd (GetAnchorAt P db cs ty k)) \<and> frame_best cs (snd (GetAnchorAt P db cs ty k)) \<and>
   frame_history cs (snd (GetAnchorAt P db cs ty k))"
  by (induction cs) (auto simp: frame_defs split: option.splits prod.splits)

lemma GetNullifier_frame:
  "length (snd (GetNullifier db cs ty k)) = length cs \<and> frame_coins cs (snd (GetNullifier db cs ty k)) \<and>
   frame_anchors cs (snd (GetNullifier db cs ty k)) \<and> frame_best cs (snd (GetNullifier db cs ty k)) \<and>
   frame_history cs (snd (GetNullifier db cs ty k))"
  by (induction cs) (auto simp: frame_defs split: option.splits prod.splits)

lemma GetBestBlock_frame:
  "length (snd (GetBestBlock db cs)) = length cs \<and> frame_coins cs (snd (GetBestBlock db cs)) \<and>
   frame_anchors cs (snd (GetBestBlock db cs)) \<and> frame_nullifiers cs (snd (GetBestBlock db cs)) \<and>
   map hashAnchor (snd (GetBestBlock db cs)) = map hashAnchor cs \<and> frame_history cs (snd (GetBestBlock db cs))"
  by (induction cs) (auto simp: frame_defs split: option.splits prod.splits)

lemma GetBestAnchor_frame:
  "length (snd (GetBestAnchor P db cs ty)) = length cs \<and> frame_coins cs (snd (GetBestAnchor P db cs ty)) \<and>
   frame_anchors cs (snd (GetBestAnchor P db cs ty)) \<and> frame_nullifiers cs (snd (GetBestAnchor P db cs ty)) \<and>
   map hashBlock (snd (GetBestAnchor P db cs ty)) = map hashBlock cs \<and> frame_history cs (snd (GetBestAnchor P db cs ty))"
  by (induction cs) (auto simp: frame_defs split: option.splits prod.splits)

lemma GetHistoryLengthRoot_frame:
  "length (snd (GetHistoryLengthRoot db cs k)) = length cs \<and> frame_coins cs (snd (GetHistoryLengthRoot db cs k)) \<and>
   frame_anchors cs (snd (GetHistoryLengthRoot db cs k)) \<and> frame_nullifiers cs (snd (GetHistoryLengthRoot db cs k)) \<and>
   frame_best cs (snd (GetHistoryLengthRoot db cs k))"
  by (induction cs) (auto simp: frame_defs split: option.splits prod.splits)

section \<open>Reads\<close>

lemma GetCoins_read_through:
  "fst (GetCoins db cs k) = fst (read_through coins_val coins_fill (db_coins db) (map cacheCoins cs) k) \<and>
   map cacheCoins (snd (GetCoins db cs k)) = snd (read_through coins_val coins_fill (db_coins db) (map cacheCoins cs) k)"
  by (induction cs) (auto simp: coins_val_def coins_fill_def split: option.splits prod.splits)

lemma GetAnchorAt_read_through:
  "fst (GetAnchorAt P db cs ty k) =
     fst (read_through anchor_val anchor_fill (DB_GetAnchorAt P db ty) (map (\<lambda>c. cacheAnchors c ty) cs) k) \<and>
   map (\<lambda>c. cacheAnchors c ty) (snd (GetAnchorAt P db cs ty k)) =
     snd (read_through anchor_val anchor_fill (DB_GetAnchorAt P db ty) (map (\<lambda>c. cacheAnchors c ty) cs) k) \<and>
   (\<forall>ty'. ty' \<noteq> ty \<longrightarrow> map (\<lambda>c. cacheAnchors c ty') (snd (GetAnchorAt P db cs ty k)) = map (\<lambda>c. cacheAnchors c ty') cs)"
  by (induction cs) (auto simp: anchor_val_def anchor_fill_def split: option.splits prod.splits)

lemma GetNullifier_read_through:
  "fst (GetNullifier db cs ty k) =
     fst (read_through n_entered nullifier_fill (DB_GetNullifier db ty) (map (\<lambda>c. cacheNullifiers c ty) cs) k) \<and>
   map (\<lambda>c. cacheNullifiers c ty) (snd (GetNullifier db cs ty k)) =
     snd (read_through n_entered nullifier_fill (DB_GetNullifier db ty) (map (\<lambda>c. cacheNullifiers c ty) cs) k) \<and>
   (\<forall>ty'. ty' \<noteq> ty \<longrightarrow> map (\<lambda>c. cacheNullifiers c ty') (snd (GetNullifier db cs ty k)) = map (\<lambda>c. cacheNullifiers c ty') cs)"
  by (induction cs) (auto simp: nullifier_fill_def split: option.splits prod.splits)

lemma GetBestBlock_peek:
  "fst (GetBestBlock db cs) = peek_best (DB_GetBestBlock db) (map hashBlock cs) \<and>
   peek_best (DB_GetBestBlock db) (map hashBlock (snd (GetBestBlock db cs))) = peek_best (DB_GetBestBlock db) (map hashBlock cs)"
  by (induction cs) (auto split: prod.splits)

lemma GetBestAnchor_peek:
  "fst (GetBestAnchor P db cs ty) = peek_best (DB_GetBestAnchor P db ty) (map (\<lambda>c. hashAnchor c ty) cs) \<and>
   peek_best (DB_GetBestAnchor P db ty') (map (\<lambda>c. hashAnchor c ty') (snd (GetBestAnchor P db cs ty))) =
     peek_best (DB_GetBestAnchor P db ty') (map (\<lambda>c. hashAnchor c ty') cs)"
  by (induction cs) (auto split: prod.splits)

lemma GetCoins_state:
  assumes "caches_ok P T db cs"
  shows "fst (GetCoins db cs k) = peek coins_val (db_coins db) (map cacheCoins cs) k"
    "caches_state P db (snd (GetCoins db cs k)) = caches_state P db cs" "caches_ok P T db (snd (GetCoins db cs k))"
proof -
  let ?b = "db_coins db" and ?ms = "map cacheCoins cs" and ?cs' = "snd (GetCoins db cs k)"
  note fr = GetCoins_frame [of db cs k] and rt = GetCoins_read_through [of db cs k]
  show "fst (GetCoins db cs k) = peek coins_val ?b ?ms k" using rt coins_cache.read_peek by simp
  have same: "peek coins_val ?b (map cacheCoins ?cs') = peek coins_val ?b ?ms"
    using rt coins_cache.read_same [of ?b ?ms k] by auto
  have tl: "peek coins_val ?b (map cacheCoins (tl ?cs')) = peek coins_val ?b (map cacheCoins (tl cs))"
  proof (cases cs)
    case (Cons c base)
    have "map cacheCoins (tl ?cs') = map cacheCoins base \<or> tl ?cs' = snd (GetCoins db base k)"
      using Cons by (auto split: option.splits prod.splits)
    then show ?thesis
      using Cons GetCoins_read_through [of db base k] coins_cache.read_same [of ?b "map cacheCoins base" k] by auto
  qed simp
  have ok: "layers_ok coins_val coins_promise ?b (map cacheCoins ?cs')"
    using assms rt coins_cache.read_ok by (auto simp: caches_ok_def)
  show "caches_state P db ?cs' = caches_state P db cs"
    using fr same tl by (simp add: caches_state_def frame_fields [of cs ?cs'] frame_best_def)
  show "caches_ok P T db ?cs'" using assms fr ok by (simp add: caches_ok_def frame_fields [of cs ?cs'])
qed

lemma frame_coins_tl: "frame_coins cs cs' \<Longrightarrow> map cacheCoins (tl cs') = map cacheCoins (tl cs)"
  by (simp add: frame_coins_def map_tl)

lemma GetAnchorAt_state:
  assumes "caches_ok P T db cs"
  shows "fst (GetAnchorAt P db cs ty k) = s_anchors (caches_state P db cs) ty k"
    "caches_state P db (snd (GetAnchorAt P db cs ty k)) = caches_state P db cs" "caches_ok P T db (snd (GetAnchorAt P db cs ty k))"
proof -
  let ?cs' = "snd (GetAnchorAt P db cs ty k)"
  note fr = GetAnchorAt_frame [of P db cs ty k] and rt = GetAnchorAt_read_through [of P db cs ty k]
  show "fst (GetAnchorAt P db cs ty k) = s_anchors (caches_state P db cs) ty k"
    using rt anchor_cache.read_peek by (simp add: caches_state_def)
  have same: "peek anchor_val (DB_GetAnchorAt P db ty') (map (\<lambda>c. cacheAnchors c ty') ?cs') =
      peek anchor_val (DB_GetAnchorAt P db ty') (map (\<lambda>c. cacheAnchors c ty') cs)" for ty'
    using rt anchor_cache.read_same [of "DB_GetAnchorAt P db ty" "map (\<lambda>c. cacheAnchors c ty) cs" k] by (cases "ty' = ty") auto
  have ok: "layers_ok anchor_val (anchor_promise (T ty') (empty_root (P ty'))) (DB_GetAnchorAt P db ty') (map (\<lambda>c. cacheAnchors c ty') ?cs')" for ty'
    using assms rt anchor_cache.read_ok [of "T ty" "empty_root (P ty)" "DB_GetAnchorAt P db ty"]
    by (cases "ty' = ty") (auto simp: caches_ok_def)
  show "caches_state P db ?cs' = caches_state P db cs"
    using fr same frame_coins_tl [of cs ?cs'] by (simp add: caches_state_def frame_fields [of cs ?cs'] frame_best_def frame_coins_def)
  show "caches_ok P T db ?cs'" using assms fr ok by (simp add: caches_ok_def frame_fields [of cs ?cs'] frame_coins_def)
qed

lemma GetNullifier_state:
  assumes "caches_ok P T db cs"
  shows "fst (GetNullifier db cs ty k) = s_nullifiers (caches_state P db cs) ty k"
    "caches_state P db (snd (GetNullifier db cs ty k)) = caches_state P db cs" "caches_ok P T db (snd (GetNullifier db cs ty k))"
proof -
  let ?cs' = "snd (GetNullifier db cs ty k)"
  note fr = GetNullifier_frame [of db cs ty k] and rt = GetNullifier_read_through [of db cs ty k]
  show "fst (GetNullifier db cs ty k) = s_nullifiers (caches_state P db cs) ty k"
    using rt nullifier_cache.read_peek by (simp add: caches_state_def)
  have same: "peek n_entered (DB_GetNullifier db ty') (map (\<lambda>c. cacheNullifiers c ty') ?cs') =
      peek n_entered (DB_GetNullifier db ty') (map (\<lambda>c. cacheNullifiers c ty') cs)" for ty'
    using rt nullifier_cache.read_same [of "DB_GetNullifier db ty" "map (\<lambda>c. cacheNullifiers c ty) cs" k] by (cases "ty' = ty") auto
  have ok: "layers_ok n_entered nullifier_promise (DB_GetNullifier db ty') (map (\<lambda>c. cacheNullifiers c ty') ?cs')" for ty'
    using assms rt nullifier_cache.read_ok [of "DB_GetNullifier db ty"] by (cases "ty' = ty") (auto simp: caches_ok_def)
  show "caches_state P db ?cs' = caches_state P db cs"
    using fr same frame_coins_tl [of cs ?cs'] by (simp add: caches_state_def frame_fields [of cs ?cs'] frame_best_def frame_coins_def)
  show "caches_ok P T db ?cs'" using assms fr ok by (simp add: caches_ok_def frame_fields [of cs ?cs'] frame_coins_def)
qed

lemma GetBestBlock_state:
  assumes "caches_ok P T db cs"
  shows "fst (GetBestBlock db cs) = s_best_block (caches_state P db cs)"
    "caches_state P db (snd (GetBestBlock db cs)) = caches_state P db cs" "caches_ok P T db (snd (GetBestBlock db cs))"
proof -
  let ?cs' = "snd (GetBestBlock db cs)"
  note fr = GetBestBlock_frame [of db cs] and p = GetBestBlock_peek [of db cs]
  have "map (\<lambda>c. hashAnchor c ty) ?cs' = map (\<lambda>c. hashAnchor c ty) cs" for ty
  proof -
    have "map hashAnchor ?cs' = map hashAnchor cs" using fr by blast
    then have "map (\<lambda>m. m ty) (map hashAnchor ?cs') = map (\<lambda>m. m ty) (map hashAnchor cs)" by (rule arg_cong)
    then show ?thesis by (simp add: o_def)
  qed
  then show "caches_state P db ?cs' = caches_state P db cs"
    using fr p frame_coins_tl [of cs ?cs'] by (simp add: caches_state_def frame_fields [of cs ?cs'] frame_coins_def)
  show "fst (GetBestBlock db cs) = s_best_block (caches_state P db cs)" using p by (simp add: caches_state_def)
  show "caches_ok P T db ?cs'" using assms fr by (simp add: caches_ok_def frame_fields [of cs ?cs'] frame_coins_def)
qed

lemma GetBestAnchor_state:
  assumes "caches_ok P T db cs"
  shows "fst (GetBestAnchor P db cs ty) = s_best_anchor (caches_state P db cs) ty"
    "caches_state P db (snd (GetBestAnchor P db cs ty)) = caches_state P db cs" "caches_ok P T db (snd (GetBestAnchor P db cs ty))"
proof -
  let ?cs' = "snd (GetBestAnchor P db cs ty)"
  note fr = GetBestAnchor_frame [of P db cs ty] and p = GetBestAnchor_peek [of P db cs ty]
  show "caches_state P db ?cs' = caches_state P db cs"
    using fr p frame_coins_tl [of cs ?cs'] by (simp add: caches_state_def frame_fields [of cs ?cs'] frame_coins_def)
  show "fst (GetBestAnchor P db cs ty) = s_best_anchor (caches_state P db cs) ty" using p by (simp add: caches_state_def)
  show "caches_ok P T db ?cs'" using assms fr by (simp add: caches_ok_def frame_fields [of cs ?cs'] frame_coins_def)
qed

lemma GetHistoryLengthRoot_state:
  assumes "caches_ok P T db cs"
  shows "fst (GetHistoryLengthRoot db cs k) = (of_nat (length (fst (s_history (caches_state P db cs) k))), snd (s_history (caches_state P db cs) k))"
    "caches_state P db (snd (GetHistoryLengthRoot db cs k)) = caches_state P db cs"
    "caches_ok P T db (snd (GetHistoryLengthRoot db cs k))"
proof -
  let ?cs' = "snd (GetHistoryLengthRoot db cs k)"
  have hok: "\<forall>k. hist_ok db cs k" using assms by (simp add: caches_ok_def)
  note fr = GetHistoryLengthRoot_frame [of db cs k] and same = GetHistoryLengthRoot_same [OF hok, where k = k]
  show "fst (GetHistoryLengthRoot db cs k) = (of_nat (length (fst (s_history (caches_state P db cs) k))), snd (s_history (caches_state P db cs) k))"
    using GetHistoryLengthRoot_peek hok by (simp add: caches_state_def)
  show "caches_state P db ?cs' = caches_state P db cs"
    using fr same frame_coins_tl [of cs ?cs'] by (simp add: caches_state_def frame_fields [of cs ?cs'] frame_coins_def frame_best_def)
  show "caches_ok P T db ?cs'" using assms fr same by (simp add: caches_ok_def frame_fields [of cs ?cs'] frame_coins_def)
qed

text \<open>An operation that leaves everything a view shows as it was.\<close>

definition keeps :: "pools \<Rightarrow> (ShieldedType \<Rightarrow> uint256 \<Rightarrow> tree) \<Rightarrow> coins_view \<Rightarrow> coins_view \<Rightarrow> bool" where
  "keeps P T v v' \<longleftrightarrow> state_of P v' = state_of P v \<and> view_ok P T v'"

lemma keeps_set_caches:
  assumes "caches_state P (v_db v) cs = caches_state P (v_db v) (v_caches v)" "caches_ok P T (v_db v) cs"
    "length cs = length (v_caches v)"
  shows "keeps P T v (set_caches cs v)"
proof -
  have "v_caches (set_caches cs v) = cs" using assms(3) by (cases cs) (auto simp: v_caches_def set_caches_def)
  moreover have "v_db (set_caches cs v) = v_db v" by (simp add: set_caches_def)
  ultimately show ?thesis using assms(1,2) by (simp add: keeps_def state_of_def view_ok_def)
qed

lemma AccessCoins_refines:
  assumes "view_ok P T v" "AccessCoins v k = (r, v')"
  shows "unspent r = s_coins (state_of P v) k" "keeps P T v v'" "r = Some c \<Longrightarrow> trimmed c"
proof -
  have ok: "caches_ok P T (v_db v) (v_caches v)" using assms(1) by (simp add: view_ok_def)
  have v': "v' = set_caches (snd (GetCoins (v_db v) (v_caches v) k)) v" and r: "r = fst (GetCoins (v_db v) (v_caches v) k)"
    using assms(2) by (auto simp: AccessCoins_def split: prod.splits)
  show "keeps P T v v'"
    unfolding v' using GetCoins_state [OF ok, of k] GetCoins_frame [of "v_db v" "v_caches v" k] by (intro keeps_set_caches) auto
  show "unspent r = s_coins (state_of P v) k" using r GetCoins_state(1) [OF ok] by (simp add: state_of_def caches_state_def)
  have "coins_base_ok k r"
    using r GetCoins_state(1) [OF ok] ok coins_cache.peek_base_ok by (simp add: caches_ok_def)
  then show "r = Some c \<Longrightarrow> trimmed c" by (simp add: coins_base_ok_def)
qed

lemma view_GetAnchorAt_refines:
  assumes "view_ok P T v" "view_GetAnchorAt P v ty k = (r, v')"
  shows "r = s_anchors (state_of P v) ty k" "keeps P T v v'"
proof -
  have ok: "caches_ok P T (v_db v) (v_caches v)" using assms(1) by (simp add: view_ok_def)
  have v': "v' = set_caches (snd (GetAnchorAt P (v_db v) (v_caches v) ty k)) v" and r: "r = fst (GetAnchorAt P (v_db v) (v_caches v) ty k)"
    using assms(2) by (auto simp: view_GetAnchorAt_def split: prod.splits)
  show "keeps P T v v'"
    unfolding v' using GetAnchorAt_state [OF ok, of ty k] GetAnchorAt_frame [of P "v_db v" "v_caches v" ty k]
    by (intro keeps_set_caches) auto
  show "r = s_anchors (state_of P v) ty k" using r GetAnchorAt_state(1) [OF ok] by (simp add: state_of_def)
qed

lemma view_GetNullifier_refines:
  assumes "view_ok P T v" "view_GetNullifier v ty k = (r, v')"
  shows "r = s_nullifiers (state_of P v) ty k" "keeps P T v v'"
proof -
  have ok: "caches_ok P T (v_db v) (v_caches v)" using assms(1) by (simp add: view_ok_def)
  have v': "v' = set_caches (snd (GetNullifier (v_db v) (v_caches v) ty k)) v" and r: "r = fst (GetNullifier (v_db v) (v_caches v) ty k)"
    using assms(2) by (auto simp: view_GetNullifier_def split: prod.splits)
  show "keeps P T v v'"
    unfolding v' using GetNullifier_state [OF ok, of ty k] GetNullifier_frame [of "v_db v" "v_caches v" ty k]
    by (intro keeps_set_caches) auto
  show "r = s_nullifiers (state_of P v) ty k" using r GetNullifier_state(1) [OF ok] by (simp add: state_of_def)
qed

lemma view_GetBestBlock_refines:
  assumes "view_ok P T v" "view_GetBestBlock v = (r, v')"
  shows "r = s_best_block (state_of P v)" "keeps P T v v'"
proof -
  have ok: "caches_ok P T (v_db v) (v_caches v)" using assms(1) by (simp add: view_ok_def)
  have v': "v' = set_caches (snd (GetBestBlock (v_db v) (v_caches v))) v" and r: "r = fst (GetBestBlock (v_db v) (v_caches v))"
    using assms(2) by (auto simp: view_GetBestBlock_def split: prod.splits)
  show "keeps P T v v'"
    unfolding v' using GetBestBlock_state [OF ok] GetBestBlock_frame [of "v_db v" "v_caches v"] by (intro keeps_set_caches) auto
  show "r = s_best_block (state_of P v)" using r GetBestBlock_state(1) [OF ok] by (simp add: state_of_def)
qed

lemma view_GetBestAnchor_refines:
  assumes "view_ok P T v" "view_GetBestAnchor P v ty = (r, v')"
  shows "r = s_best_anchor (state_of P v) ty" "keeps P T v v'"
proof -
  have ok: "caches_ok P T (v_db v) (v_caches v)" using assms(1) by (simp add: view_ok_def)
  have v': "v' = set_caches (snd (GetBestAnchor P (v_db v) (v_caches v) ty)) v" and r: "r = fst (GetBestAnchor P (v_db v) (v_caches v) ty)"
    using assms(2) by (auto simp: view_GetBestAnchor_def split: prod.splits)
  show "keeps P T v v'"
    unfolding v' using GetBestAnchor_state [OF ok, of ty] GetBestAnchor_frame [of P "v_db v" "v_caches v" ty]
    by (intro keeps_set_caches) auto
  show "r = s_best_anchor (state_of P v) ty" using r GetBestAnchor_state(1) [OF ok] by (simp add: state_of_def)
qed

lemma view_GetHistoryRoot_refines:
  assumes "view_ok P T v" "view_GetHistoryRoot v k = (r, v')"
  shows "r = snd (s_history (state_of P v) k)" "keeps P T v v'"
proof -
  have ok: "caches_ok P T (v_db v) (v_caches v)" using assms(1) by (simp add: view_ok_def)
  have v': "v' = set_caches (snd (GetHistoryLengthRoot (v_db v) (v_caches v) k)) v"
    and r: "r = snd (fst (GetHistoryLengthRoot (v_db v) (v_caches v) k))"
    using assms(2) by (auto simp: view_GetHistoryRoot_def split: prod.splits)
  show "keeps P T v v'"
    unfolding v' using GetHistoryLengthRoot_state [OF ok, of k] GetHistoryLengthRoot_frame [of "v_db v" "v_caches v" k]
    by (intro keeps_set_caches) auto
  show "r = snd (s_history (state_of P v) k)" using r GetHistoryLengthRoot_state(1) [OF ok] by (simp add: state_of_def)
qed

lemma keepsD: "keeps P T v v' \<Longrightarrow> state_of P v' = state_of P v" "keeps P T v v' \<Longrightarrow> view_ok P T v'"
  by (simp_all add: keeps_def)

section \<open>Modifications\<close>

lemma top_coins_update:
  assumes "caches_ok P T db (c # base)"
    and "\<And>e. x = Some e \<Longrightarrow> coins_promise k e (peek coins_val (db_coins db) (map cacheCoins base) k) (present (map cacheCoins base) k)"
  shows "caches_ok P T db (c\<lparr>cacheCoins := (cacheCoins c)(k := x)\<rparr> # base)"
    "caches_state P db (c\<lparr>cacheCoins := (cacheCoins c)(k := x)\<rparr> # base) =
       (caches_state P db (c # base))\<lparr>s_coins := (s_coins (caches_state P db (c # base)))(k :=
          unspent (case x of Some e \<Rightarrow> Some (e_coins e) | None \<Rightarrow> peek coins_val (db_coins db) (map cacheCoins base) k))\<rparr>"
  using assms by (auto simp: caches_ok_def caches_state_def coins_val_def fun_eq_iff split: option.splits)

lemma Cleanup_idem [simp]: "trimmed (Cleanup c)"
proof -
  have "dropWhile P (rev (rev (dropWhile P xs))) = dropWhile P xs" for P and xs :: "'z list" by (induction xs) auto
  then show ?thesis by (simp add: trimmed_def Cleanup_def)
qed

lemma modifier_done_refines:
  assumes "view_ok P T v" "e_dirty it"
    and "e_fresh it \<Longrightarrow> s_base (state_of P v) k = None" "\<not> e_fresh it \<Longrightarrow> present (map cacheCoins (v_below v)) k"
  shows "view_ok P T (modifier_done k it v)"
    "state_of P (modifier_done k it v) =
       (state_of P v)\<lparr>s_coins := (s_coins (state_of P v))(k := unspent (Some (Cleanup (e_coins it))))\<rparr>"
proof -
  let ?it = "it\<lparr>e_coins := Cleanup (e_coins it)\<rparr>"
  let ?x = "if e_fresh ?it \<and> IsPruned (e_coins ?it) then None else Some ?it"
  have ok: "caches_ok P T (v_db v) (v_top v # v_below v)" using assms(1) by (simp add: view_ok_def v_caches_def)
  have base: "s_base (state_of P v) k = unspent (peek coins_val (db_coins (v_db v)) (map cacheCoins (v_below v)) k)"
    by (simp add: state_of_def caches_state_def v_caches_def)
  have eq: "modifier_done k it v = v\<lparr>v_top := (v_top v)\<lparr>cacheCoins := (cacheCoins (v_top v))(k := ?x)\<rparr>\<rparr>"
    by (simp add: modifier_done_def Let_def)
  have prom: "coins_promise k e (peek coins_val (db_coins (v_db v)) (map cacheCoins (v_below v)) k) (present (map cacheCoins (v_below v)) k)"
    if "?x = Some e" for e
    using that assms(2,3,4) base by (auto simp: coins_promise_def split: if_splits)
  note up = top_coins_update [OF ok prom, of ?x]
  show "view_ok P T (modifier_done k it v)"
    using up(1) by (simp add: eq view_ok_def v_caches_def)
  show "state_of P (modifier_done k it v) =
       (state_of P v)\<lparr>s_coins := (s_coins (state_of P v))(k := unspent (Some (Cleanup (e_coins it))))\<rparr>"
    using up(2) assms(3) base by (auto simp: eq state_of_def v_caches_def unspent_def split: if_splits)
qed

lemma ModifyCoins_alt:
  "ModifyCoins k f v = (case AccessCoins v k of (r, v1) \<Rightarrow>
     let it = (case cacheCoins (v_top v1) k of Some it \<Rightarrow> it | None \<Rightarrow> \<lparr>e_coins = CCoins0, e_dirty = False, e_fresh = True\<rparr>);
         (x, coins) = f (e_coins it)
     in (x, modifier_done k (it\<lparr>e_coins := coins, e_dirty := True\<rparr>) v1))"
proof (cases "cacheCoins (v_top v) k")
  case None
  obtain r b where g: "GetCoins (v_db v) (v_below v) k = (r, b)" by fastforce
  show ?thesis
    using None g
    by (cases r) (auto simp: ModifyCoins_def AccessCoins_def v_caches_def set_caches_def modifier_done_def Let_def split: prod.splits)
qed (auto simp: ModifyCoins_def AccessCoins_def v_caches_def set_caches_def Let_def split: prod.splits)

lemma AccessCoins_entry:
  assumes "view_ok P T v" "AccessCoins v k = (r, v1)"
  shows "r = map_option e_coins (cacheCoins (v_top v1) k)"
  using assms(2) by (auto simp: AccessCoins_def v_caches_def set_caches_def split: option.splits prod.splits)

lemma view_top_promise:
  assumes "view_ok P T v" "cacheCoins (v_top v) k = Some it"
  shows "e_fresh it \<Longrightarrow> s_base (state_of P v) k = None" "\<not> e_fresh it \<Longrightarrow> present (map cacheCoins (v_below v)) k"
  using assms by (auto simp: view_ok_def v_caches_def caches_ok_def coins_promise_def state_of_def caches_state_def)

lemma AccessCoins_None_base:
  assumes "view_ok P T v" "AccessCoins v k = (None, v1)"
  shows "s_base (state_of P v1) k = None"
proof -
  have "cacheCoins (v_top v1) k = None" using AccessCoins_entry [OF assms] by simp
  moreover have "s_coins (state_of P v1) k = None"
    using AccessCoins_refines(1,2) [OF assms] by (simp add: keeps_def unspent_def)
  ultimately show ?thesis by (simp add: state_of_def caches_state_def v_caches_def)
qed

text \<open>What \<open>f\<close> is given: the coin the view shows, or one without outputs.\<close>

definition coin_seen :: "chainstate \<Rightarrow> uint256 \<Rightarrow> CCoins \<Rightarrow> bool" where
  "coin_seen s k c \<longleftrightarrow> trimmed c \<and> (case s_coins s k of Some c' \<Rightarrow> c = c' | None \<Rightarrow> c_vout c = [])"

lemma trimmed_pruned: "trimmed c \<Longrightarrow> IsPruned c \<longleftrightarrow> c_vout c = []"
  by (cases "c_vout c" rule: rev_cases) (auto simp: trimmed_def Cleanup_last IsPruned_def)

lemma ModifyCoins_refines:
  assumes "view_ok P T v" "ModifyCoins k f v = (x, v')"
  obtains c where "coin_seen (state_of P v) k c" "x = fst (f c)" "view_ok P T v'"
    "state_of P v' = (state_of P v)\<lparr>s_coins := (s_coins (state_of P v))(k := unspent (Some (Cleanup (snd (f c)))))\<rparr>"
proof -
  obtain r v1 where a: "AccessCoins v k = (r, v1)" by fastforce
  define it where "it = (case cacheCoins (v_top v1) k of Some it \<Rightarrow> it | None \<Rightarrow> \<lparr>e_coins = CCoins0, e_dirty = False, e_fresh = True\<rparr>)"
  define it' where "it' = it\<lparr>e_coins := snd (f (e_coins it)), e_dirty := True\<rparr>"
  have x: "x = fst (f (e_coins it))" "v' = modifier_done k it' v1"
    using assms(2) unfolding ModifyCoins_alt a it'_def by (simp_all add: it_def [symmetric] Let_def split: prod.splits)
  note ref = AccessCoins_refines [OF assms(1) a]
  have k1: "state_of P v1 = state_of P v" "view_ok P T v1" using ref(2) by (simp_all add: keeps_def)
  have r: "r = map_option e_coins (cacheCoins (v_top v1) k)" by (rule AccessCoins_entry [OF assms(1) a])
  have fr: "e_fresh it \<Longrightarrow> s_base (state_of P v1) k = None" "\<not> e_fresh it \<Longrightarrow> present (map cacheCoins (v_below v1)) k"
    using view_top_promise [OF k1(2)] AccessCoins_None_base [OF assms(1)] a r
    by (auto simp: it_def split: option.splits)
  note md = modifier_done_refines [OF k1(2), of it' k]
  have "coin_seen (state_of P v) k (e_coins it)"
  proof (cases "cacheCoins (v_top v1) k")
    case None
    then show ?thesis using ref(1) r by (simp add: coin_seen_def it_def trimmed_def CCoins0_def Cleanup_def unspent_def flip: ref(1))
  next
    case (Some e)
    then have "trimmed (e_coins e)" using ref(3) r by simp
    then show ?thesis using Some r ref(1) [symmetric] by (auto simp: coin_seen_def it_def unspent_def trimmed_pruned)
  qed
  moreover have "view_ok P T v'" "state_of P v' = (state_of P v)\<lparr>s_coins := (s_coins (state_of P v))(k := unspent (Some (Cleanup (snd (f (e_coins it))))))\<rparr>"
    using md fr k1(1) by (simp_all add: x it'_def)
  ultimately show thesis using that x(1) by blast
qed

lemma ModifyNewCoins_refines:
  assumes "view_ok P T v" "ModifyNewCoins k f v = (x, v')" "s_base (state_of P v) k = None"
  shows "x = fst (f CCoins0)" "view_ok P T v'"
    "state_of P v' = (state_of P v)\<lparr>s_coins := (s_coins (state_of P v))(k := unspent (Some (Cleanup (snd (f CCoins0)))))\<rparr>"
  using assms modifier_done_refines [OF assms(1), of "\<lparr>e_coins = snd (f CCoins0), e_dirty = True, e_fresh = True\<rparr>" k]
  by (auto simp: ModifyNewCoins_def Let_def split: prod.splits)

lemma SetBestBlock_refines:
  assumes "view_ok P T v" "h \<noteq> 0"
  shows "view_ok P T (SetBestBlock h v)" "state_of P (SetBestBlock h v) = (state_of P v)\<lparr>s_best_block := h\<rparr>"
  using assms by (simp_all add: SetBestBlock_def view_ok_def v_caches_def caches_ok_def state_of_def caches_state_def)

lemma top_nullifier_update:
  assumes "caches_ok P T db (c # base)"
  shows "caches_ok P T db (set_nullifier ty b nf c # base)"
    "caches_state P db (set_nullifier ty b nf c # base) = (caches_state P db (c # base))\<lparr>s_nullifiers :=
       (s_nullifiers (caches_state P db (c # base)))(ty := (s_nullifiers (caches_state P db (c # base)) ty)(nf := b))\<rparr>"
  using assms by (auto simp: set_nullifier_def caches_ok_def caches_state_def nullifier_promise_def fun_eq_iff)

definition tx_nullifiers :: "('z) CMutableTransaction_scheme \<Rightarrow> ShieldedType \<Rightarrow> uint256 list" where
  "tx_nullifiers tx ty = (case ty of SPROUT \<Rightarrow> concat (map js_nullifiers (vJoinSplit tx)) | SAPLING \<Rightarrow> map sd_nullifier (vShieldedSpend tx))"

lemma fold_set_nullifier:
  assumes "caches_ok P T db (c # base)"
  shows "caches_ok P T db (fold (set_nullifier ty b) nfs c # base) \<and>
    caches_state P db (fold (set_nullifier ty b) nfs c # base) = (caches_state P db (c # base))\<lparr>s_nullifiers :=
       (s_nullifiers (caches_state P db (c # base)))(ty := (\<lambda>nf. if nf \<in> set nfs then b else s_nullifiers (caches_state P db (c # base)) ty nf))\<rparr>"
  using assms
proof (induction nfs arbitrary: c)
  case (Cons nf nfs)
  then show ?case using top_nullifier_update [OF Cons.prems, of ty b nf] by (auto simp: fun_eq_iff)
qed simp

lemma SetNullifiers_refines:
  assumes "view_ok P T v"
  shows "view_ok P T (SetNullifiers tx b v)"
    "state_of P (SetNullifiers tx b v) = (state_of P v)\<lparr>s_nullifiers :=
       (\<lambda>ty nf. if nf \<in> set (tx_nullifiers tx ty) then b else s_nullifiers (state_of P v) ty nf)\<rparr>"
proof -
  let ?c1 = "fold (set_nullifier SPROUT b) (tx_nullifiers tx SPROUT) (v_top v)"
  have fc: "fold (\<lambda>js. fold (set_nullifier SPROUT b) (js_nullifiers js)) jss c = fold (set_nullifier SPROUT b) (concat (map js_nullifiers jss)) c" for jss c
    by (induction jss arbitrary: c) simp_all
  have eq: "SetNullifiers tx b v = v\<lparr>v_top := fold (set_nullifier SAPLING b) (tx_nullifiers tx SAPLING) ?c1\<rparr>"
    by (simp add: SetNullifiers_def Let_def tx_nullifiers_def fc fold_map o_def)
  have ok: "caches_ok P T (v_db v) (v_top v # v_below v)" using assms by (simp add: view_ok_def v_caches_def)
  note s1 = fold_set_nullifier [OF ok, of SPROUT b "tx_nullifiers tx SPROUT"]
  note s2 = fold_set_nullifier [OF conjunct1 [OF s1], of SAPLING b "tx_nullifiers tx SAPLING"]
  show "view_ok P T (SetNullifiers tx b v)" using s2 by (simp add: eq view_ok_def v_caches_def)
  let ?s = "caches_state P (v_db v) (v_top v # v_below v)"
  let ?s2 = "caches_state P (v_db v) (fold (set_nullifier SAPLING b) (tx_nullifiers tx SAPLING) ?c1 # v_below v)"
  have n: "s_nullifiers ?s2 = (\<lambda>ty nf. if nf \<in> set (tx_nullifiers tx ty) then b else s_nullifiers ?s ty nf)"
  proof (intro ext)
    fix ty nf
    show "s_nullifiers ?s2 ty nf = (if nf \<in> set (tx_nullifiers tx ty) then b else s_nullifiers ?s ty nf)"
      using s1 s2 by (cases ty) simp_all
  qed
  have "?s2 = ?s\<lparr>s_nullifiers := s_nullifiers ?s2\<rparr>" using s1 s2 by simp
  then show "state_of P (SetNullifiers tx b v) = (state_of P v)\<lparr>s_nullifiers :=
       (\<lambda>ty nf. if nf \<in> set (tx_nullifiers tx ty) then b else s_nullifiers (state_of P v) ty nf)\<rparr>"
    using n by (simp add: eq state_of_def v_caches_def)
qed

lemma top_anchor_update:
  assumes "caches_ok P T db (c # base)" "a_dirty e" "a_tree e = T ty k" "k = empty_root (P ty) \<longrightarrow> a_entered e" "h \<noteq> 0"
  defines "c' \<equiv> c\<lparr>cacheAnchors := (cacheAnchors c)(ty := (cacheAnchors c ty)(k \<mapsto> e)), hashAnchor := (hashAnchor c)(ty := h)\<rparr>"
  shows "caches_ok P T db (c' # base)"
    "caches_state P db (c' # base) = (caches_state P db (c # base))\<lparr>
       s_anchors := (s_anchors (caches_state P db (c # base)))(ty := (s_anchors (caches_state P db (c # base)) ty)(k := anchor_val e)),
       s_best_anchor := (s_best_anchor (caches_state P db (c # base)))(ty := h)\<rparr>"
proof -
  have "layers_ok anchor_val (anchor_promise (T ty') (empty_root (P ty'))) (DB_GetAnchorAt P db ty') (map (\<lambda>c. cacheAnchors c ty') (c' # base))" for ty'
    using assms(1-4) by (cases "ty' = ty") (auto simp: caches_ok_def c'_def anchor_promise_def)
  then show "caches_ok P T db (c' # base)" using assms(1) by (simp add: caches_ok_def) (simp add: c'_def)
  show "caches_state P db (c' # base) = (caches_state P db (c # base))\<lparr>
       s_anchors := (s_anchors (caches_state P db (c # base)))(ty := (s_anchors (caches_state P db (c # base)) ty)(k := anchor_val e)),
       s_best_anchor := (s_best_anchor (caches_state P db (c # base)))(ty := h)\<rparr>"
    using assms(5) by (simp add: caches_state_def c'_def) (auto simp: fun_eq_iff)
qed

lemma PushAnchor_refines:
  assumes "view_ok P T v" "T ty (tree_root (P ty) t) = t" "tree_root (P ty) t \<noteq> 0"
  shows "view_ok P T (PushAnchor P ty t v)"
    "state_of P (PushAnchor P ty t v) = (if s_best_anchor (state_of P v) ty = tree_root (P ty) t then state_of P v
       else (state_of P v)\<lparr>s_anchors := (s_anchors (state_of P v))(ty := (s_anchors (state_of P v) ty)(tree_root (P ty) t \<mapsto> t)),
              s_best_anchor := (s_best_anchor (state_of P v))(ty := tree_root (P ty) t)\<rparr>)"
proof -
  obtain r v1 where b: "view_GetBestAnchor P v ty = (r, v1)" by fastforce
  note ref = view_GetBestAnchor_refines [OF assms(1) b]
  have k1: "state_of P v1 = state_of P v" "view_ok P T v1" using ref(2) by (simp_all add: keeps_def)
  have ok: "caches_ok P T (v_db v1) (v_top v1 # v_below v1)" using k1(2) by (simp add: view_ok_def v_caches_def)
  note up = top_anchor_update [OF ok, of "\<lparr>a_entered = True, a_tree = t, a_dirty = True\<rparr>" ty "tree_root (P ty) t" "tree_root (P ty) t"]
  show "view_ok P T (PushAnchor P ty t v)"
    using up(1) b k1 assms(2,3) by (simp add: PushAnchor_def Let_def) (simp add: view_ok_def v_caches_def)
  show "state_of P (PushAnchor P ty t v) = (if s_best_anchor (state_of P v) ty = tree_root (P ty) t then state_of P v
       else (state_of P v)\<lparr>s_anchors := (s_anchors (state_of P v))(ty := (s_anchors (state_of P v) ty)(tree_root (P ty) t \<mapsto> t)),
              s_best_anchor := (s_best_anchor (state_of P v))(ty := tree_root (P ty) t)\<rparr>)"
  proof (cases "s_best_anchor (state_of P v) ty = tree_root (P ty) t")
    case True
    then show ?thesis using b k1 ref(1) by (simp add: PushAnchor_def Let_def)
  next
    case False
    have s: "caches_state P (v_db v1) (v_top v1 # v_below v1) = state_of P v" using k1(1) by (simp add: state_of_def v_caches_def)
    show ?thesis
      using False up(2) [unfolded s] b ref(1) assms(2,3)
      by (simp add: PushAnchor_def Let_def anchor_val_def) (simp add: state_of_def v_caches_def)
  qed
qed

lemma PopAnchor_refines:
  assumes "view_ok P T v" "newrt \<noteq> 0" "s_best_anchor (state_of P v) ty \<noteq> newrt \<longrightarrow>
      s_best_anchor (state_of P v) ty \<noteq> empty_root (P ty) \<and> s_anchors (state_of P v) ty (s_best_anchor (state_of P v) ty) \<noteq> None"
  obtains v' where "PopAnchor P ty newrt v = Inr v'" "view_ok P T v'"
    "state_of P v' = (if s_best_anchor (state_of P v) ty = newrt then state_of P v
       else (state_of P v)\<lparr>s_anchors := (s_anchors (state_of P v))(ty := (s_anchors (state_of P v) ty)(s_best_anchor (state_of P v) ty := None)),
              s_best_anchor := (s_best_anchor (state_of P v))(ty := newrt)\<rparr>)"
proof -
  obtain r v1 where b: "view_GetBestAnchor P v ty = (r, v1)" by fastforce
  note ref = view_GetBestAnchor_refines [OF assms(1) b]
  have k1: "state_of P v1 = state_of P v" "view_ok P T v1" using ref(2) by (simp_all add: keeps_def)
  show thesis
  proof (cases "r = newrt")
    case True
    then show ?thesis using that b k1 ref(1) by (simp add: PopAnchor_def)
  next
    case False
    obtain a v2 where g: "view_GetAnchorAt P v1 ty r = (a, v2)" by fastforce
    note ref2 = view_GetAnchorAt_refines [OF k1(2) g]
    have k2: "state_of P v2 = state_of P v" "view_ok P T v2" using ref2(2) k1 by (simp_all add: keeps_def)
    obtain t where t: "a = Some t" using ref2(1) k1(1) assms(3) False ref(1) by auto
    have ok: "caches_ok P T (v_db v2) (v_top v2 # v_below v2)" using k2(2) by (simp add: view_ok_def v_caches_def)
    have s: "caches_state P (v_db v2) (v_top v2 # v_below v2) = state_of P v" using k2(1) by (simp add: state_of_def v_caches_def)
    obtain e where e: "cacheAnchors (v_top v2) ty r = Some e"
      using g t by (auto simp: view_GetAnchorAt_def v_caches_def set_caches_def split: option.splits prod.splits if_splits)
    have "a_tree e = T ty r" using ok e by (simp add: caches_ok_def anchor_promise_def)
    note up = top_anchor_update [OF ok, of "e\<lparr>a_entered := False, a_dirty := True\<rparr>" ty r newrt]
    show ?thesis
      using that up(1) up(2) [unfolded s] b g t e False assms(2,3) ref(1) \<open>a_tree e = T ty r\<close>
      by (simp add: PopAnchor_def Let_def anchor_val_def) (simp add: view_ok_def state_of_def v_caches_def)
  qed
qed

section \<open>Flushing\<close>

lemma BatchWrite_merge:
  "BatchWriteCoins m p = (\<lambda>k. case m k of None \<Rightarrow> p k | Some e \<Rightarrow> if e_dirty e then merge_coins e (p k) else p k)"
  "BatchWriteAnchors ma pa = (\<lambda>k. case ma k of None \<Rightarrow> pa k | Some e \<Rightarrow> if a_dirty e then merge_anchor e (pa k) else pa k)"
  "BatchWriteNullifiers mn pn = (\<lambda>k. case mn k of None \<Rightarrow> pn k | Some e \<Rightarrow> if n_dirty e then merge_nullifier e (pn k) else pn k)"
  by (auto simp: merge_coins_def merge_anchor_def merge_nullifier_def BatchWriteCoins_def BatchWriteAnchors_def
      BatchWriteNullifiers_def fun_eq_iff split: option.splits)

lemma peek_empty [simp]: "peek val base (Map.empty # ms) = peek val base ms"
  by (simp add: fun_eq_iff)

definition flush_safe :: "coins_view \<Rightarrow> bool" where
  "flush_safe v \<longleftrightarrow> (case v_below v of [] \<Rightarrow> True | p # _ \<Rightarrow>
     (hashBlock (v_top v) = 0 \<longrightarrow> hashBlock p = 0) \<and> (\<forall>ty. hashAnchor (v_top v) ty = 0 \<longrightarrow> hashAnchor p ty = 0))"

lemma BatchWriteHistory_same:
  assumes "\<forall>k. hist_ok db (c # p # rest) k" "historyCacheMap p' = BatchWriteHistory (historyCacheMap c) (historyCacheMap p)"
  shows "hist_of db (p' # rest) k = hist_of db (c # p # rest) k" "hist_ok db (p' # rest) k"
    "BatchWriteHistory_assert (historyCacheMap c) (historyCacheMap p)"
proof -
  let ?b = "\<lambda>k. db_history db k" and ?m = "\<lambda>k. map (\<lambda>c. historyCacheMap c k) rest"
  have ok: "history_ok (?b k) (historyCacheMap c k # historyCacheMap p k # ?m k)" for k using assms(1) by simp
  show "hist_of db (p' # rest) k = hist_of db (c # p # rest) k" "hist_ok db (p' # rest) k"
    using ok [of k] history_merge [of _ "?b k" _ "?m k"]
    by (cases "historyCacheMap c k"; cases "historyCacheMap p k";
        simp add: assms(2) BatchWriteHistory_def del: peek_history.simps(3); simp)+
  show "BatchWriteHistory_assert (historyCacheMap c) (historyCacheMap p)"
    unfolding BatchWriteHistory_assert_def
  proof (intro allI impI)
    fix k hIn h
    assume "historyCacheMap c k = Some hIn \<and> historyCacheMap p k = Some h"
    then show "h_length (merge_history hIn h) = h_length hIn"
      using ok [of k] history_merge(3) [of hIn "?b k" h "?m k"] by (simp del: peek_history.simps(3))
  qed
qed

lemma flush_cache_state:
  assumes "caches_ok P T db (c # p # rest)" "BatchWrite c p = Inr p'"
    "hashBlock c = 0 \<longrightarrow> hashBlock p = 0" "\<forall>ty. hashAnchor c ty = 0 \<longrightarrow> hashAnchor p ty = 0"
  shows "caches_ok P T db (p' # rest)" "caches_state P db (p' # rest) = (caches_state P db (c # p # rest))\<lparr>s_base := s_base (caches_state P db (p' # rest))\<rparr>"
proof -
  have p': "p' = \<lparr>hashBlock = hashBlock c, cacheCoins = BatchWriteCoins (cacheCoins c) (cacheCoins p), hashAnchor = hashAnchor c,
        cacheAnchors = (\<lambda>ty. BatchWriteAnchors (cacheAnchors c ty) (cacheAnchors p ty)),
        cacheNullifiers = (\<lambda>ty. BatchWriteNullifiers (cacheNullifiers c ty) (cacheNullifiers p ty)),
        historyCacheMap = BatchWriteHistory (historyCacheMap c) (historyCacheMap p)\<rparr>"
    using assms(2) by (simp add: BatchWrite_def split: if_splits)
  note ok = assms(1) [unfolded caches_ok_def list.map]
  note C = coins_cache.flush_cache [of "db_coins db" "cacheCoins c" "cacheCoins p" "map cacheCoins rest", folded BatchWrite_merge]
  note A = anchor_cache.flush_cache [where base = "DB_GetAnchorAt P db ty" and m = "cacheAnchors c ty" and p = "cacheAnchors p ty" and
      T = "T ty" and ?r0.0 = "empty_root (P ty)" and ms = "map (\<lambda>c. cacheAnchors c ty) rest" for ty, folded BatchWrite_merge]
  note N = nullifier_cache.flush_cache [where base = "DB_GetNullifier db ty" and m = "cacheNullifiers c ty" and p = "cacheNullifiers p ty" and
      ms = "map (\<lambda>c. cacheNullifiers c ty) rest" for ty, folded BatchWrite_merge]
  have hok: "\<forall>k. hist_ok db (c # p # rest) k" using ok by simp
  note H = BatchWriteHistory_same [OF hok, of p']
  show "caches_ok P T db (p' # rest)"
    using ok C(2) A(2) N(2) H(2) unfolding caches_ok_def list.map by (auto simp: p' simp del: layers_ok.simps)
  show "caches_state P db (p' # rest) = (caches_state P db (c # p # rest))\<lparr>s_base := s_base (caches_state P db (p' # rest))\<rparr>"
    using ok C(1) A(1) N(1) H(1) assms(3,4) unfolding caches_state_def list.map
    by (simp add: p' fun_eq_iff del: peek.simps layers_ok.simps)
qed

lemma DB_write_nodes_key:
  "DB_write_nodes h nodes (ser_writedata64 i) = (case h_appends h i of Some n \<Rightarrow> Some n | None \<Rightarrow> nodes (ser_writedata64 i))"
proof -
  have l: "length (ser_writedata64 i) = 8" "le_to_nat (ser_writedata64 i) = unat i"
    using unat_less_u64 [of i] by (simp_all add: ser_writedata64_def)
  have "ser_writedata64 i \<notin> set (DB_erased_keys h)"
  proof
    assume "ser_writedata64 i \<in> set (DB_erased_keys h)"
    then have "length (ser_writedata64 i) = 4" by (auto simp: DB_erased_keys_def ser_writedata32_def)
    then show False using l(1) by simp
  qed
  then show ?thesis using l by (simp add: DB_write_nodes_def split: option.splits)
qed

lemma DB_BatchWrite_history:
  assumes "\<forall>k. hist_ok db [c] k" "\<forall>k. db_history_ok db k"
  shows "db_history (DB_BatchWrite P c db) k = hist_of db [c] k" "db_history_ok (DB_BatchWrite P c db) k"
proof -
  let ?db = "DB_BatchWrite P c db"
  have "db_history ?db k = hist_of db [c] k \<and> db_history_ok ?db k"
  proof (cases "historyCacheMap c k")
    case None
    then show ?thesis
      using assms(2) by (simp add: db_history_def db_history_ok_def DB_BatchWrite_def DB_GetHistoryLength_def DB_GetHistoryRoot_def)
  next
    case (Some h)
    let ?n = "\<lambda>i. case db_mmr_node db k (ser_writedata64 (of_nat i)) of None \<Rightarrow> replicate 171 0 | Some n \<Rightarrow> n"
    have ok: "history_cache_ok h (length (fst (db_history db k)))" using spec [OF assms(1), of k] Some by simp
    have dom: "h_appends h i \<noteq> None \<longleftrightarrow> h_updateDepth h \<le> i \<and> i < h_length h" for i
      using ok unfolding history_cache_ok_def by blast
    have ud: "unat (h_updateDepth h) \<le> unat (DB_GetHistoryLength db k)" "unat (h_updateDepth h) \<le> unat (h_length h)"
      using ok by (simp_all add: history_cache_ok_def db_history_def word_le_nat_alt)
    have len: "DB_GetHistoryLength ?db k = h_length h" "DB_GetHistoryRoot ?db k = h_root h"
      using Some by (simp_all add: DB_BatchWrite_def DB_GetHistoryLength_def DB_GetHistoryRoot_def)
    have node: "db_mmr_node ?db k (ser_writedata64 i) = (case h_appends h i of Some n \<Rightarrow> Some n | None \<Rightarrow> db_mmr_node db k (ser_writedata64 i))" for i
      using Some by (simp add: DB_BatchWrite_def DB_write_nodes_key)
    have split: "[0..<unat (h_length h)] = [0..<unat (h_updateDepth h)] @ [unat (h_updateDepth h)..<unat (h_length h)]"
      using upt_add_eq_append [of 0 "unat (h_updateDepth h)" "unat (h_length h) - unat (h_updateDepth h)"] ud(2) by simp
    have low: "h_appends h (of_nat i) = None" if "i < unat (h_updateDepth h)" for i
      using that dom [of "of_nat i"] unat_u64 [of i] unat_less_u64 [of "h_updateDepth h"] by (auto simp: word_le_nat_alt)
    have high: "h_appends h (of_nat i) \<noteq> None" if "unat (h_updateDepth h) \<le> i" "i < unat (h_length h)" for i
      using that dom [of "of_nat i"] unat_u64 [of i] unat_less_u64 [of "h_length h"] by (auto simp: word_le_nat_alt word_less_nat_alt)
    have "fst (db_history ?db k) = take (unat (h_updateDepth h)) (fst (db_history db k)) @ appended_nodes h"
      using ud low unfolding db_history_def fst_conv len split map_append
      by (auto simp: node appended_nodes_def take_map split: option.splits dest: high)
    moreover have "db_history_ok ?db k"
      unfolding db_history_ok_def len
    proof (intro allI impI)
      fix i assume "i < h_length h"
      then show "db_mmr_node ?db k (ser_writedata64 i) \<noteq> None"
        using dom [of i] spec [OF assms(2), of k] ud(1)
        by (cases "h_updateDepth h \<le> i") (auto simp: node db_history_ok_def word_le_nat_alt word_less_nat_alt split: option.splits)
    qed
    ultimately show ?thesis using Some len by (simp add: db_history_def)
  qed
  then show "db_history ?db k = hist_of db [c] k" "db_history_ok ?db k" by simp_all
qed

lemma flush_db_state:
  assumes "caches_ok P T db [c]"
  defines "c' \<equiv> CCoinsViewCache0\<lparr>hashBlock := hashBlock c, hashAnchor := hashAnchor c\<rparr>"
  shows "caches_ok P T (DB_BatchWrite P c db) [c']"
    "caches_state P (DB_BatchWrite P c db) [c'] = (caches_state P db [c])\<lparr>s_base := s_coins (caches_state P db [c])\<rparr>"
proof -
  let ?db = "DB_BatchWrite P c db"
  note ok = assms(1) [unfolded caches_ok_def list.map]
  have C: "unspent (db_coins ?db k) = unspent (peek coins_val (db_coins db) [cacheCoins c] k)" for k
    using ok by (intro coins_cache.flush_base) (auto simp: DB_BatchWrite_def coins_val_def unspent_def split: option.splits)
  have "coins_base_ok k (db_coins ?db k)" for k
    using ok by (auto simp: DB_BatchWrite_def coins_base_ok_def coins_promise_def split: option.splits)
  moreover have A: "DB_GetAnchorAt P ?db ty k = peek anchor_val (DB_GetAnchorAt P db ty) [cacheAnchors c ty] k" for ty k
  proof -
    have "id (DB_GetAnchorAt P ?db ty k) = id (peek anchor_val (DB_GetAnchorAt P db ty) [cacheAnchors c ty] k)"
    proof (rule anchor_cache.flush_base [where T = "T ty" and ?r0.0 = "empty_root (P ty)"])
      show "layers_ok anchor_val (anchor_promise (T ty) (empty_root (P ty))) (DB_GetAnchorAt P db ty) [cacheAnchors c ty]" using ok by simp
      fix k e
      assume "cacheAnchors c ty k = Some e" "a_dirty e" "anchor_promise (T ty) (empty_root (P ty)) k e (DB_GetAnchorAt P db ty k) True"
      moreover have "anchor_base_ok (T ty) (empty_root (P ty)) k (DB_GetAnchorAt P db ty k)" using ok by blast
      ultimately show "id (DB_GetAnchorAt P ?db ty k) = id (anchor_val e)"
        by (cases "k = empty_root (P ty)")
          (simp_all add: DB_GetAnchorAt_def DB_BatchWrite_def anchor_val_def anchor_promise_def anchor_base_ok_def)
    qed (auto simp: DB_GetAnchorAt_def DB_BatchWrite_def split: option.splits)
    then show ?thesis by simp
  qed
  moreover have "anchor_base_ok (T ty) (empty_root (P ty)) k (DB_GetAnchorAt P ?db ty k)" for ty k
    unfolding A using ok by (intro anchor_cache.peek_base_ok) auto
  moreover have N: "DB_GetNullifier ?db ty k = peek n_entered (DB_GetNullifier db ty) [cacheNullifiers c ty] k" for ty k
  proof -
    have "id (DB_GetNullifier ?db ty k) = id (peek n_entered (DB_GetNullifier db ty) [cacheNullifiers c ty] k)"
      using ok by (intro nullifier_cache.flush_base) (auto simp: DB_GetNullifier_def DB_BatchWrite_def split: option.splits)
    then show ?thesis by simp
  qed
  moreover have H: "db_history ?db k = hist_of db [c] k" "db_history_ok ?db k" for k
    using ok DB_BatchWrite_history [of db c P k] by simp_all
  ultimately show "caches_ok P T ?db [c']" by (simp add: caches_ok_def c'_def CCoinsViewCache0_def)
  show "caches_state P ?db [c'] = (caches_state P db [c])\<lparr>s_base := s_coins (caches_state P db [c])\<rparr>"
    using C A N H(1)
    by (auto simp: caches_state_def c'_def CCoinsViewCache0_def fun_eq_iff simp del: peek.simps(2))
      (simp_all add: DB_BatchWrite_def DB_GetBestBlock_def DB_GetBestAnchor_def)
qed

text \<open>A new cache over the view in use, as \<^verbatim>\<open>CCoinsViewCache view(&base)\<close> makes it.\<close>

definition child_view :: "coins_view \<Rightarrow> coins_view" where
  "child_view v = \<lparr>v_top = CCoinsViewCache0, v_below = v_caches v, v_db = v_db v\<rparr>"

lemma child_view_refines:
  assumes "view_ok P T v"
  shows "view_ok P T (child_view v)" "state_of P (child_view v) = (state_of P v)\<lparr>s_base := s_coins (state_of P v)\<rparr>"
  using assms
  by (simp_all add: child_view_def view_ok_def state_of_def v_caches_def caches_ok_def caches_state_def CCoinsViewCache0_def)

lemma BatchWrite_asserts:
  assumes "caches_ok P T db (c # p # rest)"
  shows "\<exists>p'. BatchWrite c p = Inr p'"
proof -
  have "BatchWriteCoins_assert (cacheCoins c) (cacheCoins p)"
    unfolding BatchWriteCoins_assert_def
  proof (intro allI impI)
    fix k it
    assume a: "cacheCoins c k = Some it \<and> e_dirty it \<and> cacheCoins p k = None \<and> \<not> IsPruned (e_coins it)"
    have "layers_ok coins_val coins_promise (db_coins db) (cacheCoins c # cacheCoins p # map cacheCoins rest)"
      using assms by (simp add: caches_ok_def)
    then show "e_fresh it" using layers_okD a by (fastforce simp: coins_promise_def)
  qed
  moreover have "BatchWriteHistory_assert (historyCacheMap c) (historyCacheMap p)"
    using assms BatchWriteHistory_same(3) [of db c p rest "c\<lparr>historyCacheMap := BatchWriteHistory (historyCacheMap c) (historyCacheMap p)\<rparr>"]
    by (simp add: caches_ok_def)
  ultimately show ?thesis by (simp add: BatchWrite_def)
qed

lemma Flush_refines:
  assumes "view_ok P T v" "flush_safe v"
  obtains v' where "Flush P v = Inr v'" "view_ok P T v'"
    "state_of P v' = (state_of P v)\<lparr>s_base := s_coins (state_of P v)\<rparr>"
    "v_top v' = CCoinsViewCache0\<lparr>hashBlock := hashBlock (v_top v), hashAnchor := hashAnchor (v_top v)\<rparr>"
proof -
  let ?c = "CCoinsViewCache0\<lparr>hashBlock := hashBlock (v_top v), hashAnchor := hashAnchor (v_top v)\<rparr>"
  have ok: "caches_ok P T (v_db v) (v_top v # v_below v)" using assms(1) by (simp add: view_ok_def v_caches_def)
  show thesis
  proof (cases "v_below v")
    case Nil
    then show ?thesis
      using that [of "v\<lparr>v_top := ?c, v_db := DB_BatchWrite P (v_top v) (v_db v)\<rparr>"] flush_db_state [of P T "v_db v" "v_top v"] ok
      by (simp add: Flush_def Let_def view_ok_def state_of_def v_caches_def)
  next
    case (Cons p rest)
    obtain p' where p': "BatchWrite (v_top v) p = Inr p'" using BatchWrite_asserts [OF ok [unfolded Cons]] by blast
    have hash: "hashBlock p' = hashBlock (v_top v)" "hashAnchor p' = hashAnchor (v_top v)"
      using p' by (auto simp: BatchWrite_def split: if_splits)
    note fl = flush_cache_state [OF ok [unfolded Cons] p']
    have "caches_ok P T (v_db v) (?c # p' # rest)"
      using fl(1) assms(2) Cons by (simp add: flush_safe_def caches_ok_def CCoinsViewCache0_def)
    moreover have "caches_state P (v_db v) (?c # p' # rest) =
        (caches_state P (v_db v) (v_top v # p # rest))\<lparr>s_base := s_coins (caches_state P (v_db v) (v_top v # p # rest))\<rparr>"
    proof -
      have eq: "caches_state P (v_db v) (p' # rest) =
          (caches_state P (v_db v) (v_top v # p # rest))\<lparr>s_base := s_base (caches_state P (v_db v) (p' # rest))\<rparr>"
        using fl(2) assms(2) Cons by (simp add: flush_safe_def)
      have "caches_state P (v_db v) (?c # p' # rest) =
          (caches_state P (v_db v) (p' # rest))\<lparr>s_base := s_coins (caches_state P (v_db v) (p' # rest))\<rparr>"
        using hash by (simp add: caches_state_def CCoinsViewCache0_def fun_eq_iff)
      also have "\<dots> = (caches_state P (v_db v) (v_top v # p # rest))\<lparr>s_base := s_coins (caches_state P (v_db v) (v_top v # p # rest))\<rparr>"
        by (subst (1 2) eq) simp
      finally show ?thesis .
    qed
    ultimately show ?thesis
      using that [of "v\<lparr>v_top := ?c, v_below := p' # rest\<rparr>"] Cons p'
      by (simp add: Flush_def Let_def view_ok_def state_of_def v_caches_def)
  qed
qed

section \<open>Queries of a transaction\<close>

definition available :: "chainstate \<Rightarrow> COutPoint \<Rightarrow> bool" where
  "available s p \<longleftrightarrow> (case s_coins s (op_hash p) of None \<Rightarrow> False | Some c \<Rightarrow> IsAvailable c (op_n p))"

lemma unspent_available:
  "unspent r = s_coins s (op_hash p) \<Longrightarrow> available s p \<longleftrightarrow> (case r of None \<Rightarrow> False | Some c \<Rightarrow> IsAvailable c (op_n p))"
  by (auto simp: available_def unspent_def IsPruned_def IsAvailable_def list_all_length split: option.splits if_splits)

lemma keeps_refl: "view_ok P T v \<Longrightarrow> keeps P T v v"
  by (simp add: keeps_def)

lemma keeps_trans: "keeps P T v v1 \<Longrightarrow> keeps P T v1 v2 \<Longrightarrow> keeps P T v v2"
  by (simp add: keeps_def)

lemma have_inputs_refines:
  assumes "view_ok P T v"
  shows "fst (have_inputs ins v) = list_all (\<lambda>i. available (state_of P v) (prevout i)) ins \<and> keeps P T v (snd (have_inputs ins v))"
  using assms
proof (induction ins arbitrary: v)
  case (Cons i ins)
  obtain r v1 where a: "AccessCoins v (op_hash (prevout i)) = (r, v1)" by fastforce
  note ref = AccessCoins_refines [OF Cons.prems a]
  have "available (state_of P v) (prevout i) \<longleftrightarrow> (case r of None \<Rightarrow> False | Some c \<Rightarrow> IsAvailable c (op_n (prevout i)))"
    by (rule unspent_available) (use ref(1) in simp)
  then show ?case
    using a ref(2) Cons.IH [OF keepsD(2) [OF ref(2)]] keepsD(1) [OF ref(2)]
    by (auto intro: keeps_trans split: option.splits)
qed (simp add: keeps_refl)

lemma GetOutputFor_refines:
  assumes "view_ok P T v" "available (state_of P v) (prevout txin)"
  obtains v' c where "GetOutputFor txin v = Inr (c_vout c ! unat (op_n (prevout txin)), v')"
    "s_coins (state_of P v) (op_hash (prevout txin)) = Some c" "keeps P T v v'"
proof -
  obtain r v1 where a: "AccessCoins v (op_hash (prevout txin)) = (r, v1)" by fastforce
  note ref = AccessCoins_refines [OF assms(1) a]
  obtain c where c: "s_coins (state_of P v) (op_hash (prevout txin)) = Some c" "IsAvailable c (op_n (prevout txin))"
    using assms(2) by (auto simp: available_def split: option.splits)
  then have "r = Some c" using ref(1) by (auto simp: unspent_def split: option.splits if_splits)
  then show thesis using that a c ref(2) by (simp add: GetOutputFor_def)
qed

lemma no_nullifier_refines:
  assumes "view_ok P T v"
  shows "fst (no_nullifier ty nfs v) = list_all (\<lambda>nf. \<not> s_nullifiers (state_of P v) ty nf) nfs \<and> keeps P T v (snd (no_nullifier ty nfs v))"
  using assms
proof (induction nfs arbitrary: v)
  case (Cons nf nfs)
  obtain r v1 where a: "view_GetNullifier v ty nf = (r, v1)" by fastforce
  note ref = view_GetNullifier_refines [OF Cons.prems a]
  show ?case
    using a ref Cons.IH [OF keepsD(2) [OF ref(2)]] keepsD(1) [OF ref(2)] by (cases r) (auto intro: keeps_trans)
qed (simp add: keeps_refl)

lemma have_spends_refines:
  assumes "view_ok P T v"
  shows "fst (have_spends P sds v) = list_all (\<lambda>sd. \<not> s_nullifiers (state_of P v) SAPLING (sd_nullifier sd) \<and>
      s_anchors (state_of P v) SAPLING (sd_anchor sd) \<noteq> None) sds \<and> keeps P T v (snd (have_spends P sds v))"
  using assms
proof (induction sds arbitrary: v)
  case (Cons sd sds)
  obtain r v1 where a: "view_GetNullifier v SAPLING (sd_nullifier sd) = (r, v1)" by fastforce
  note ref = view_GetNullifier_refines [OF Cons.prems a]
  obtain t v2 where b: "view_GetAnchorAt P v1 SAPLING (sd_anchor sd) = (t, v2)" by fastforce
  note ref2 = view_GetAnchorAt_refines [OF keepsD(2) [OF ref(2)] b]
  show ?case
    using a b ref(1) [symmetric] ref2(1) [symmetric] ref(2) ref2(2) Cons.IH [OF keepsD(2) [OF ref2(2)]]
      keepsD(1) [OF ref(2)] keepsD(1) [OF ref2(2)]
    by (cases r; cases t) (auto intro: keeps_trans)
qed (simp add: keeps_refl)

text \<open>The JoinSplit requirements as a function of what the view shows: each anchor is a root of the chain, or the root
  after some earlier JoinSplits of the same transaction.\<close>

fun joinsplits_met :: "pools \<Rightarrow> chainstate \<Rightarrow> (uint256 \<rightharpoonup> tree) \<Rightarrow> JSDescription list \<Rightarrow> view_error + bool" where
  "joinsplits_met P s mid [] = Inr True"
| "joinsplits_met P s mid (js # jss) =
     (if list_ex (s_nullifiers s SPROUT) (js_nullifiers js) then Inr False
      else case (if mid (js_anchor js) = None then s_anchors s SPROUT (js_anchor js) else mid (js_anchor js)) of
        None \<Rightarrow> Inr False
      | Some tree \<Rightarrow> rbind (rfold (tree_append (P SPROUT)) (js_commitments js) tree) (\<lambda>tree'.
          let rt = tree_root (P SPROUT) tree' in joinsplits_met P s (if mid rt = None then mid(rt \<mapsto> tree') else mid) jss))"

lemma have_joinsplits_refines:
  assumes "view_ok P T v"
  shows "(case have_joinsplits P mid jss v of Inl e \<Rightarrow> joinsplits_met P (state_of P v) mid jss = Inl e
     | Inr (b, v') \<Rightarrow> joinsplits_met P (state_of P v) mid jss = Inr b \<and> keeps P T v v')"
  using assms
proof (induction jss arbitrary: v mid)
  case (Cons js jss)
  obtain b v1 where n: "no_nullifier SPROUT (js_nullifiers js) v = (b, v1)" by fastforce
  have nn: "b \<longleftrightarrow> \<not> list_ex (s_nullifiers (state_of P v) SPROUT) (js_nullifiers js)" "keeps P T v v1"
    using no_nullifier_refines [OF Cons.prems, of SPROUT "js_nullifiers js"] n by (auto simp: list_all_iff list_ex_iff)
  have k1: "state_of P v1 = state_of P v" "view_ok P T v1" using nn(2) by (simp_all add: keeps_def)
  obtain a v2 where a: "(case mid (js_anchor js) of Some tree \<Rightarrow> (Some tree, v1) | None \<Rightarrow> view_GetAnchorAt P v1 SPROUT (js_anchor js)) = (a, v2)"
    by fastforce
  have aa: "a = (if mid (js_anchor js) = None then s_anchors (state_of P v) SPROUT (js_anchor js) else mid (js_anchor js))" "keeps P T v1 v2"
    using a view_GetAnchorAt_refines [OF k1(2)] k1 by (auto simp: keeps_refl split: option.splits)
  have k2: "state_of P v2 = state_of P v" "view_ok P T v2" using aa(2) k1 by (simp_all add: keeps_def)
  have kv: "keeps P T v v2" using nn(2) aa(2) by (rule keeps_trans)
  show ?case
  proof (cases "b \<and> a \<noteq> None")
    case False
    then show ?thesis using n nn a aa kv by (cases b; cases a) auto
  next
    case True
    then obtain tree where tree: "a = Some tree" by blast
    show ?thesis
    proof (cases "rfold (tree_append (P SPROUT)) (js_commitments js) tree")
      case (Inl e)
      then show ?thesis using True n nn(1) a aa(1) [symmetric] tree by simp
    next
      case (Inr tree')
      define mid' where "mid' = (if mid (tree_root (P SPROUT) tree') = None then mid(tree_root (P SPROUT) tree' \<mapsto> tree') else mid)"
      have e1: "have_joinsplits P mid (js # jss) v = have_joinsplits P mid' jss v2"
        using True n a tree Inr by (simp add: Let_def mid'_def)
      have e2: "joinsplits_met P (state_of P v) mid (js # jss) = joinsplits_met P (state_of P v) mid' jss"
        using True nn(1) aa(1) [symmetric] tree Inr by (simp add: Let_def mid'_def)
      show ?thesis
        using Cons.IH [OF k2(2), of mid'] k2(1) kv keeps_trans unfolding e1 e2
        by (cases "have_joinsplits P mid' jss v2") auto
    qed
  qed
qed (simp add: keeps_refl)

definition shielded_met :: "pools \<Rightarrow> chainstate \<Rightarrow> ('z) CMutableTransaction_scheme \<Rightarrow> view_error + bool" where
  "shielded_met P s tx = rbind (joinsplits_met P s Map.empty (vJoinSplit tx)) (\<lambda>ok.
     Inr (ok \<and> list_all (\<lambda>sd. \<not> s_nullifiers s SAPLING (sd_nullifier sd) \<and> s_anchors s SAPLING (sd_anchor sd) \<noteq> None) (vShieldedSpend tx)))"

lemma HaveShieldedRequirements_refines:
  assumes "view_ok P T v"
  shows "(case HaveShieldedRequirements P tx v of Inl e \<Rightarrow> shielded_met P (state_of P v) tx = Inl e
     | Inr (b, v') \<Rightarrow> shielded_met P (state_of P v) tx = Inr b \<and> keeps P T v v')"
proof (cases "have_joinsplits P Map.empty (vJoinSplit tx) v")
  case (Inl e)
  then show ?thesis using have_joinsplits_refines [OF assms, of Map.empty "vJoinSplit tx"]
    by (simp add: HaveShieldedRequirements_def shielded_met_def)
next
  case (Inr r)
  obtain b v1 where r: "r = (b, v1)" by fastforce
  have j: "joinsplits_met P (state_of P v) Map.empty (vJoinSplit tx) = Inr b" "keeps P T v v1"
    using have_joinsplits_refines [OF assms, of Map.empty "vJoinSplit tx"] Inr r by simp_all
  have sp: "fst (have_spends P (vShieldedSpend tx) v1) = list_all (\<lambda>sd. \<not> s_nullifiers (state_of P v) SAPLING (sd_nullifier sd) \<and>
      s_anchors (state_of P v) SAPLING (sd_anchor sd) \<noteq> None) (vShieldedSpend tx) \<and> keeps P T v (snd (have_spends P (vShieldedSpend tx) v1))"
    using have_spends_refines [OF keepsD(2) [OF j(2)], of "vShieldedSpend tx"] keepsD(1) [OF j(2)] j(2) by (auto intro: keeps_trans)
  show ?thesis
    using Inr r j sp by (cases b) (auto simp: HaveShieldedRequirements_def shielded_met_def split: prod.splits)
qed

lemma joinsplits_met_error: "joinsplits_met P s mid jss = Inl e \<Longrightarrow> e = TreeError TreeFull"
proof (induction jss arbitrary: mid)
  case (Cons js jss)
  have app: "rfold (tree_append Q) cms t = Inl e' \<Longrightarrow> e' = TreeError TreeFull" for Q cms t e'
    by (induction cms arbitrary: t)
      (auto simp: rbind_eq_Inl tree_append_def imt_append_def split: sum.splits option.splits if_splits)
  from Cons show ?case
    by (auto simp: rbind_eq_Inl Let_def dest: app split: if_splits option.splits)
qed simp

subsection \<open>The requirements without the loop\<close>

text \<open>The tree behind a Sprout anchor, when the JoinSplits before it left the trees \<open>before\<close>: the first of these with that
  root, else the tree of that root in the chain.  \<open>roots_chain\<close> says that \<open>ins\<close> are the trees behind the anchors and
  \<open>outs\<close> those after the commitments, each JoinSplit building on the chain or on an earlier JoinSplit.\<close>

definition anchor_tree :: "pools \<Rightarrow> chainstate \<Rightarrow> tree list \<Rightarrow> uint256 \<Rightarrow> tree option" where
  "anchor_tree P s before rt = (case find (\<lambda>t. tree_root (P SPROUT) t = rt) before of Some t \<Rightarrow> Some t | None \<Rightarrow> s_anchors s SPROUT rt)"

definition roots_chain :: "pools \<Rightarrow> chainstate \<Rightarrow> tree list \<Rightarrow> JSDescription list \<Rightarrow> tree list \<Rightarrow> tree list \<Rightarrow> bool" where
  "roots_chain P s before jss ins outs \<longleftrightarrow> length ins = length jss \<and> length outs = length jss \<and>
     (\<forall>i < length jss. anchor_tree P s (before @ take i outs) (js_anchor (jss ! i)) = Some (ins ! i) \<and>
        rfold (tree_append (P SPROUT)) (js_commitments (jss ! i)) (ins ! i) = Inr (outs ! i))"

definition requirements_met :: "pools \<Rightarrow> chainstate \<Rightarrow> ('z) CMutableTransaction_scheme \<Rightarrow> bool" where
  "requirements_met P s tx \<longleftrightarrow>
     (\<forall>ty. \<forall>nf \<in> set (tx_nullifiers tx ty). \<not> s_nullifiers s ty nf) \<and>
     (\<exists>ins outs. roots_chain P s [] (vJoinSplit tx) ins outs) \<and>
     (\<forall>sd \<in> set (vShieldedSpend tx). s_anchors s SAPLING (sd_anchor sd) \<noteq> None)"

lemma roots_chain_Nil: "(\<exists>ins outs. roots_chain P s before [] ins outs) \<longleftrightarrow> True"
  by (simp add: roots_chain_def)

lemma roots_chain_Cons:
  "roots_chain P s before (js # jss) (a # ins) (b # outs) \<longleftrightarrow> anchor_tree P s before (js_anchor js) = Some a \<and>
     rfold (tree_append (P SPROUT)) (js_commitments js) a = Inr b \<and> roots_chain P s (before @ [b]) jss ins outs"
  by (auto simp: roots_chain_def All_less_Suc2)

lemma roots_chain_step:
  "(\<exists>ins outs. roots_chain P s before (js # jss) ins outs) \<longleftrightarrow>
     (\<exists>a b. anchor_tree P s before (js_anchor js) = Some a \<and> rfold (tree_append (P SPROUT)) (js_commitments js) a = Inr b \<and>
        (\<exists>ins outs. roots_chain P s (before @ [b]) jss ins outs))"
proof -
  have "\<exists>a ins' b outs'. ins = a # ins' \<and> outs = b # outs'" if "roots_chain P s before (js # jss) ins outs" for ins outs
    using that by (cases ins; cases outs) (auto simp: roots_chain_def)
  then show ?thesis by (metis roots_chain_Cons)
qed

lemma joinsplits_met_iff:
  assumes "mid = (\<lambda>rt. find (\<lambda>t. tree_root (P SPROUT) t = rt) before)"
  shows "joinsplits_met P s mid jss = Inr True \<longleftrightarrow>
    (\<forall>nf \<in> set (concat (map js_nullifiers jss)). \<not> s_nullifiers s SPROUT nf) \<and> (\<exists>ins outs. roots_chain P s before jss ins outs)"
  using assms
proof (induction jss arbitrary: mid before)
  case (Cons js jss)
  have anchor: "(if mid rt = None then s_anchors s SPROUT rt else mid rt) = anchor_tree P s before rt" for rt
    by (auto simp: Cons.prems anchor_tree_def split: option.splits)
  have find_snoc: "find Q (xs @ [x]) = (case find Q xs of Some y \<Rightarrow> Some y | None \<Rightarrow> if Q x then Some x else None)" for Q and xs :: "tree list" and x
    by (induction xs) auto
  have IH: "joinsplits_met P s (if mid (tree_root (P SPROUT) b) = None then mid(tree_root (P SPROUT) b \<mapsto> b) else mid) jss = Inr True \<longleftrightarrow>
      (\<forall>nf \<in> set (concat (map js_nullifiers jss)). \<not> s_nullifiers s SPROUT nf) \<and> (\<exists>ins outs. roots_chain P s (before @ [b]) jss ins outs)" for b
    by (rule Cons.IH) (auto simp: Cons.prems fun_eq_iff find_snoc split: option.splits)
  show ?case
    unfolding roots_chain_step joinsplits_met.simps anchor Let_def
    by (auto simp: rbind_eq_Inr IH list_ex_iff split: option.splits)
qed (simp add: roots_chain_Nil)

lemma shielded_met_iff: "shielded_met P s tx = Inr True \<longleftrightarrow> requirements_met P s tx"
proof -
  have "(\<forall>ty. \<forall>nf \<in> set (tx_nullifiers tx ty). \<not> s_nullifiers s ty nf) \<longleftrightarrow>
      (\<forall>nf \<in> set (concat (map js_nullifiers (vJoinSplit tx))). \<not> s_nullifiers s SPROUT nf) \<and>
      (\<forall>sd \<in> set (vShieldedSpend tx). \<not> s_nullifiers s SAPLING (sd_nullifier sd))"
    by (auto simp: tx_nullifiers_def split: ShieldedType.splits)
  then show ?thesis
    using joinsplits_met_iff [of Map.empty P "[]" s "vJoinSplit tx"]
    by (auto simp: shielded_met_def requirements_met_def rbind_eq_Inr list_all_iff)
qed

section \<open>Properties of the views\<close>

text \<open>C6: Flushing is invisible.  Whatever a stack of caches holds, \<^verbatim>\<open>Flush\<close> passes its assertions, and afterwards the
  view shows the same coins, anchors, nullifiers, best block, best anchors and history trees as before; what changes is
  that the layers below now show them too.  The caches keep their invariant.  The cache must know the best block and
  anchors if its parent does, because \<^verbatim>\<open>BatchWrite\<close> overwrites the parent's.\<close>

theorem Flush_transparent:
  assumes "view_ok P T v" "flush_safe v"
  shows "\<exists>v'. Flush P v = Inr v' \<and> view_ok P T v' \<and> state_of P v' = (state_of P v)\<lparr>s_base := s_coins (state_of P v)\<rparr>"
  using Flush_refines [OF assms] by metis

text \<open>C7: What a transaction needs is read off the view as it is, through any stack of caches.  \<^verbatim>\<open>HaveInputs\<close> answers
  whether every input of a transaction that is no coinbase is an unspent output.  \<^verbatim>\<open>HaveShieldedRequirements\<close> answers
  true exactly when no nullifier of the transaction is spent, every Sapling anchor is known, and every JoinSplit's
  anchor is the root after an earlier JoinSplit of the transaction or a known Sprout anchor, its commitments fitting
  into that tree; it stops with an error only when a commitment meets a full tree.  Neither changes what the
  view shows.\<close>

theorem requirements_correct:
  assumes "view_ok P T v"
  shows "(fst (HaveInputs tx v) \<longleftrightarrow> IsCoinBase tx \<or> list_all (\<lambda>i. available (state_of P v) (prevout i)) (vin tx)) \<and>
    keeps P T v (snd (HaveInputs tx v)) \<and>
    ((\<exists>v'. HaveShieldedRequirements P tx v = Inr (True, v')) \<longleftrightarrow> requirements_met P (state_of P v) tx) \<and>
    (case HaveShieldedRequirements P tx v of Inr (b, v') \<Rightarrow> keeps P T v v' | Inl e \<Rightarrow> e = TreeError TreeFull)"
proof (intro conjI)
  show "fst (HaveInputs tx v) \<longleftrightarrow> IsCoinBase tx \<or> list_all (\<lambda>i. available (state_of P v) (prevout i)) (vin tx)"
    "keeps P T v (snd (HaveInputs tx v))"
    using have_inputs_refines [OF assms, of "vin tx"] by (auto simp: HaveInputs_def keeps_refl assms)
  note ref = HaveShieldedRequirements_refines [OF assms, of tx]
  show "(\<exists>v'. HaveShieldedRequirements P tx v = Inr (True, v')) \<longleftrightarrow> requirements_met P (state_of P v) tx"
    unfolding shielded_met_iff [symmetric] using ref by (auto split: sum.splits)
  show "case HaveShieldedRequirements P tx v of Inr (b, v') \<Rightarrow> keeps P T v v' | Inl e \<Rightarrow> e = TreeError TreeFull"
    using ref joinsplits_met_error [of P "state_of P v" Map.empty "vJoinSplit tx"]
    by (auto simp: shielded_met_def rbind_eq_Inl split: sum.splits)
qed

definition sample_pools :: pools where
  "sample_pools = (\<lambda>_. \<lparr>p_combine = (\<lambda>l r d. 3 * l + r + 1), p_empty = (\<lambda>n. of_nat n + 1), p_depth = 2\<rparr>)"

definition empty_db :: coins_db where
  "empty_db = \<lparr>db_coins = Map.empty, db_anchors = (\<lambda>_. Map.empty), db_nullifiers = (\<lambda>_. Map.empty), db_best_block = None,
     db_best_anchor = (\<lambda>_. None), db_mmr_length = Map.empty, db_mmr_node = (\<lambda>_. Map.empty), db_mmr_root = Map.empty\<rparr>"

definition sample_view :: coins_view where
  "sample_view = \<lparr>v_top = CCoinsViewCache0\<lparr>cacheCoins := [5 \<mapsto> \<lparr>e_coins = sample_coins, e_dirty = True, e_fresh = True\<rparr>],
     cacheNullifiers := (\<lambda>_. [9 \<mapsto> \<lparr>n_entered = True, n_dirty = True\<rparr>])\<rparr>, v_below = [CCoinsViewCache0], v_db = empty_db\<rparr>"

lemma sample_coins_facts: "trimmed sample_coins" "\<not> IsPruned sample_coins" "IsAvailable sample_coins 4"
  by (simp_all add: sample_coins_def trimmed_def Cleanup_last CTxOut_IsNull_def IsPruned_def IsAvailable_def)

lemma sample_view_ok: "view_ok sample_pools (\<lambda>_ _. empty_tree) sample_view"
  by (auto simp: view_ok_def caches_ok_def v_caches_def sample_view_def CCoinsViewCache0_def empty_db_def coins_base_ok_def
      coins_promise_def sample_coins_facts unspent_def nullifier_promise_def anchor_base_ok_def DB_GetAnchorAt_def
      db_history_ok_def DB_GetHistoryLength_def)

lemma sample_view_state:
  "s_coins (state_of sample_pools sample_view) 5 = Some sample_coins" "s_nullifiers (state_of sample_pools sample_view) SAPLING 9"
  by (simp_all add: state_of_def caches_state_def v_caches_def sample_view_def CCoinsViewCache0_def coins_val_def unspent_def
      sample_coins_facts)

theorem Flush_transparent_witness:
  "\<exists>v'. Flush sample_pools sample_view = Inr v' \<and> s_base (state_of sample_pools v') 5 = Some sample_coins \<and>
     s_nullifiers (state_of sample_pools v') SAPLING 9"
proof -
  have "flush_safe sample_view" by (simp add: flush_safe_def sample_view_def CCoinsViewCache0_def)
  then show ?thesis using Flush_transparent [OF sample_view_ok] sample_view_state by fastforce
qed

text \<open>Two JoinSplits, the second on top of the first, and one with an unknown anchor.\<close>

definition sample_js :: "uint256 \<Rightarrow> uint256 list \<Rightarrow> uint256 list \<Rightarrow> JSDescription" where
  "sample_js rt nfs cms = \<lparr>vpub_old = 0, vpub_new = 0, js_anchor = rt, js_nullifiers = nfs, js_commitments = cms, js_ephemeralKey = 0,
     js_ciphertexts = [], js_randomSeed = 0, js_macs = [], js_proof = Groth []\<rparr>"

definition sample_spend :: "uint256 \<Rightarrow> CMutableTransaction" where
  "sample_spend rt = CMutableTransaction0\<lparr>vin := [\<lparr>prevout = \<lparr>op_hash = 5, op_n = 4\<rparr>, scriptSig = [], nSequence = 0\<rparr>],
     vJoinSplit := [sample_js 3 [1, 2] [10, 11], sample_js rt [4, 6] [12, 13]]\<rparr>"

lemma sample_roots:
  "s_anchors (state_of sample_pools sample_view) SPROUT rt = (if rt = 3 then Some empty_tree else None)"
  "tree_root (sample_pools SPROUT) \<lparr>t_left = Some 10, t_right = Some 11, t_parents = []\<rparr> = 129"
  "rfold (tree_append (sample_pools SPROUT)) [10, 11] empty_tree = Inr \<lparr>t_left = Some 10, t_right = Some 11, t_parents = []\<rparr>"
  "rfold (tree_append (sample_pools SPROUT)) [12, 13] empty_tree = Inr \<lparr>t_left = Some 12, t_right = Some 13, t_parents = []\<rparr>"
  "rfold (tree_append (sample_pools SPROUT)) [12, 13] \<lparr>t_left = Some 10, t_right = Some 11, t_parents = []\<rparr> =
     Inr \<lparr>t_left = Some 12, t_right = Some 13, t_parents = [Some 42]\<rparr>"
  by (simp_all add: state_of_def caches_state_def v_caches_def sample_view_def CCoinsViewCache0_def empty_db_def DB_GetAnchorAt_def
      empty_root_def sample_pools_def tree_root_def imt_root_def tree_append_def imt_append_def is_complete_def empty_tree_def
      root_fill.simps filler_next_def)

theorem requirements_correct_witness:
  "fst (HaveInputs (sample_spend 129) sample_view) \<and>
   (\<exists>v'. HaveShieldedRequirements sample_pools (sample_spend 129) sample_view = Inr (True, v')) \<and>
   \<not> (\<exists>v'. HaveShieldedRequirements sample_pools (sample_spend 130) sample_view = Inr (True, v'))"
proof (intro conjI)
  note c = requirements_correct [OF sample_view_ok]
  show "fst (HaveInputs (sample_spend 129) sample_view)"
    using c [of "sample_spend 129"] sample_view_state(1) sample_coins_facts(3) by (simp add: sample_spend_def available_def)
  have nf: "s_nullifiers (state_of sample_pools sample_view) SPROUT n \<longleftrightarrow> n = 9" for n
    by (simp add: state_of_def caches_state_def v_caches_def sample_view_def CCoinsViewCache0_def empty_db_def DB_GetNullifier_def)
  have chain: "(\<exists>ins outs. roots_chain sample_pools (state_of sample_pools sample_view) [] (vJoinSplit (sample_spend rt)) ins outs) \<longleftrightarrow> rt = 129 \<or> rt = 3" for rt
    unfolding sample_spend_def
    by (auto simp: roots_chain_step roots_chain_Nil sample_js_def anchor_tree_def sample_roots simp del: rfold.simps)
  have met: "requirements_met sample_pools (state_of sample_pools sample_view) (sample_spend rt) \<longleftrightarrow> rt = 129 \<or> rt = 3" for rt
    unfolding requirements_met_def chain
    by (auto simp: tx_nullifiers_def sample_spend_def sample_js_def CMutableTransaction0_def nf split: ShieldedType.splits)
  show "\<exists>v'. HaveShieldedRequirements sample_pools (sample_spend 129) sample_view = Inr (True, v')"
    using c [of "sample_spend 129"] met [of 129] by simp
  show "\<not> (\<exists>v'. HaveShieldedRequirements sample_pools (sample_spend 130) sample_view = Inr (True, v'))"
    using c [of "sample_spend 130"] met [of 130] by simp
qed

text \<open>Without \<open>flush_safe\<close> the parent's best block is lost: a child that never asked for it holds the null hash, and
  \<^verbatim>\<open>CCoinsViewCache::BatchWrite\<close>, unlike the one of the database, copies it up.\<close>

lemma Flush_forgets_best_block:
  defines "v \<equiv> \<lparr>v_top = CCoinsViewCache0, v_below = [CCoinsViewCache0\<lparr>hashBlock := 7\<rparr>], v_db = empty_db\<rparr>"
  shows "s_best_block (state_of sample_pools v) = 7" "Flush sample_pools v = Inr v' \<Longrightarrow> s_best_block (state_of sample_pools v') = 0"
  by (auto simp: v_def Flush_def BatchWrite_def state_of_def caches_state_def v_caches_def CCoinsViewCache0_def empty_db_def
      DB_GetBestBlock_def Let_def split: if_splits)

end
