(* ===== verification/Zc_History.thy ===== *)
theory Zc_History
  imports Zc_View_Refine
begin

text \<open>
  The history tree of ZIP 221 as the views keep it: \<^verbatim>\<open>PreloadHistoryTree\<close>, \<^verbatim>\<open>PushHistoryNode\<close> and
  \<^verbatim>\<open>PopHistoryNode\<close> of \<^verbatim>\<open>src/coins.cpp\<close> and the node encodings of \<^verbatim>\<open>src/zcash/History.cpp\<close>.  The Merkle mountain
  range itself belongs to a Rust library, whose three functions are the record \<open>mmr_lib\<close>.  The code fills arrays it has
  not initialised; their old content is the parameter \<open>mem\<close>.  The lemmas show that the walk over the array ends and
  finds exactly the peaks of the range, from the highest to the lowest.
\<close>

unbundle bit_operations_syntax

section \<open>Nodes and entries\<close>

definition NODE_SERIALIZED_LENGTH :: nat where "NODE_SERIALIZED_LENGTH = 171"

definition ENTRY_SERIALIZED_LENGTH :: nat where "ENTRY_SERIALIZED_LENGTH = 180"

definition copy_over :: "bytes \<Rightarrow> bytes \<Rightarrow> bytes" where
  "copy_over buf mem = buf @ drop (length buf) mem"

definition NewNode :: "bytes \<Rightarrow> uint256 \<Rightarrow> u32 \<Rightarrow> u32 \<Rightarrow> u32 \<Rightarrow> u32 \<Rightarrow> uint256 \<Rightarrow> uint256 \<Rightarrow> uint256 \<Rightarrow> u64 \<Rightarrow> u64 \<Rightarrow> u64 \<Rightarrow> bytes" where
  "NewNode mem subtreeCommitment startTime endTime startTarget endTarget startSaplingRoot endSaplingRoot subtreeTotalWork
     startHeight endHeight saplingTxCount =
     copy_over (Serialize_uint256 subtreeCommitment @ ser_writedata32 startTime @ ser_writedata32 endTime @
        ser_writedata32 startTarget @ ser_writedata32 endTarget @ Serialize_uint256 startSaplingRoot @
        Serialize_uint256 endSaplingRoot @ Serialize_uint256 subtreeTotalWork @
        WriteCompactSize startHeight @ WriteCompactSize endHeight @ WriteCompactSize saplingTxCount)
      (take NODE_SERIALIZED_LENGTH mem)"

definition NewLeaf :: "bytes \<Rightarrow> uint256 \<Rightarrow> u32 \<Rightarrow> u32 \<Rightarrow> uint256 \<Rightarrow> uint256 \<Rightarrow> u64 \<Rightarrow> u64 \<Rightarrow> bytes" where
  "NewLeaf mem commitment time target saplingRoot totalWork height saplingTxCount =
     NewNode mem commitment time time target target saplingRoot saplingRoot totalWork height height saplingTxCount"

definition NodeToEntry :: "bytes \<Rightarrow> bytes \<Rightarrow> u32 \<Rightarrow> u32 \<Rightarrow> view_error + bytes" where
  "NodeToEntry mem node left right =
     (let buf = ser_writedata8 0 @ ser_writedata32 left @ ser_writedata32 right @ node
      in if length buf \<le> ENTRY_SERIALIZED_LENGTH then Inr (copy_over buf (take ENTRY_SERIALIZED_LENGTH mem)) else Inl AssertFailed)"

definition LeafToEntry :: "bytes \<Rightarrow> bytes \<Rightarrow> view_error + bytes" where
  "LeafToEntry mem node =
     (let buf = ser_writedata8 1 @ node
      in if length buf \<le> ENTRY_SERIALIZED_LENGTH then Inr (copy_over buf (take ENTRY_SERIALIZED_LENGTH mem)) else Inl AssertFailed)"

section \<open>The positions to load\<close>

definition draftMMRNode :: "bytes \<Rightarrow> bytes \<Rightarrow> u32 \<Rightarrow> u32 \<Rightarrow> view_error + u32 \<times> bytes" where
  "draftMMRNode mem nodeData alt peak_pos =
     rbind (if alt = 0 then LeafToEntry mem nodeData
            else NodeToEntry mem nodeData (peak_pos - push_bit (unat alt) 1) (peak_pos - 1)) (\<lambda>newEntry.
     Inr (peak_pos, newEntry))"

lemma unat_halve: "unat (drop_bit 1 (x :: u32)) = unat x div 2"
  by (simp add: drop_bit_eq_div unat_div_distrib)

lemma drop_bit_less:
  assumes "drop_bit 1 (x :: u32) \<noteq> 0"
  shows "unat (drop_bit 1 x) < unat x"
proof -
  have "unat (drop_bit 1 x) \<noteq> 0" using assms unat_eq_zero by blast
  then show ?thesis unfolding unat_halve by linarith
qed

function log2_loop :: "u32 \<Rightarrow> u32 \<Rightarrow> u32" where
  "log2_loop x log = (let x' = drop_bit 1 x in if x' = 0 then log else log2_loop x' (log + 1))"
  by pat_completeness auto
termination
  by (relation "measure (\<lambda>(x, _). unat x)") (auto dest: drop_bit_less simp del: One_nat_def)

declare log2_loop.simps [simp del]

definition floor_log2 :: "u32 \<Rightarrow> view_error + u32" where
  "floor_log2 x = (if x = 0 then Inl AssertFailed else Inr (log2_loop x 0))"

definition altitude :: "u32 \<Rightarrow> view_error + u32" where
  "altitude n = rbind (floor_log2 (n + 1)) (\<lambda>l. Inr (l - 1))"

text \<open>The loop that walks over the peaks: the positions and altitudes it drafts, in order.\<close>

partial_function (option) peak_walk :: "u64 \<Rightarrow> u32 \<Rightarrow> u32 \<Rightarrow> (u32 \<times> u32) list \<Rightarrow> (u32 \<times> u32) list option" where
  "peak_walk treeLength alt peak_pos acc =
     (if alt = 0 then Some acc
      else let (peak_pos1, alt1) = (if treeLength \<le> ucast peak_pos then (peak_pos - push_bit (unat alt) 1, alt - 1) else (peak_pos, alt))
      in if ucast peak_pos1 < treeLength
         then peak_walk treeLength alt1 (peak_pos1 + push_bit (unat alt1 + 1) 1 - 1) (acc @ [(peak_pos1, alt1)])
         else peak_walk treeLength alt1 peak_pos1 acc)"

lemma unat_pred:
  assumes "0 < (w :: u32)"
  shows "unat (w - 1) = unat w - 1" "unat (w - 1) < unat w"
proof -
  have "0 < unat w" using assms by (simp add: word_less_nat_alt)
  moreover show "unat (w - 1) = unat w - 1" using assms by (intro unat_minus_one) auto
  ultimately show "unat (w - 1) < unat w" by linarith
qed

text \<open>The second loop, down the right slope of the last peak.\<close>

function slope_walk :: "u32 \<Rightarrow> u32 \<Rightarrow> (u32 \<times> u32) list" where
  "slope_walk alt peak_pos =
     (if 0 < alt
      then (peak_pos - push_bit (unat alt) 1, alt - 1) # (peak_pos - 1, alt - 1) # slope_walk (alt - 1) (peak_pos - 1)
      else [])"
  by pat_completeness auto
termination
  by (relation "measure (\<lambda>(alt, _). unat alt)") (simp_all add: unat_pred(2))

declare slope_walk.simps [simp del]

text \<open>Which nodes are loaded does not depend on their content: first the positions, then the nodes.\<close>

definition preload_positions :: "u64 \<Rightarrow> bool \<Rightarrow> view_error + nat \<times> (u32 \<times> u32) list" where
  "preload_positions treeLength extra =
     (if treeLength = 0 then Inl NoHistoryTree
      else if treeLength = 1 then Inr (1, [(0, 0)])
      else rbind (altitude (ucast treeLength)) (\<lambda>alt.
        case peak_walk treeLength alt (push_bit (unat alt + 1) 1 - 2) [] of
          None \<Rightarrow> Inl NoHistoryTree
        | Some peaks \<Rightarrow> Inr (length peaks, peaks @ (if extra
            then (let (last_peak_pos, last_peak_alt) = (if peaks = [] then (0, 0) else last peaks) in slope_walk last_peak_alt last_peak_pos)
            else []))))"

fun load_nodes :: "bytes \<Rightarrow> coins_db \<Rightarrow> u32 \<Rightarrow> (u32 \<times> u32) list \<Rightarrow> caches \<Rightarrow> view_error + (u32 \<times> bytes) list \<times> caches" where
  "load_nodes mem db epochId [] cs = Inr ([], cs)"
| "load_nodes mem db epochId ((pos, alt) # ps) cs =
     rbind (GetHistoryAt db cs epochId (ucast pos)) (\<lambda>(node, cs1).
     rbind (draftMMRNode mem node alt pos) (\<lambda>entry.
     rbind (load_nodes mem db epochId ps cs1) (\<lambda>(entries, cs2). Inr (entry # entries, cs2))))"

definition PreloadHistoryTree :: "bytes \<Rightarrow> u32 \<Rightarrow> bool \<Rightarrow> coins_view \<Rightarrow> view_error + (nat \<times> (u32 \<times> bytes) list) \<times> coins_view" where
  "PreloadHistoryTree mem epochId extra v =
     (case GetHistoryLengthRoot (v_db v) (v_caches v) epochId of ((treeLength, _), cs) \<Rightarrow>
      rbind (preload_positions treeLength extra) (\<lambda>(total_peaks, ps).
      rbind (load_nodes mem (v_db v) epochId ps cs) (\<lambda>(entries, cs').
      Inr ((total_peaks, entries), set_caches cs' v))))"

section \<open>Pushing and popping\<close>

text \<open>The library: \<open>mmr_append\<close> and \<open>mmr_delete\<close> return no node and leave the root null when they fail.\<close>

record mmr_lib =
  mmr_hash_node :: "u32 \<Rightarrow> bytes \<Rightarrow> uint256 option"
  mmr_append :: "u32 \<Rightarrow> u32 \<Rightarrow> (u32 \<times> bytes) list \<Rightarrow> bytes \<Rightarrow> bytes list \<times> uint256"
  mmr_delete :: "u32 \<Rightarrow> u32 \<Rightarrow> (u32 \<times> bytes) list \<Rightarrow> nat \<Rightarrow> u32 \<times> uint256"

definition with_history :: "u32 \<Rightarrow> (HistoryCache \<Rightarrow> HistoryCache) \<Rightarrow> coins_view \<Rightarrow> coins_view" where
  "with_history epochId f v = v\<lparr>v_top := (v_top v)\<lparr>historyCacheMap := (historyCacheMap (v_top v))(epochId :=
     map_option f (historyCacheMap (v_top v) epochId))\<rparr>\<rparr>"

definition select_history :: "u32 \<Rightarrow> coins_view \<Rightarrow> HistoryCache \<times> coins_view" where
  "select_history epochId v =
     (case SelectHistoryCache (v_db v) (v_top v) (v_below v) epochId of (hc, c, base) \<Rightarrow> (hc, v\<lparr>v_top := c, v_below := base\<rparr>))"

definition PushHistoryNode :: "mmr_lib \<Rightarrow> bytes \<Rightarrow> u32 \<Rightarrow> bytes \<Rightarrow> coins_view \<Rightarrow> view_error + coins_view" where
  "PushHistoryNode L mem epochId node v =
     (case select_history epochId v of (historyCache, v1) \<Rightarrow>
      if h_length historyCache = 0
      then (case mmr_hash_node L epochId node of None \<Rightarrow> Inl HistoryHashFailed
            | Some root \<Rightarrow> Inr (with_history epochId (\<lambda>h. (history_Extend node h)\<lparr>h_root := root\<rparr>) v1))
      else rbind (PreloadHistoryTree mem epochId False v1) (\<lambda>((_, entries), v2).
        let (appends, newRoot) = mmr_append L epochId (ucast (h_length historyCache)) entries node
        in Inr (with_history epochId (\<lambda>h. (fold history_Extend appends h)\<lparr>h_root := newRoot\<rparr>) v2)))"

definition PopHistoryNode :: "mmr_lib \<Rightarrow> bytes \<Rightarrow> u32 \<Rightarrow> coins_view \<Rightarrow> view_error + coins_view" where
  "PopHistoryNode L mem epochId v =
     (case select_history epochId v of (historyCache, v1) \<Rightarrow>
      if h_length historyCache = 0 \<or> h_length historyCache = 1
      then Inr (with_history epochId (\<lambda>h. (history_Truncate 0 h)\<lparr>h_root := 0\<rparr>) v1)
      else if h_length historyCache = 2 then Inl TwoHistoryNodes
      else if h_length historyCache = 3
      then rbind (GetHistoryAt (v_db v1) (v_caches v1) epochId 0) (\<lambda>(node, cs).
        case mmr_hash_node L epochId node of None \<Rightarrow> Inl HistoryHashFailed
        | Some newRoot \<Rightarrow> Inr (with_history epochId (\<lambda>h. (history_Truncate 1 h)\<lparr>h_root := newRoot\<rparr>) (set_caches cs v1)))
      else rbind (PreloadHistoryTree mem epochId True v1) (\<lambda>((peak_count, entries), v2).
        let (numberOfDeletes, newRoot) = mmr_delete L epochId (ucast (h_length historyCache)) entries peak_count
        in Inr (with_history epochId (\<lambda>h. (history_Truncate (h_length h - ucast numberOfDeletes) h)\<lparr>h_root := newRoot\<rparr>) v2)))"

section \<open>The peaks of a mountain range\<close>

text \<open>A range of \<open>m\<close> leaves has one complete tree for each bit of \<open>m\<close>, the highest first; the tree of altitude \<open>b\<close>
  takes \<open>2 ^ (b + 1) - 1\<close> places of the array and its root is the last of them.\<close>

fun mmr_size :: "nat \<Rightarrow> nat \<Rightarrow> nat" where
  "mmr_size 0 m = 0"
| "mmr_size (Suc b) m = (if 2 ^ b \<le> m then 2 ^ (b + 1) - 1 + mmr_size b (m - 2 ^ b) else mmr_size b m)"

fun mmr_peaks :: "nat \<Rightarrow> nat \<Rightarrow> nat \<Rightarrow> (nat \<times> nat) list" where
  "mmr_peaks 0 offset m = []"
| "mmr_peaks (Suc b) offset m =
     (if 2 ^ b \<le> m then (offset + 2 ^ (b + 1) - 2, b) # mmr_peaks b (offset + 2 ^ (b + 1) - 1) (m - 2 ^ b)
      else mmr_peaks b offset m)"

lemma mmr_size_bound: "m < 2 ^ b \<Longrightarrow> mmr_size b m \<le> 2 * m \<and> (0 < m \<longrightarrow> mmr_size b m < 2 * m)"
proof (induction b arbitrary: m)
  case (Suc b)
  show ?case
  proof (cases "2 ^ b \<le> m")
    case True
    have "m - 2 ^ b < 2 ^ b" using Suc.prems True by simp
    then show ?thesis using True Suc.IH [of "m - 2 ^ b"] by simp (linarith)
  qed (use Suc in simp)
qed simp

text \<open>The nodes on the right slope of the tree of altitude \<open>a\<close> at \<open>offset\<close> and their siblings, from the top down.\<close>

fun mmr_slope :: "nat \<Rightarrow> nat \<Rightarrow> (nat \<times> nat) list" where
  "mmr_slope 0 offset = []"
| "mmr_slope (Suc a) offset =
     (offset + 2 ^ (a + 1) - 2, a) # (offset + 2 ^ (a + 1) - 1 + 2 ^ (a + 1) - 2, a) # mmr_slope a (offset + 2 ^ (a + 1) - 1)"

definition as_words :: "nat \<times> nat \<Rightarrow> u32 \<times> u32" where
  "as_words p = (of_nat (fst p), of_nat (snd p))"

lemma unat_u32: "n < 2 ^ 32 \<Longrightarrow> unat (of_nat n :: u32) = n"
  by (simp add: unat_of_nat)

lemma push_bit_one: "a < 32 \<Longrightarrow> push_bit a (1 :: u32) = of_nat (2 ^ a)"
  by (simp add: push_bit_eq_mult)

lemma log2_loop_eq: "2 ^ k \<le> unat x \<Longrightarrow> unat x < 2 ^ (k + 1) \<Longrightarrow> log2_loop x l = l + of_nat k"
proof (induction k arbitrary: x l)
  case 0
  then have "unat (drop_bit 1 x) = 0" unfolding unat_halve by simp
  then have "drop_bit 1 x = 0" by (simp only: unat_eq_zero)
  then show ?case by (subst log2_loop.simps) simp
next
  case (Suc k)
  have "2 ^ k \<le> unat (drop_bit 1 x)" "unat (drop_bit 1 x) < 2 ^ (k + 1)" unfolding unat_halve using Suc.prems by simp_all
  note IH = Suc.IH [OF this, of "l + 1"]
  have "unat (drop_bit 1 x) \<noteq> 0" using \<open>2 ^ k \<le> unat (drop_bit 1 x)\<close> by (metis le_zero_eq power_not_zero zero_neq_numeral)
  then have "drop_bit 1 x \<noteq> 0" by (simp only: unat_eq_zero not_False_eq_True)
  then show ?case using IH by (subst log2_loop.simps) (simp add: Let_def)
qed

lemma unat_u64_of_u32: "unat (ucast (w :: u32) :: u64) = unat w"
proof -
  have "unat w < 2 ^ 32" using unsigned_less [of w, where ?'a = nat] by simp
  then have "unat w < 2 ^ 64" by (rule less_trans) simp
  then show ?thesis by (simp add: unsigned_ucast_eq take_bit_nat_eq_self)
qed

lemma of_nat_minus: "b \<le> a \<Longrightarrow> (of_nat a :: u32) - of_nat b = of_nat (a - b)"
  by simp

lemma peak_outside: "r < 2 ^ a \<Longrightarrow> off + mmr_size a r \<le> off + 2 ^ (a + 1) - 2"
proof -
  assume "r < 2 ^ a"
  moreover have "(1::nat) \<le> 2 ^ a" by simp
  ultimately show ?thesis using mmr_size_bound [of r a] unfolding power_add power_one_right by (cases "r = 0") linarith+
qed

lemma peak_walk_from:
  assumes "r < 2 ^ a" "unat N = off + mmr_size a r" "off + 2 ^ (a + 1) \<le> 2 ^ 32" "a < 31"
  shows "peak_walk N (of_nat a) (of_nat (off + 2 ^ (a + 1) - 2)) acc = Some (acc @ map as_words (mmr_peaks a off r))"
  using assms
proof (induction a arbitrary: r off acc)
  case 0
  then show ?case by (subst peak_walk.simps) simp
next
  case (Suc a)
  let ?pos = "of_nat (off + 2 ^ (Suc a + 1) - 2) :: u32" and ?alt = "of_nat (Suc a) :: u32"
  let ?pos1 = "of_nat (off + 2 ^ (a + 1) - 2) :: u32"
  have pw: "(2::nat) ^ (a + 1) = 2 * 2 ^ a" "(2::nat) ^ (Suc a + 1) = 4 * 2 ^ a" "(1::nat) \<le> 2 ^ a" by simp_all
  have alt: "unat ?alt = Suc a" by (rule unat_u32) (use Suc.prems(4) in simp)
  then have alt0: "?alt \<noteq> 0" by (metis nat.distinct(1) unat_0)
  have alt1: "?alt - 1 = of_nat a" "unat (of_nat a :: u32) = a" using unat_u32 [of a] Suc.prems(4) by simp_all
  have "off + 2 ^ (Suc a + 1) - 2 = off + 2 ^ (a + 1) - 2 + 2 ^ (a + 1)" using pw(3) unfolding pw(1,2) by linarith
  then have pos1: "?pos - push_bit (Suc a) 1 = ?pos1" using Suc.prems(4) by (simp add: push_bit_one of_nat_minus del: of_nat_diff)
  have u: "unat (ucast ?pos :: u64) = off + 2 ^ (Suc a + 1) - 2" "unat (ucast ?pos1 :: u64) = off + 2 ^ (a + 1) - 2"
    unfolding unat_u64_of_u32 using Suc.prems(3) pw by (intro unat_u32; linarith)+
  have left: "N \<le> ucast ?pos" using peak_outside [OF Suc.prems(1), of off] Suc.prems(2) u(1) by (simp add: word_le_nat_alt)
  have head: "peak_walk N ?alt ?pos acc =
      (if ucast ?pos1 < N then peak_walk N (of_nat a) (?pos1 + push_bit (a + 1) 1 - 1) (acc @ [(?pos1, of_nat a)])
       else peak_walk N (of_nat a) ?pos1 acc)"
    using left alt0 by (subst peak_walk.simps) (simp only: if_True if_False Let_def prod.case alt pos1 alt1 if_not_P)
  show ?case
  proof (cases "2 ^ a \<le> r")
    case True
    have N: "unat N = (off + 2 ^ (a + 1) - 1) + mmr_size a (r - 2 ^ a)" 
      using True Suc.prems(2) pw(3) unfolding mmr_size.simps pw(1) by (simp only: if_True)
    have "ucast ?pos1 < N" using N u(2) pw unfolding word_less_nat_alt by linarith
    have "off + 2 ^ (a + 1) - 2 + 2 ^ (a + 1) - 1 = (off + 2 ^ (a + 1) - 1) + 2 ^ (a + 1) - 2" using pw(3) unfolding pw(1) by linarith
    moreover have "?pos1 + push_bit (a + 1) 1 - 1 = of_nat (off + 2 ^ (a + 1) - 2 + 2 ^ (a + 1)) - of_nat 1"
      unfolding of_nat_add [of "off + 2 ^ (a + 1) - 2"] of_nat_1 using Suc.prems(4) by (subst push_bit_one) simp_all
    moreover have "(of_nat (off + 2 ^ (a + 1) - 2 + 2 ^ (a + 1)) :: u32) - of_nat 1 = of_nat (off + 2 ^ (a + 1) - 2 + 2 ^ (a + 1) - 1)"
      by (rule of_nat_minus) (use pw in linarith)
    ultimately have "?pos1 + push_bit (a + 1) 1 - 1 = of_nat ((off + 2 ^ (a + 1) - 1) + 2 ^ (a + 1) - 2)" by argo
    then show ?thesis
      using head \<open>ucast ?pos1 < N\<close> Suc.IH [OF _ N, of "acc @ [(?pos1, of_nat a)]"] Suc.prems True pw
      by (simp add: as_words_def)
  next
    case False
    have N: "unat N = off + mmr_size a r" using False Suc.prems(2) by simp
    have "\<not> ucast ?pos1 < N" using peak_outside [of r a off] False N u(2) by (simp add: word_less_nat_alt)
    then show ?thesis using head Suc.IH [OF _ N, of acc] Suc.prems False by simp
  qed
qed

lemma mmr_stable: "m < 2 ^ a \<Longrightarrow> mmr_size (a + k) m = mmr_size a m \<and> mmr_peaks (a + k) off m = mmr_peaks a off m"
proof (induction k)
  case (Suc k)
  have "(2::nat) ^ a \<le> 2 ^ (a + k)" by simp
  then have "\<not> 2 ^ (a + k) \<le> m" using Suc.prems by linarith
  then show ?case using Suc by simp
qed simp

lemma highest_bit:
  assumes "0 < (m :: nat)"
  obtains a where "2 ^ a \<le> m" "m < 2 ^ Suc a"
  using ex_power_ivl1 [of 2 m] assms by auto

lemma slope_walk_eq:
  assumes "off + 2 ^ (a + 1) \<le> 2 ^ 32" "a < 31"
  shows "slope_walk (of_nat a) (of_nat (off + 2 ^ (a + 1) - 2)) = map as_words (mmr_slope a off)"
  using assms
proof (induction a arbitrary: off)
  case 0
  then show ?case by (subst slope_walk.simps) simp
next
  case (Suc a)
  let ?pos = "of_nat (off + 2 ^ (Suc a + 1) - 2) :: u32" and ?alt = "of_nat (Suc a) :: u32"
  have pw: "(2::nat) ^ (a + 1) = 2 * 2 ^ a" "(2::nat) ^ (Suc a + 1) = 4 * 2 ^ a" "(1::nat) \<le> 2 ^ a" by simp_all
  have alt: "unat ?alt = Suc a" by (rule unat_u32) (use Suc.prems(2) in simp)
  then have alt0: "0 < ?alt" "?alt - 1 = of_nat a" by (simp_all add: word_less_nat_alt)
  have "off + 2 ^ (Suc a + 1) - 2 = off + 2 ^ (a + 1) - 2 + 2 ^ (a + 1)" using pw(3) unfolding pw(1,2) by linarith
  then have l: "?pos - push_bit (Suc a) 1 = of_nat (off + 2 ^ (a + 1) - 2)"
    using Suc.prems(2) by (simp add: push_bit_one of_nat_minus del: of_nat_diff)
  have "off + 2 ^ (Suc a + 1) - 2 - 1 = off + 2 ^ (a + 1) - 1 + 2 ^ (a + 1) - 2" using pw(3) unfolding pw(1,2) by linarith
  moreover have "?pos - of_nat 1 = of_nat (off + 2 ^ (Suc a + 1) - 2 - 1)" by (rule of_nat_minus) (use pw in linarith)
  ultimately have r: "?pos - 1 = of_nat (off + 2 ^ (a + 1) - 1 + 2 ^ (a + 1) - 2)" unfolding of_nat_1 by argo
  have IH: "slope_walk (of_nat a) (of_nat (off + 2 ^ (a + 1) - 1 + 2 ^ (a + 1) - 2)) = map as_words (mmr_slope a (off + 2 ^ (a + 1) - 1))"
    by (rule Suc.IH) (use Suc.prems pw in linarith)+
  show ?case
    using alt0 by (subst slope_walk.simps) (simp only: alt if_True l r IH mmr_slope.simps list.map as_words_def fst_conv snd_conv)
qed

lemma mmr_peaks_bounds: "(p, b) \<in> set (mmr_peaks a off r) \<Longrightarrow> b < a \<and> 2 ^ (b + 1) \<le> p + 2 \<and> p + 2 \<le> off + 2 ^ (a + 1)"
proof (induction a arbitrary: off r)
  case (Suc a)
  define q where "q = (2::nat) ^ a"
  have pw: "(2::nat) ^ (a + 1) = 2 * q" "(2::nat) ^ (Suc a + 1) = 4 * q" "1 \<le> q" unfolding q_def by simp_all
  consider "2 ^ a \<le> r" "(p, b) = (off + 2 ^ (a + 1) - 2, a)"
    | "2 ^ a \<le> r" "(p, b) \<in> set (mmr_peaks a (off + 2 ^ (a + 1) - 1) (r - 2 ^ a))"
    | "(p, b) \<in> set (mmr_peaks a off r)"
    using Suc.prems by (auto split: if_splits)
  then show ?case
  proof cases
    case 1
    then have "p = off + 2 * q - 2" and b: "b = a" using pw(1) by simp_all
    then show ?thesis using pw(3) unfolding b pw(1,2) by (intro conjI; linarith)
  next
    case 2
    have "p + 2 \<le> off + 2 ^ (a + 1) - 1 + 2 ^ (a + 1)" "b < a" "2 ^ (b + 1) \<le> p + 2" using Suc.IH [OF 2(2)] by simp_all
    then show ?thesis using pw by (intro conjI; linarith)
  next
    case 3
    have "p + 2 \<le> off + 2 ^ (a + 1)" "b < a" "2 ^ (b + 1) \<le> p + 2" using Suc.IH [OF 3] by simp_all
    then show ?thesis using pw by (intro conjI; linarith)
  qed
qed simp

lemma peak_walk_peaks:
  assumes "2 ^ a \<le> m" "m < 2 ^ Suc a" "0 < a" "a < 30" "unat N = mmr_size (Suc a) m"
  shows "peak_walk N (of_nat a) (push_bit (a + 1) 1 - 2) [] = Some (map as_words (mmr_peaks (Suc a) 0 m))"
proof -
  let ?pos = "of_nat (2 ^ (a + 1) - 2) :: u32"
  have pw: "(2::nat) ^ (a + 1) = 2 * 2 ^ a" "(1::nat) \<le> 2 ^ a" by simp_all
  have "(2::nat) ^ a \<le> 2 ^ 29" using assms(4) by (intro power_increasing) simp_all
  then have b: "(2::nat) ^ a \<le> 536870912" by simp
  have pos: "push_bit (a + 1) 1 - 2 = ?pos"
    using assms(4) of_nat_minus [of 2 "2 ^ (a + 1)"] pw by (subst push_bit_one) simp_all
  have u: "unat (ucast ?pos :: u64) = 2 ^ (a + 1) - 2" unfolding unat_u64_of_u32 by (rule unat_u32) (use pw b in simp)
  have alt: "unat (of_nat a :: u32) = a" by (rule unat_u32) (use assms(4) in simp)
  have alt0: "(of_nat a :: u32) \<noteq> 0" using alt assms(3) by (metis less_irrefl unat_0)
  have N: "unat N = (2 ^ (a + 1) - 1) + mmr_size a (m - 2 ^ a)" using assms(1,5) by simp
  then have "\<not> N \<le> ucast ?pos" "ucast ?pos < N" using u pw unfolding word_le_nat_alt word_less_nat_alt by linarith+
  then have head: "peak_walk N (of_nat a) ?pos [] = peak_walk N (of_nat a) (?pos + push_bit (a + 1) 1 - 1) [(?pos, of_nat a)]"
    using alt0 by (subst peak_walk.simps) (simp only: if_True if_False if_not_P Let_def prod.case alt append_Nil)
  have "?pos + push_bit (a + 1) 1 - 1 = of_nat (2 ^ (a + 1) - 2 + 2 ^ (a + 1)) - of_nat 1"
    unfolding of_nat_add [of "2 ^ (a + 1) - 2"] of_nat_1 using assms(4) by (subst push_bit_one) simp_all
  also have "\<dots> = of_nat (2 ^ (a + 1) - 2 + 2 ^ (a + 1) - 1)" by (rule of_nat_minus) (use pw in linarith)
  also have "2 ^ (a + 1) - 2 + 2 ^ (a + 1) - 1 = (2 ^ (a + 1) - 1) + 2 ^ (a + 1) - (2::nat)" using pw by linarith
  finally have step: "?pos + push_bit (a + 1) 1 - 1 = of_nat ((2 ^ (a + 1) - 1) + 2 ^ (a + 1) - 2)" .
  have "peak_walk N (of_nat a) (of_nat ((2 ^ (a + 1) - 1) + 2 ^ (a + 1) - 2)) [(?pos, of_nat a)] =
      Some ([(?pos, of_nat a)] @ map as_words (mmr_peaks a (2 ^ (a + 1) - 1) (m - 2 ^ a)))"
    by (rule peak_walk_from) (use N b assms pw in simp_all)
  then show ?thesis using assms(1) unfolding pos head step by (simp add: as_words_def)
qed

lemma altitude_eq:
  assumes "2 ^ a \<le> m" "m < 2 ^ Suc a" "a < 30" "N = of_nat (mmr_size (Suc a) m)"
  shows "altitude N = Inr (of_nat a)"
proof -
  have pw: "(2::nat) ^ (a + 1) = 2 * 2 ^ a" "(1::nat) \<le> 2 ^ a" by simp_all
  have "(2::nat) ^ a \<le> 2 ^ 29" using assms(3) by (intro power_increasing) simp_all
  then have b: "(2::nat) ^ a \<le> 536870912" by simp
  have s: "mmr_size (Suc a) m < 2 * m" "2 ^ (a + 1) - 1 \<le> mmr_size (Suc a) m"
    using mmr_size_bound [OF assms(2)] assms(1) pw by simp_all
  have "N + 1 = of_nat (mmr_size (Suc a) m + 1)" by (simp only: assms(4) of_nat_add of_nat_1)
  then have u: "unat (N + 1) = mmr_size (Suc a) m + 1"
    using unat_u32 [of "mmr_size (Suc a) m + 1"] s(1) assms(2) b by (simp del: mmr_size.simps of_nat_add add: add.commute)
  then have "N + 1 \<noteq> 0" by (metis Suc_eq_plus1 nat.distinct(1) unat_0)
  moreover have "log2_loop (N + 1) 0 = 0 + of_nat (a + 1)"
    by (rule log2_loop_eq) (use u s assms(2) pw in simp_all)
  ultimately show ?thesis by (simp add: altitude_def floor_log2_def)
qed

lemma preload_large:
  assumes "2 ^ a \<le> m" "m < 2 ^ Suc a" "0 < a" "a < 30"
  defines "ps \<equiv> mmr_peaks (Suc a) 0 m"
  shows "preload_positions (of_nat (mmr_size (Suc a) m)) extra = Inr (length ps, map as_words (ps @ (if extra
    then mmr_slope (snd (last ps)) (fst (last ps) + 2 - 2 ^ (snd (last ps) + 1)) else [])))"
proof -
  let ?N = "of_nat (mmr_size (Suc a) m) :: u64"
  have "(2::nat) ^ a \<le> 2 ^ 29" using assms(4) by (intro power_increasing) simp_all
  then have b: "(2::nat) ^ a \<le> 536870912" by simp
  have "(2::nat) ^ 1 \<le> 2 ^ a" using assms(3) by (intro power_increasing) simp_all
  then have s: "mmr_size (Suc a) m < 2 * m" "3 \<le> mmr_size (Suc a) m"
    using mmr_size_bound [OF assms(2)] assms(1) by simp_all
  have m: "m < 1073741824" using assms(2) b by simp
  have N: "unat ?N = mmr_size (Suc a) m" by (rule unat_u64) (use s m in simp)
  then have "?N \<noteq> 0" "?N \<noteq> 1" using s(2) by (metis not_numeral_le_zero unat_0, metis numeral_le_one_iff semiring_norm(70) unat_1)
  moreover have "altitude (ucast ?N) = Inr (of_nat a)"
  proof (rule altitude_eq [OF assms(1,2,4)])
    have "unat (ucast ?N :: u32) = unat (of_nat (mmr_size (Suc a) m) :: u32)"
      using N s m by (simp add: unsigned_ucast_eq unat_of_nat take_bit_nat_eq_self del: mmr_size.simps)
    then show "ucast ?N = (of_nat (mmr_size (Suc a) m) :: u32)" by (simp only: word_unat_eq_iff)
  qed
  moreover have "unat (of_nat a :: u32) = a" by (rule unat_u32) (use assms(4) in simp)
  moreover have "peak_walk ?N (of_nat a) (push_bit (a + 1) 1 - 2) [] = Some (map as_words ps)"
    unfolding ps_def by (rule peak_walk_peaks [OF assms(1-4) N])
  moreover have "slope_walk (snd (last (map as_words ps))) (fst (last (map as_words ps))) =
      map as_words (mmr_slope (snd (last ps)) (fst (last ps) + 2 - 2 ^ (snd (last ps) + 1)))" and ne: "ps \<noteq> []"
  proof -
    show ne: "ps \<noteq> []" using assms(1) by (simp add: ps_def)
    obtain p c where l: "last ps = (p, c)" by fastforce
    then have "(p, c) \<in> set ps" using last_in_set [OF ne] by simp
    then have c: "c < Suc a" "2 ^ (c + 1) \<le> p + 2" "p + 2 \<le> 2 ^ (Suc a + 1)" using mmr_peaks_bounds unfolding ps_def by fastforce+
    have e: "p + 2 - 2 ^ (c + 1) + 2 ^ (c + 1) - 2 = p" using c(2) by simp
    have "slope_walk (of_nat c) (of_nat (p + 2 - 2 ^ (c + 1) + 2 ^ (c + 1) - 2)) = map as_words (mmr_slope c (p + 2 - 2 ^ (c + 1)))"
      by (rule slope_walk_eq) (use c b assms(4) in simp_all)
    then show "slope_walk (snd (last (map as_words ps))) (fst (last (map as_words ps))) =
      map as_words (mmr_slope (snd (last ps)) (fst (last ps) + 2 - 2 ^ (snd (last ps) + 1)))"
      using l ne unfolding e by (simp add: last_map as_words_def)
  qed
  ultimately show ?thesis by (simp add: preload_positions_def Let_def case_prod_beta)
qed

section \<open>Pushing and popping on what the view shows\<close>

fun draft_nodes :: "bytes \<Rightarrow> bytes list \<Rightarrow> (u32 \<times> u32) list \<Rightarrow> view_error + (u32 \<times> bytes) list" where
  "draft_nodes mem nodes [] = Inr []"
| "draft_nodes mem nodes ((pos, alt) # ps) =
     rbind (if unat pos < length nodes then Inr (nodes ! unat pos) else Inl InvalidHistoryRequest) (\<lambda>node.
     rbind (draftMMRNode mem node alt pos) (\<lambda>entry.
     rbind (draft_nodes mem nodes ps) (\<lambda>entries. Inr (entry # entries))))"

definition history_entries :: "bytes \<Rightarrow> bytes list \<Rightarrow> bool \<Rightarrow> view_error + nat \<times> (u32 \<times> bytes) list" where
  "history_entries mem nodes extra = rbind (preload_positions (of_nat (length nodes)) extra) (\<lambda>(n, ps).
     rbind (draft_nodes mem nodes ps) (\<lambda>es. Inr (n, es)))"

definition push_history :: "mmr_lib \<Rightarrow> bytes \<Rightarrow> u32 \<Rightarrow> bytes \<Rightarrow> bytes list \<Rightarrow> view_error + bytes list \<times> uint256" where
  "push_history L mem epochId node nodes =
     (if nodes = [] then (case mmr_hash_node L epochId node of None \<Rightarrow> Inl HistoryHashFailed | Some r \<Rightarrow> Inr ([node], r))
      else rbind (history_entries mem nodes False) (\<lambda>(_, es).
        case mmr_append L epochId (of_nat (length nodes)) es node of (xs, r) \<Rightarrow> Inr (nodes @ xs, r)))"

definition pop_history :: "mmr_lib \<Rightarrow> bytes \<Rightarrow> u32 \<Rightarrow> bytes list \<Rightarrow> view_error + bytes list \<times> uint256" where
  "pop_history L mem epochId nodes =
     (if length nodes \<le> 1 then Inr ([], 0)
      else if length nodes = 2 then Inl TwoHistoryNodes
      else if length nodes = 3
      then (case mmr_hash_node L epochId (nodes ! 0) of None \<Rightarrow> Inl HistoryHashFailed | Some r \<Rightarrow> Inr (take 1 nodes, r))
      else rbind (history_entries mem nodes True) (\<lambda>(peak_count, es).
        case mmr_delete L epochId (of_nat (length nodes)) es peak_count of (n, r) \<Rightarrow>
          Inr (take (length nodes - unat n) nodes, r)))"

text \<open>What the views rely on: an append adds few nodes, a delete removes no more than there are.\<close>

definition mmr_small :: "mmr_lib \<Rightarrow> bool" where
  "mmr_small L \<longleftrightarrow> (\<forall>ep n es x. length (fst (mmr_append L ep n es x)) \<le> 32) \<and>
     (\<forall>ep n es k. unat (fst (mmr_delete L ep n es k)) \<le> unat n)"

lemma GetHistoryAt_frame:
  "GetHistoryAt db cs k index = Inr (n, cs') \<Longrightarrow>
   length cs' = length cs \<and> frame_coins cs cs' \<and> frame_anchors cs cs' \<and> frame_nullifiers cs cs' \<and> frame_best cs cs'"
proof (induction cs arbitrary: cs')
  case (Cons c cs)
  obtain h c' b where s: "SelectHistoryCache db c cs k = (h, c', b)" by (metis prod_cases3)
  have fb: "length b = length cs \<and> frame_coins cs b \<and> frame_anchors cs b \<and> frame_nullifiers cs b \<and> frame_best cs b"
    using s GetHistoryLengthRoot_frame [of db cs k]
    by (auto simp: SelectHistoryCache_def Let_def frame_defs split: option.splits prod.splits)
  have fc: "cacheCoins c' = cacheCoins c" "cacheAnchors c' = cacheAnchors c" "cacheNullifiers c' = cacheNullifiers c"
      "hashBlock c' = hashBlock c" "hashAnchor c' = hashAnchor c"
    using s by (auto simp: SelectHistoryCache_def Let_def split: option.splits prod.splits)
  show ?case
    using Cons.prems Cons.IH s fb fc by (auto simp: rbind_eq_Inr frame_defs split: if_splits)
qed (auto simp: rbind_eq_Inr frame_defs)

lemma GetHistoryAt_fails:
  assumes "\<forall>k. hist_ok db cs k" "length (fst (hist_of db cs k)) \<le> unat index"
  shows "\<exists>e. GetHistoryAt db cs k index = Inl e"
proof (cases cs)
  case Nil
  then show ?thesis using assms(2) by (simp add: DB_GetHistoryAt_def db_history_def word_le_nat_alt)
next
  case (Cons c base)
  obtain h c' b where s: "SelectHistoryCache db c base k = (h, c', b)" by (metis prod_cases3)
  have ok: "hist_ok db base k" using hist_ok_tl assms(1) Cons by blast
  have "unat (h_length h) = length (fst (hist_of db cs k))"
  proof (cases "historyCacheMap c k")
    case None
    obtain n r x where g: "GetHistoryLengthRoot db base k = ((n, r), x)" by (metis prod.collapse)
    have "h = HistoryCache_new n r k" using s None g by (simp add: SelectHistoryCache_def Let_def)
    then show ?thesis
      using cache_length [OF fresh_history(2) [OF ok, of n r]] fresh_history(1) [OF ok, of n r] g None Cons
      by (simp del: peek_history.simps(3))
  next
    case (Some h')
    then show ?thesis using s Cons spec [OF assms(1), of k] cache_length [of h' "db_history db k"]
      by (simp add: SelectHistoryCache_def del: peek_history.simps(3))
  qed
  then show ?thesis using Cons s assms(2) by (simp add: word_le_nat_alt)
qed

lemma load_nodes_refines:
  assumes "caches_ok P T db cs"
  shows "case draft_nodes mem (fst (hist_of db cs k)) ps of
     Inr es \<Rightarrow> \<exists>cs'. load_nodes mem db k ps cs = Inr (es, cs') \<and> caches_state P db cs' = caches_state P db cs \<and> caches_ok P T db cs' \<and>
       length cs' = length cs
   | Inl _ \<Rightarrow> \<exists>e. load_nodes mem db k ps cs = Inl e"
  using assms
proof (induction ps arbitrary: cs)
  case (Cons p ps)
  obtain pos alt where p: "p = (pos, alt)" by fastforce
  let ?nodes = "fst (hist_of db cs k)"
  have hok: "\<forall>k. hist_ok db cs k" "db_history_ok db k" using Cons.prems by (simp_all add: caches_ok_def)
  show ?case
  proof (cases "unat pos < length ?nodes")
    case False
    then show ?thesis
      using GetHistoryAt_fails [OF hok(1), of k "ucast pos"] p unat_u64_of_u32 [of pos] by auto
  next
    case True
    then obtain cs1 where g: "GetHistoryAt db cs k (ucast pos) = Inr (?nodes ! unat pos, cs1)"
        "\<forall>k'. hist_of db cs1 k' = hist_of db cs k' \<and> hist_ok db cs1 k'"
      using GetHistoryAt_correct [OF hok, of "ucast pos"] unat_u64_of_u32 [of pos] by auto
    note fr = GetHistoryAt_frame [OF g(1)]
    have ok1: "caches_ok P T db cs1"
      using Cons.prems fr g(2) by (simp add: caches_ok_def frame_fields [of cs cs1] frame_coins_def)
    have st1: "caches_state P db cs1 = caches_state P db cs"
      using fr g(2) frame_coins_tl [of cs cs1]
      by (simp add: caches_state_def frame_fields [of cs cs1] frame_coins_def frame_best_def)
    note IH = Cons.IH [OF ok1]
    have nodes: "fst (hist_of db cs1 k) = ?nodes" using g(2) by simp
    show ?thesis
    proof (cases "draftMMRNode mem (?nodes ! unat pos) alt pos")
      case (Inl e)
      then show ?thesis using True p g(1) by simp
    next
      case (Inr entry)
      show ?thesis
        using IH True p g(1) Inr st1 fr unfolding nodes by (cases "draft_nodes mem ?nodes ps") auto
    qed
  qed
qed simp

lemma load_nodes_cached:
  assumes "load_nodes mem db k ps cs = Inr (es, cs')" "cs \<noteq> []" "historyCacheMap (hd cs) k \<noteq> None"
  shows "cs' \<noteq> [] \<and> historyCacheMap (hd cs') k \<noteq> None"
  using assms
proof (induction ps arbitrary: cs es)
  case (Cons p ps)
  obtain pos alt where p: "p = (pos, alt)" by fastforce
  obtain node cs1 es1 where g: "GetHistoryAt db cs k (ucast pos) = Inr (node, cs1)" "load_nodes mem db k ps cs1 = Inr (es1, cs')"
    using Cons.prems(1) unfolding p by (auto simp: rbind_eq_Inr)
  obtain c base where cs: "cs = c # base" using Cons.prems(2) by (cases cs) auto
  have "cs1 \<noteq> [] \<and> historyCacheMap (hd cs1) k \<noteq> None"
    using g(1) Cons.prems(3) unfolding cs
    by (auto simp: SelectHistoryCache_def rbind_eq_Inr split: if_splits)
  then show ?case using Cons.IH [OF g(2)] by blast
qed simp

lemma PreloadHistoryTree_refines:
  assumes "view_ok P T v"
  shows "case history_entries mem (fst (s_history (state_of P v) k)) extra of
     Inr r \<Rightarrow> \<exists>v'. PreloadHistoryTree mem k extra v = Inr (r, v') \<and> keeps P T v v' \<and>
       (historyCacheMap (v_top v) k \<noteq> None \<longrightarrow> historyCacheMap (v_top v') k \<noteq> None)
   | Inl _ \<Rightarrow> \<exists>e. PreloadHistoryTree mem k extra v = Inl e"
proof -
  let ?db = "v_db v" and ?cs = "v_caches v"
  let ?cs1 = "snd (GetHistoryLengthRoot ?db ?cs k)" and ?nodes = "fst (s_history (state_of P v) k)"
  have ok: "caches_ok P T ?db ?cs" using assms by (simp add: view_ok_def)
  note g = GetHistoryLengthRoot_state [OF ok, of k]
  have nodes: "?nodes = fst (hist_of ?db ?cs1 k)"
    using arg_cong [OF g(2), of "\<lambda>s. fst (s_history s k)"] by (simp add: state_of_def caches_state_def)
  obtain c b where cs1: "?cs1 = c # b" "length ?cs1 = length ?cs"
    using GetHistoryLengthRoot_frame [of ?db ?cs k] by (cases ?cs1) (auto simp: v_caches_def)
  have top: "historyCacheMap (v_top v) k \<noteq> None \<Longrightarrow> historyCacheMap (hd ?cs1) k \<noteq> None"
    by (auto simp: v_caches_def)
  have pre: "PreloadHistoryTree mem k extra v = rbind (preload_positions (of_nat (length ?nodes)) extra) (\<lambda>(total_peaks, ps).
      rbind (load_nodes mem ?db k ps ?cs1) (\<lambda>(entries, cs'). Inr ((total_peaks, entries), set_caches cs' v)))"
    using g(1) by (simp add: PreloadHistoryTree_def state_of_def case_prod_beta)
  show ?thesis
  proof (cases "preload_positions (of_nat (length ?nodes)) extra")
    case (Inl e)
    then show ?thesis by (simp add: history_entries_def pre)
  next
    case (Inr r)
    obtain n ps where r: "r = (n, ps)" by fastforce
    note ld = load_nodes_refines [OF g(3), of mem k ps]
    show ?thesis
    proof (cases "draft_nodes mem ?nodes ps")
      case (Inl e)
      then show ?thesis using ld Inr r unfolding nodes [symmetric] by (auto simp: history_entries_def pre)
    next
      case (Inr es)
      obtain cs' where l: "load_nodes mem ?db k ps ?cs1 = Inr (es, cs')" "caches_state P ?db cs' = caches_state P ?db ?cs1"
          "caches_ok P T ?db cs'" "length cs' = length ?cs1"
        using ld Inr unfolding nodes [symmetric] by auto
      have "keeps P T v (set_caches cs' v)" by (rule keeps_set_caches) (use l g cs1 in simp_all)
      moreover have "historyCacheMap (v_top v) k \<noteq> None \<longrightarrow> historyCacheMap (v_top (set_caches cs' v)) k \<noteq> None"
        using load_nodes_cached [OF l(1)] top cs1(1) by (auto simp: set_caches_def)
      ultimately show ?thesis using Inr \<open>preload_positions (of_nat (length ?nodes)) extra = Inr r\<close> r l(1)
        by (simp add: history_entries_def pre)
    qed
  qed
qed

lemma select_history_refines:
  assumes "view_ok P T v" "select_history k v = (h, v1)"
  shows "keeps P T v v1" "historyCacheMap (v_top v1) k = Some h"
    "unat (h_length h) = length (fst (s_history (state_of P v) k))"
proof -
  let ?db = "v_db v" and ?cs = "v_caches v"
  have ok: "caches_ok P T ?db ?cs" using assms by (simp add: view_ok_def)
  note g = GetHistoryLengthRoot_state [OF ok, of k]
  have s: "v1 = set_caches (snd (GetHistoryLengthRoot ?db ?cs k)) v" "h_length h = fst (fst (GetHistoryLengthRoot ?db ?cs k))"
      "historyCacheMap (v_top v1) k = Some h"
    using assms(2) by (auto simp: select_history_def SelectHistoryCache_def v_caches_def set_caches_def HistoryCache_new_def Let_def
      split: option.splits prod.splits)
  show "keeps P T v v1"
    unfolding s(1) by (rule keeps_set_caches) (use g GetHistoryLengthRoot_frame [of ?db ?cs k] in simp_all)
  show "historyCacheMap (v_top v1) k = Some h" by (rule s(3))
  have "length (fst (s_history (state_of P v) k)) < 2 ^ 64"
    using ok peek_history_length [OF _ db_history_length] by (simp add: state_of_def caches_state_def caches_ok_def)
  then show "unat (h_length h) = length (fst (s_history (state_of P v) k))"
    using s(2) g(1) by (simp add: unat_u64 state_of_def)
qed

text \<open>The chain state with another history of one epoch.\<close>

abbreviation put_history :: "u32 \<Rightarrow> bytes list \<times> uint256 \<Rightarrow> chainstate \<Rightarrow> chainstate" where
  "put_history k x s \<equiv> s\<lparr>s_history := (s_history s)(k := x)\<rparr>"

lemma top_history_update:
  assumes "view_ok P T v" "historyCacheMap (v_top v) k = Some h"
    "history_cache_ok (f h) (length (fst (hist_of (v_db v) (v_below v) k)))"
  shows "view_ok P T (with_history k f v)"
    "state_of P (with_history k f v) = put_history k
       (take (unat (h_updateDepth (f h))) (fst (hist_of (v_db v) (v_below v) k)) @ appended_nodes (f h), h_root (f h)) (state_of P v)"
proof -
  have hok: "\<forall>j. hist_ok (v_db v) (v_top v # v_below v) j" using assms(1) by (simp add: view_ok_def caches_ok_def v_caches_def)
  have below: "hist_ok (v_db v) (v_below v) k" by (rule hist_ok_tl [OF hok])
  have "hist_ok (v_db v) (v_caches (with_history k f v)) j" for j
    using spec [OF hok, of j] below assms(2,3) by (simp add: with_history_def v_caches_def)
  then show "view_ok P T (with_history k f v)"
    using assms(1) by (simp add: view_ok_def caches_ok_def with_history_def v_caches_def)
  have "hist_of (v_db v) (v_caches (with_history k f v)) = (hist_of (v_db v) (v_caches v))(k :=
      (take (unat (h_updateDepth (f h))) (fst (hist_of (v_db v) (v_below v) k)) @ appended_nodes (f h), h_root (f h)))"
    using assms(2) by (auto simp: with_history_def v_caches_def fun_eq_iff)
  then show "state_of P (with_history k f v) = put_history k
       (take (unat (h_updateDepth (f h))) (fst (hist_of (v_db v) (v_below v) k)) @ appended_nodes (f h), h_root (f h)) (state_of P v)"
    by (simp add: state_of_def caches_state_def with_history_def v_caches_def)
qed

lemma top_history:
  assumes "view_ok P T v" "historyCacheMap (v_top v) k = Some h"
  shows "history_cache_ok h (length (fst (hist_of (v_db v) (v_below v) k)))"
    "fst (s_history (state_of P v) k) = take (unat (h_updateDepth h)) (fst (hist_of (v_db v) (v_below v) k)) @ appended_nodes h"
    "unat (h_length h) = length (fst (s_history (state_of P v) k))"
proof -
  have "hist_ok (v_db v) (v_top v # v_below v) k" using assms(1) by (simp add: view_ok_def caches_ok_def v_caches_def)
  then show ok: "history_cache_ok h (length (fst (hist_of (v_db v) (v_below v) k)))" using assms(2) by simp
  show "fst (s_history (state_of P v) k) = take (unat (h_updateDepth h)) (fst (hist_of (v_db v) (v_below v) k)) @ appended_nodes h"
    using assms(2) by (simp add: state_of_def caches_state_def v_caches_def)
  show "unat (h_length h) = length (fst (s_history (state_of P v) k))"
    using cache_length [OF ok] assms(2) by (simp add: state_of_def caches_state_def v_caches_def)
qed

lemma history_root_ok [simp]:
  "history_cache_ok (h\<lparr>h_root := r\<rparr>) n = history_cache_ok h n" "appended_nodes (h\<lparr>h_root := r\<rparr>) = appended_nodes h"
  by (simp_all add: history_cache_ok_def appended_nodes_def)

lemma extend_top:
  fixes r :: uint256
  assumes "view_ok P T v" "historyCacheMap (v_top v) k \<noteq> None" "length (fst (s_history (state_of P v) k)) + length xs < 2 ^ 64"
  defines "v' \<equiv> with_history k (\<lambda>h. (fold history_Extend xs h)\<lparr>h_root := r\<rparr>) v"
  shows "view_ok P T v'" "state_of P v' = put_history k (fst (s_history (state_of P v) k) @ xs, r) (state_of P v)"
proof -
  obtain h where h: "historyCacheMap (v_top v) k = Some h" using assms(2) by blast
  note th = top_history [OF assms(1) h]
  have "history_cache_ok (fold history_Extend xs h) (length (fst (hist_of (v_db v) (v_below v) k))) \<and>
      appended_nodes (fold history_Extend xs h) = appended_nodes h @ xs \<and> h_updateDepth (fold history_Extend xs h) = h_updateDepth h"
    using history_extends [OF th(1), of xs] assms(3) th(3) by simp
  then show "view_ok P T v'" "state_of P v' = put_history k (fst (s_history (state_of P v) k) @ xs, r) (state_of P v)"
    using top_history_update [OF assms(1) h, of "\<lambda>h. (fold history_Extend xs h)\<lparr>h_root := r\<rparr>"] th(2) unfolding v'_def by simp_all
qed

lemma truncate_top:
  fixes r :: uint256
  assumes "view_ok P T v" "historyCacheMap (v_top v) k = Some h" "m h \<le> h_length h"
  defines "v' \<equiv> with_history k (\<lambda>h. (history_Truncate (m h) h)\<lparr>h_root := r\<rparr>) v"
  shows "view_ok P T v'" "state_of P v' = put_history k (take (unat (m h)) (fst (s_history (state_of P v) k)), r) (state_of P v)"
proof -
  note th = top_history [OF assms(1,2)]
  note tr = history_truncate [OF th(1) assms(3)]
  note up = top_history_update [OF assms(1,2), of "\<lambda>h. (history_Truncate (m h) h)\<lparr>h_root := r\<rparr>"]
  show "view_ok P T v'" using up(1) tr(1) unfolding v'_def by simp
  have "unat (h_updateDepth h) \<le> length (fst (hist_of (v_db v) (v_below v) k))" using th(1) by (simp add: history_cache_ok_def)
  moreover have "unat (min a b) = min (unat a) (unat b)" for a b :: u64 by (simp add: min_def word_le_nat_alt)
  ultimately have "take (unat (m h)) (fst (s_history (state_of P v) k)) = take (unat (h_updateDepth (history_Truncate (m h) h)))
      (fst (hist_of (v_db v) (v_below v) k)) @ appended_nodes (history_Truncate (m h) h)"
    unfolding th(2) tr(2,4) by (simp add: min.commute)
  then show "state_of P v' = put_history k (take (unat (m h)) (fst (s_history (state_of P v) k)), r) (state_of P v)"
    using up(2) tr(1) unfolding v'_def by simp
qed

text \<open>Both operations do on the view what \<open>push_history\<close> and \<open>pop_history\<close> do on the list of nodes.\<close>

definition history_step :: "pools \<Rightarrow> (ShieldedType \<Rightarrow> uint256 \<Rightarrow> tree) \<Rightarrow> u32 \<Rightarrow> coins_view \<Rightarrow>
    view_error + bytes list \<times> uint256 \<Rightarrow> view_error + coins_view \<Rightarrow> bool" where
  "history_step P T k v a r \<longleftrightarrow> (case a of
     Inl _ \<Rightarrow> \<exists>e. r = Inl e
   | Inr x \<Rightarrow> \<exists>v'. r = Inr v' \<and> view_ok P T v' \<and> state_of P v' = put_history k x (state_of P v))"

lemma u32_of_length: "unat (w :: u64) = n \<Longrightarrow> (ucast w :: u32) = of_nat n"
  by (metis of_nat_unat)

lemma PushHistoryNode_refines:
  assumes "view_ok P T v" "mmr_small L" "length (fst (s_history (state_of P v) k)) < 2 ^ 63"
  shows "history_step P T k v (push_history L mem k node (fst (s_history (state_of P v) k))) (PushHistoryNode L mem k node v)"
proof -
  let ?nodes = "fst (s_history (state_of P v) k)"
  obtain h v1 where s: "select_history k v = (h, v1)" by fastforce
  note sel = select_history_refines [OF assms(1) s]
  have st: "state_of P v1 = state_of P v" and ok: "view_ok P T v1" using keepsD [OF sel(1)] by simp_all
  have empty: "h_length h = 0 \<longleftrightarrow> ?nodes = []" using sel(3) by (metis length_0_conv unat_eq_zero)
  show ?thesis
  proof (cases "?nodes = []")
    case True
    then show ?thesis
      using s empty extend_top [OF ok, of k "[node]"] sel(2) st
      by (auto simp: history_step_def PushHistoryNode_def push_history_def split: option.splits)
  next
    case False
    have "length (fst (mmr_append L ep n es x)) \<le> 32" for ep n es x using assms(2) by (simp add: mmr_small_def)
    moreover have "length ?nodes + 32 < 2 ^ 64" using assms(3) by simp
    ultimately have len: "length ?nodes + length (fst (mmr_append L ep n es x)) < 2 ^ 64" for ep n es x
      by (meson add_left_mono le_less_trans)
    note pre = PreloadHistoryTree_refines [OF ok, of mem k False, unfolded st]
    show ?thesis
    proof (cases "history_entries mem ?nodes False")
      case (Inl e)
      then show ?thesis using pre False empty s by (auto simp: history_step_def PushHistoryNode_def push_history_def)
    next
      case (Inr r)
      obtain n es where r: "r = (n, es)" by fastforce
      obtain v2 where v2: "PreloadHistoryTree mem k False v1 = Inr (r, v2)" "keeps P T v1 v2" "historyCacheMap (v_top v2) k \<noteq> None"
        using pre Inr sel(2) by auto
      have st2: "state_of P v2 = state_of P v" "view_ok P T v2" using keepsD [OF v2(2)] st by simp_all
      obtain xs rt where a: "mmr_append L k (of_nat (length ?nodes)) es node = (xs, rt)" by fastforce
      have "length ?nodes + length xs < 2 ^ 64" using len [of k "of_nat (length ?nodes)" es node] a by simp
      then show ?thesis
        using extend_top [OF st2(2) v2(3), of xs rt, unfolded st2(1)] False empty s v2(1) Inr r a u32_of_length [OF sel(3)]
        by (simp add: history_step_def PushHistoryNode_def push_history_def)
    qed
  qed
qed

lemma PopHistoryNode_large:
  assumes "view_ok P T v" "mmr_small L" "select_history k v = (h, v1)" "3 < length (fst (s_history (state_of P v) k))"
    "length (fst (s_history (state_of P v) k)) < 2 ^ 32"
  shows "history_step P T k v (pop_history L mem k (fst (s_history (state_of P v) k)))
    (rbind (PreloadHistoryTree mem k True v1) (\<lambda>((peak_count, entries), v2).
        let (numberOfDeletes, newRoot) = mmr_delete L k (ucast (h_length h)) entries peak_count
        in Inr (with_history k (\<lambda>h. (history_Truncate (h_length h - ucast numberOfDeletes) h)\<lparr>h_root := newRoot\<rparr>) v2)))"
proof -
  let ?nodes = "fst (s_history (state_of P v) k)"
  note sel = select_history_refines [OF assms(1,3)]
  have st: "state_of P v1 = state_of P v" and ok: "view_ok P T v1" using keepsD [OF sel(1)] by simp_all
  note pre = PreloadHistoryTree_refines [OF ok, of mem k True, unfolded st]
  have pop: "pop_history L mem k ?nodes = rbind (history_entries mem ?nodes True) (\<lambda>(peak_count, es).
      case mmr_delete L k (of_nat (length ?nodes)) es peak_count of (n, r) \<Rightarrow> Inr (take (length ?nodes - unat n) ?nodes, r))"
    using assms(4) by (simp add: pop_history_def)
  show ?thesis
  proof (cases "history_entries mem ?nodes True")
    case (Inl e)
    then show ?thesis using pre pop by (auto simp: history_step_def)
  next
    case (Inr r)
    obtain n es where r: "r = (n, es)" by fastforce
    obtain v2 where v2: "PreloadHistoryTree mem k True v1 = Inr (r, v2)" "keeps P T v1 v2" "historyCacheMap (v_top v2) k \<noteq> None"
      using pre Inr sel(2) by auto
    have st2: "state_of P v2 = state_of P v" "view_ok P T v2" using keepsD [OF v2(2)] st by simp_all
    obtain h2 where h2: "historyCacheMap (v_top v2) k = Some h2" using v2(3) by blast
    have len: "unat (h_length h2) = length ?nodes" using top_history(3) [OF st2(2) h2] st2(1) by simp
    obtain d rt where a: "mmr_delete L k (of_nat (length ?nodes)) es n = (d, rt)" by fastforce
    have "unat (fst (mmr_delete L k (of_nat (length ?nodes)) es n)) \<le> unat (of_nat (length ?nodes) :: u32)"
      using assms(2) by (simp add: mmr_small_def)
    then have d: "unat d \<le> length ?nodes" using a unat_u32 [OF assms(5)] by simp
    then have le: "(ucast d :: u64) \<le> h_length h2" using len unat_u64_of_u32 [of d] by (simp add: word_le_nat_alt)
    then have m: "unat (h_length h2 - ucast d) = length ?nodes - unat d"
      using len unat_u64_of_u32 [of d] by (simp add: unat_sub)
    have "h_length h2 - ucast d \<le> h_length h2" using m len by (simp add: word_le_nat_alt)
    then show ?thesis
      using truncate_top [OF st2(2) h2, of "\<lambda>h. h_length h - ucast d" rt, unfolded st2(1) m] v2(1) Inr r a
        u32_of_length [OF sel(3)] pop
      by (simp add: history_step_def)
  qed
qed

lemma PopHistoryNode_refines:
  assumes "view_ok P T v" "mmr_small L" "length (fst (s_history (state_of P v) k)) < 2 ^ 32"
  shows "history_step P T k v (pop_history L mem k (fst (s_history (state_of P v) k))) (PopHistoryNode L mem k v)"
proof -
  let ?nodes = "fst (s_history (state_of P v) k)"
  obtain h v1 where s: "select_history k v = (h, v1)" by fastforce
  note sel = select_history_refines [OF assms(1) s]
  have st: "state_of P v1 = state_of P v" and ok: "view_ok P T v1" using keepsD [OF sel(1)] by simp_all
  have hl: "h_length h = n \<longleftrightarrow> length ?nodes = unat n" for n using sel(3) by (metis word_unat_eq_iff)
  consider "length ?nodes \<le> 1" | "length ?nodes = 2" | "length ?nodes = 3" | "3 < length ?nodes" by linarith
  then show ?thesis
  proof cases
    case 1
    then have "h_length h = 0 \<or> h_length h = 1" unfolding hl unsigned_0 unsigned_1 by linarith
    then show ?thesis
      using 1 s truncate_top [OF ok sel(2), of "\<lambda>_. 0" 0] st
      by (auto simp: history_step_def PopHistoryNode_def pop_history_def)
  next
    case 2
    then show ?thesis using s by (simp add: history_step_def PopHistoryNode_def pop_history_def hl)
  next
    case 3
    have hok: "\<forall>k. hist_ok (v_db v1) (v_caches v1) k" "db_history_ok (v_db v1) k"
      using ok by (simp_all add: view_ok_def caches_ok_def)
    have nodes: "fst (hist_of (v_db v1) (v_caches v1) k) = ?nodes" unfolding st [symmetric] by (simp add: state_of_def caches_state_def)
    obtain cs where g: "GetHistoryAt (v_db v1) (v_caches v1) k 0 = Inr (?nodes ! 0, cs)"
        "\<forall>k'. hist_of (v_db v1) cs k' = hist_of (v_db v1) (v_caches v1) k' \<and> hist_ok (v_db v1) cs k'"
      using GetHistoryAt_correct [OF hok, of 0] 3 unfolding nodes by auto
    note fr = GetHistoryAt_frame [OF g(1)]
    have "keeps P T v1 (set_caches cs v1)"
      using ok fr g(2) frame_coins_tl [of "v_caches v1" cs]
      by (intro keeps_set_caches) (simp_all add: view_ok_def caches_ok_def caches_state_def frame_fields [of "v_caches v1" cs]
        frame_coins_def frame_best_def)
    note kp = keepsD [OF this]
    have "historyCacheMap (v_top (set_caches cs v1)) k = Some h"
      using g(1) sel(2) by (auto simp: v_caches_def SelectHistoryCache_def set_caches_def rbind_eq_Inr split: if_splits)
    note tr = truncate_top [OF kp(2) this, of "\<lambda>_. 1", unfolded kp(1) st]
    have "(1 :: u64) \<le> h_length h" using 3 sel(3) by (simp add: word_le_nat_alt)
    then show ?thesis
      using 3 s g(1) tr by (auto simp: history_step_def PopHistoryNode_def pop_history_def hl split: option.splits)
  next
    case 4
    then show ?thesis using PopHistoryNode_large [OF assms(1,2) s 4 assms(3)] s by (auto simp: PopHistoryNode_def hl)
  qed
qed

section \<open>The positions that are loaded\<close>

lemma mmr_30:
  "m < 2 ^ 3 \<Longrightarrow> mmr_size 30 m = mmr_size 3 m" "m < 2 ^ 3 \<Longrightarrow> mmr_peaks 30 off m = mmr_peaks 3 off m"
  using mmr_stable [of m 3 27] by simp_all

text \<open>C8: For the array of a mountain range with at least one and fewer than \<open>2 ^ 30\<close> leaves, the loops of
  \<^verbatim>\<open>PreloadHistoryTree\<close> end, and the positions they load are exactly the peaks of the range, the highest first, and when
  the extra nodes are asked for, the nodes of the right slope of the last peak with their siblings.\<close>

theorem preload_finds_peaks:
  assumes "0 < m" "m < 2 ^ 30"
  shows "let ps = mmr_peaks 30 0 m; (p, a) = last ps in
    preload_positions (of_nat (mmr_size 30 m)) extra =
      Inr (length ps, map as_words (ps @ (if extra then mmr_slope a (p + 2 - 2 ^ (a + 1)) else [])))"
proof (cases "m = 1")
  case True
  have e: "mmr_size 3 1 = 1" "mmr_peaks 3 0 1 = [(0, 0)]" by code_simp+
  show ?thesis using True by (simp add: mmr_30 e as_words_def preload_positions_def del: One_nat_def)
next
  case False
  obtain a where a: "2 ^ a \<le> m" "m < 2 ^ Suc a" using highest_bit [OF assms(1)] by blast
  have "(2::nat) ^ a < 2 ^ 30" using a(1) assms(2) by linarith
  then have a30: "a < 30" by (rule power_less_imp_less_exp [rotated]) simp
  have "a \<noteq> 0" using False a(2) assms(1) by (cases a) auto
  moreover have "mmr_size 30 m = mmr_size (Suc a) m \<and> mmr_peaks 30 0 m = mmr_peaks (Suc a) 0 m"
    using mmr_stable [OF a(2), of "29 - a" 0] a30 by simp
  ultimately show ?thesis using preload_large [OF a] a30 by (simp add: Let_def case_prod_beta)
qed

theorem preload_finds_peaks_witness:
  "preload_positions 8 True = Inr (2, [(6, 2), (7, 0)]) \<and> preload_positions 7 True = Inr (1, [(6, 2), (2, 1), (5, 1), (3, 0), (4, 0)])"
proof -
  have e: "mmr_size 3 5 = 8" "mmr_peaks 3 0 5 = [(6, 2), (7, 0)]" "mmr_size 3 4 = 7" "mmr_peaks 3 0 4 = [(6, 2)]"
    "mmr_slope 0 6 = []" "mmr_slope 2 0 = [(2, 1), (5, 1), (3, 0), (4, 0)]" by code_simp+
  have "preload_positions (of_nat (mmr_size 30 5)) True = Inr (2, [(6, 2), (7, 0)])"
    using preload_finds_peaks [of 5 True] by (simp add: mmr_30 e as_words_def)
  moreover have "preload_positions (of_nat (mmr_size 30 4)) True = Inr (1, [(6, 2), (2, 1), (5, 1), (3, 0), (4, 0)])"
    using preload_finds_peaks [of 4 True] by (simp add: mmr_30 e as_words_def)
  ultimately show ?thesis by (simp add: mmr_30 e)
qed

end
