(* ===== verification/Zc_Consensus.thy ===== *)
theory Zc_Consensus
  imports Zc_Transaction
begin

text \<open>
  The consensus parameters: network upgrades (\<^verbatim>\<open>src/consensus/upgrades.cpp\<close>), the derived parameters of
  \<^verbatim>\<open>src/consensus/params.cpp\<close> and the block subsidy (\<^verbatim>\<open>GetBlockSubsidy\<close> of \<^verbatim>\<open>src/main.cpp\<close>).  A failed
  assertion is \<open>None\<close>.  The lemmas show that the subsidies of any number of blocks never add up to more than the
  geometric series of the halvings allows, which for the main network is \<^verbatim>\<open>MAX_MONEY\<close>, and that the window of the
  founders' reward ends where the first halving begins.
\<close>

section \<open>Network upgrades\<close>

datatype UpgradeIndex = BASE_SPROUT | UPGRADE_TESTDUMMY | UPGRADE_OVERWINTER | UPGRADE_SAPLING | UPGRADE_BLOSSOM
  | UPGRADE_HEARTWOOD | UPGRADE_NU4

definition UpgradeIndices :: "UpgradeIndex list" where
  "UpgradeIndices = [BASE_SPROUT, UPGRADE_TESTDUMMY, UPGRADE_OVERWINTER, UPGRADE_SAPLING, UPGRADE_BLOSSOM,
     UPGRADE_HEARTWOOD, UPGRADE_NU4]"

datatype UpgradeState = UPGRADE_DISABLED | UPGRADE_PENDING | UPGRADE_ACTIVE

record Params =
  hashGenesisBlock :: uint256
  fCoinbaseMustBeShielded :: bool
  nSubsidySlowStartInterval :: int
  nPreBlossomSubsidyHalvingInterval :: int
  nPostBlossomSubsidyHalvingInterval :: int
  nActivationHeight :: "UpgradeIndex \<Rightarrow> int"
  nFutureTimestampSoftForkHeight :: int
  powLimit :: uint256
  nPowAllowMinDifficultyBlocksAfterHeight :: "u32 option"
  nPowAveragingWindow :: int
  nPowMaxAdjustDown :: int
  nPowMaxAdjustUp :: int
  nPreBlossomPowTargetSpacing :: int
  nPostBlossomPowTargetSpacing :: int

definition NO_ACTIVATION_HEIGHT :: int where "NO_ACTIVATION_HEIGHT = -1"

definition BLOSSOM_POW_TARGET_SPACING_RATIO :: int where "BLOSSOM_POW_TARGET_SPACING_RATIO = 2"

fun NetworkUpgradeInfo :: "UpgradeIndex \<Rightarrow> u32" where
  "NetworkUpgradeInfo BASE_SPROUT = 0"
| "NetworkUpgradeInfo UPGRADE_TESTDUMMY = 0x74736554"
| "NetworkUpgradeInfo UPGRADE_OVERWINTER = 0x5ba81b19"
| "NetworkUpgradeInfo UPGRADE_SAPLING = 0x76b809bb"
| "NetworkUpgradeInfo UPGRADE_BLOSSOM = 0x2bb40e60"
| "NetworkUpgradeInfo UPGRADE_HEARTWOOD = 0xf5b9230b"
| "NetworkUpgradeInfo UPGRADE_NU4 = 0xe9ff75a6"

definition NetworkUpgradeState :: "int \<Rightarrow> Params \<Rightarrow> UpgradeIndex \<Rightarrow> UpgradeState option" where
  "NetworkUpgradeState nHeight params idx =
     (if nHeight < 0 then None
      else Some (if nActivationHeight params idx = NO_ACTIVATION_HEIGHT then UPGRADE_DISABLED
        else if nActivationHeight params idx \<le> nHeight then UPGRADE_ACTIVE else UPGRADE_PENDING))"

definition NetworkUpgradeActive :: "Params \<Rightarrow> int \<Rightarrow> UpgradeIndex \<Rightarrow> bool option" where
  "NetworkUpgradeActive params nHeight idx = map_option (\<lambda>s. s = UPGRADE_ACTIVE) (NetworkUpgradeState nHeight params idx)"

fun epoch_loop :: "int \<Rightarrow> Params \<Rightarrow> UpgradeIndex list \<Rightarrow> UpgradeIndex option" where
  "epoch_loop nHeight params [] = Some BASE_SPROUT"
| "epoch_loop nHeight params (idx # idxs) =
     Option.bind (NetworkUpgradeActive params nHeight idx) (\<lambda>active.
       if active then Some idx else epoch_loop nHeight params idxs)"

definition CurrentEpoch :: "int \<Rightarrow> Params \<Rightarrow> UpgradeIndex option" where
  "CurrentEpoch nHeight params = epoch_loop nHeight params (rev UpgradeIndices)"

definition CurrentEpochBranchId :: "int \<Rightarrow> Params \<Rightarrow> u32 option" where
  "CurrentEpochBranchId nHeight params = map_option NetworkUpgradeInfo (CurrentEpoch nHeight params)"

fun prev_branch_loop :: "u32 \<Rightarrow> UpgradeIndex \<Rightarrow> UpgradeIndex list \<Rightarrow> u32" where
  "prev_branch_loop currentBranchId prev [] = NetworkUpgradeInfo BASE_SPROUT"
| "prev_branch_loop currentBranchId prev (idx # idxs) =
     (if currentBranchId = NetworkUpgradeInfo idx then NetworkUpgradeInfo prev else prev_branch_loop currentBranchId idx idxs)"

definition PrevEpochBranchId :: "u32 \<Rightarrow> u32" where
  "PrevEpochBranchId currentBranchId = prev_branch_loop currentBranchId BASE_SPROUT (tl UpgradeIndices)"

definition IsConsensusBranchId :: "int \<Rightarrow> bool" where
  "IsConsensusBranchId branchId = list_ex (\<lambda>idx. word_of_int branchId = NetworkUpgradeInfo idx) UpgradeIndices"

definition IsActivationHeight :: "int \<Rightarrow> Params \<Rightarrow> UpgradeIndex \<Rightarrow> bool" where
  "IsActivationHeight nHeight params idx =
     (if idx = BASE_SPROUT then False else 0 \<le> nHeight \<and> nHeight = nActivationHeight params idx)"

definition IsActivationHeightForAnyUpgrade :: "int \<Rightarrow> Params \<Rightarrow> bool" where
  "IsActivationHeightForAnyUpgrade nHeight params =
     (if nHeight < 0 then False else list_ex (\<lambda>idx. nHeight = nActivationHeight params idx) (tl UpgradeIndices))"

definition NextEpoch :: "int \<Rightarrow> Params \<Rightarrow> UpgradeIndex option" where
  "NextEpoch nHeight params =
     (if nHeight < 0 then None
      else find (\<lambda>idx. NetworkUpgradeState nHeight params idx = Some UPGRADE_PENDING) (tl UpgradeIndices))"

definition NextActivationHeight :: "int \<Rightarrow> Params \<Rightarrow> int option" where
  "NextActivationHeight nHeight params = map_option (nActivationHeight params) (NextEpoch nHeight params)"

section \<open>Derived parameters\<close>

text \<open>Division of signed integers in C++ rounds toward zero.\<close>

definition cdiv :: "int \<Rightarrow> int \<Rightarrow> int" where
  "cdiv a b = sgn a * sgn b * (\<bar>a\<bar> div \<bar>b\<bar>)"

lemma cdiv_nonneg [simp]: "0 \<le> a \<Longrightarrow> 0 < b \<Longrightarrow> cdiv a b = a div b"
  by (cases "a = 0") (simp_all add: cdiv_def sgn_if)

lemma cdiv_neg: "a < 0 \<Longrightarrow> 0 < b \<Longrightarrow> cdiv a b \<le> 0"
  by (simp add: cdiv_def sgn_if pos_imp_zdiv_nonneg_iff)

definition FutureTimestampSoftForkActive :: "Params \<Rightarrow> int \<Rightarrow> bool" where
  "FutureTimestampSoftForkActive params nHeight \<longleftrightarrow> nFutureTimestampSoftForkHeight params \<le> nHeight"

definition SubsidySlowStartShift :: "Params \<Rightarrow> int" where
  "SubsidySlowStartShift params = cdiv (nSubsidySlowStartInterval params) 2"

definition Halving :: "Params \<Rightarrow> int \<Rightarrow> int option" where
  "Halving params nHeight = Option.bind (NetworkUpgradeActive params nHeight UPGRADE_BLOSSOM) (\<lambda>active.
     Some (if active
       then (let blossomActivationHeight = nActivationHeight params UPGRADE_BLOSSOM;
                 scaledHalvings = wrap64 (wrap64 ((blossomActivationHeight - SubsidySlowStartShift params) * BLOSSOM_POW_TARGET_SPACING_RATIO)
                   + (nHeight - blossomActivationHeight))
             in wrap32 (cdiv scaledHalvings (nPostBlossomSubsidyHalvingInterval params)))
       else cdiv (wrap32 (nHeight - SubsidySlowStartShift params)) (nPreBlossomSubsidyHalvingInterval params)))"

definition GetLastFoundersRewardBlockHeight :: "Params \<Rightarrow> int \<Rightarrow> int option" where
  "GetLastFoundersRewardBlockHeight params nHeight =
     Option.bind (NetworkUpgradeActive params nHeight UPGRADE_BLOSSOM) (\<lambda>blossomActive.
     Some (if blossomActive
       then (let blossomActivationHeight = nActivationHeight params UPGRADE_BLOSSOM
             in wrap32 (blossomActivationHeight + nPostBlossomSubsidyHalvingInterval params
                - (blossomActivationHeight - SubsidySlowStartShift params) * BLOSSOM_POW_TARGET_SPACING_RATIO - 1))
       else wrap32 (nPreBlossomSubsidyHalvingInterval params + SubsidySlowStartShift params - 1)))"

definition PoWTargetSpacing :: "Params \<Rightarrow> int \<Rightarrow> int option" where
  "PoWTargetSpacing params nHeight = map_option (\<lambda>blossomActive.
     if blossomActive then nPostBlossomPowTargetSpacing params else nPreBlossomPowTargetSpacing params)
     (NetworkUpgradeActive params nHeight UPGRADE_BLOSSOM)"

definition AveragingWindowTimespan :: "Params \<Rightarrow> int \<Rightarrow> int option" where
  "AveragingWindowTimespan params nHeight = map_option (\<lambda>s. wrap64 (nPowAveragingWindow params * s)) (PoWTargetSpacing params nHeight)"

definition MinActualTimespan :: "Params \<Rightarrow> int \<Rightarrow> int option" where
  "MinActualTimespan params nHeight =
     map_option (\<lambda>s. cdiv (wrap64 (s * (100 - nPowMaxAdjustUp params))) 100) (AveragingWindowTimespan params nHeight)"

definition MaxActualTimespan :: "Params \<Rightarrow> int \<Rightarrow> int option" where
  "MaxActualTimespan params nHeight =
     map_option (\<lambda>s. cdiv (wrap64 (s * (100 + nPowMaxAdjustDown params))) 100) (AveragingWindowTimespan params nHeight)"

section \<open>The block subsidy\<close>

definition GetBlockSubsidy :: "int \<Rightarrow> Params \<Rightarrow> int option" where
  "GetBlockSubsidy nHeight params =
     (let nSubsidy = 1250000000; interval = nSubsidySlowStartInterval params
      in if nHeight < cdiv interval 2 then Some (wrap64 (cdiv nSubsidy interval * nHeight))
      else if nHeight < interval then Some (wrap64 (cdiv nSubsidy interval * (nHeight + 1)))
      else if \<not> SubsidySlowStartShift params < nHeight then None
      else Option.bind (Halving params nHeight) (\<lambda>halvings.
        if 64 \<le> halvings then Some 0
        else Option.bind (NetworkUpgradeActive params nHeight UPGRADE_BLOSSOM) (\<lambda>active.
          Some (if active then cdiv nSubsidy BLOSSOM_POW_TARGET_SPACING_RATIO div 2 ^ nat halvings else nSubsidy div 2 ^ nat halvings))))"

text \<open>The consensus parameters of the main network (\<^verbatim>\<open>CMainParams\<close> of \<^verbatim>\<open>src/chainparams.cpp\<close>).\<close>

fun main_activation :: "UpgradeIndex \<Rightarrow> int" where
  "main_activation BASE_SPROUT = 0"
| "main_activation UPGRADE_TESTDUMMY = NO_ACTIVATION_HEIGHT"
| "main_activation UPGRADE_OVERWINTER = 347500"
| "main_activation UPGRADE_SAPLING = 419200"
| "main_activation UPGRADE_BLOSSOM = 653600"
| "main_activation UPGRADE_HEARTWOOD = NO_ACTIVATION_HEIGHT"
| "main_activation UPGRADE_NU4 = NO_ACTIVATION_HEIGHT"

definition MainParams :: Params where
  "MainParams = \<lparr>hashGenesisBlock = 0x00040fe8ec8471911baa1db1266ea15dd06b4a8a5c453883c000b031973dce08,
     fCoinbaseMustBeShielded = True, nSubsidySlowStartInterval = 20000,
     nPreBlossomSubsidyHalvingInterval = 840000, nPostBlossomSubsidyHalvingInterval = 840000 * BLOSSOM_POW_TARGET_SPACING_RATIO,
     nActivationHeight = main_activation, nFutureTimestampSoftForkHeight = 2,
     powLimit = 0x0007ffffffffffffffffffffffffffffffffffffffffffffffffffffffffffff,
     nPowAllowMinDifficultyBlocksAfterHeight = None, nPowAveragingWindow = 17, nPowMaxAdjustDown = 32, nPowMaxAdjustUp = 16,
     nPreBlossomPowTargetSpacing = 150, nPostBlossomPowTargetSpacing = 75\<rparr>"

section \<open>The supply\<close>

text \<open>What the parameters of a network have to satisfy for the halvings to be those of the schedule.\<close>

definition schedule_ok :: "Params \<Rightarrow> bool" where
  "schedule_ok P \<longleftrightarrow> (let ts = nSubsidySlowStartInterval P; th = nPreBlossomSubsidyHalvingInterval P;
       b = nActivationHeight P UPGRADE_BLOSSOM
     in 0 \<le> ts \<and> even ts \<and> (ts = 0 \<or> ts dvd 1250000000) \<and> ts div 2 < th \<and> th < 2 ^ 30 \<and>
        nPostBlossomSubsidyHalvingInterval P = 2 * th \<and> (b = NO_ACTIVATION_HEIGHT \<or> ts \<le> b \<and> b < 2 ^ 31))"

text \<open>At position \<open>x\<close> of a schedule that halves the unit \<open>u\<close> every \<open>L\<close> blocks, all that is still to come is at most
  the rest of the current interval and one more interval at the current rate.\<close>

definition still_to_come :: "int \<Rightarrow> int \<Rightarrow> int \<Rightarrow> int" where
  "still_to_come u L x = (L - x mod L + L) * (u div 2 ^ nat (x div L))"

lemma div_mod_split: "0 \<le> r \<Longrightarrow> r < L \<Longrightarrow> (q * L + r) div L = (q::int)" "0 \<le> r \<Longrightarrow> r < L \<Longrightarrow> (q * L + r) mod L = (r::int)"
  by simp_all

lemma still_to_come_step:
  assumes "0 \<le> u" "0 < L" "0 \<le> x"
  shows "still_to_come u L (x + 1) + u div 2 ^ nat (x div L) \<le> still_to_come u L x"
proof -
  define q r where "q = x div L" and "r = x mod L"
  have x: "x = q * L + r" and r: "0 \<le> r" "r < L" and q: "0 \<le> q"
    using assms by (simp_all add: q_def r_def pos_imp_zdiv_nonneg_iff)
  show ?thesis
  proof (cases "r + 1 < L")
    case True
    have "x + 1 = q * L + (r + 1)" using x by simp
    then show ?thesis
      unfolding still_to_come_def using r True div_mod_split [of "r + 1" L q] div_mod_split [of r L q] x
      by (simp add: algebra_simps)
  next
    case False
    then have "x + 1 = (q + 1) * L + 0" using x r by (simp add: algebra_simps)
    then have x': "(x + 1) div L = q + 1" "(x + 1) mod L = 0" using div_mod_split [of 0 L "q + 1"] assms(2) by simp_all
    have "u div 2 ^ Suc (nat q) * 2 \<le> u div 2 ^ nat q"
      using zdiv_zmult2_eq [of 2 u "2 ^ nat q"] by (simp add: mult.commute)
    then have "L * (u div 2 ^ Suc (nat q) * 2) \<le> L * (u div 2 ^ nat q)" using assms(2) by simp
    moreover have "nat (q + 1) = Suc (nat q)" using q by simp
    moreover have "L - r = 1" using False r by simp
    ultimately show ?thesis
      unfolding still_to_come_def x' q_def [symmetric] r_def [symmetric] by (simp add: algebra_simps)
  qed
qed

lemma still_to_come_switch:
  assumes "0 \<le> u" "0 < L" "0 \<le> x"
  shows "still_to_come (u div 2) (2 * L) (2 * x) \<le> still_to_come u L x"
proof -
  let ?k = "nat (x div L)"
  have "(u div 2) div 2 ^ ?k * 2 = (u div 2 ^ ?k) div 2 * 2"
    by (simp add: zdiv_zmult2_eq [symmetric] mult.commute)
  then have le: "(u div 2) div 2 ^ ?k * 2 \<le> u div 2 ^ ?k" by simp
  have "0 \<le> L - x mod L + L" using assms(2) pos_mod_bound [of L x] by linarith
  with le have "(L - x mod L + L) * ((u div 2) div 2 ^ ?k * 2) \<le> (L - x mod L + L) * (u div 2 ^ ?k)"
    by (rule mult_left_mono)
  moreover have "(2 * x) mod (2 * L) = 2 * (x mod L)" "(2 * x) div (2 * L) = x div L"
    by (simp_all add: mod_mult_mult1)
  ultimately show ?thesis by (simp add: still_to_come_def algebra_simps)
qed

lemma schedule_okD:
  assumes "schedule_ok P"
  obtains m th where "nSubsidySlowStartInterval P = 2 * m" "0 \<le> m" "m = 0 \<or> 2 * m dvd 1250000000" "m < th" "th < 2 ^ 30"
    "nPreBlossomSubsidyHalvingInterval P = th" "nPostBlossomSubsidyHalvingInterval P = 2 * th" "SubsidySlowStartShift P = m"
    "nActivationHeight P UPGRADE_BLOSSOM = NO_ACTIVATION_HEIGHT \<or>
     2 * m \<le> nActivationHeight P UPGRADE_BLOSSOM \<and> nActivationHeight P UPGRADE_BLOSSOM < 2 ^ 31"
proof -
  obtain m where m: "nSubsidySlowStartInterval P = 2 * m" using assms by (auto simp: schedule_ok_def Let_def elim: evenE)
  then have "0 \<le> m" using assms by (simp add: schedule_ok_def Let_def)
  then show ?thesis using assms m that by (simp add: schedule_ok_def Let_def SubsidySlowStartShift_def)
qed

definition blossom_at :: "Params \<Rightarrow> int \<Rightarrow> bool" where
  "blossom_at P h \<longleftrightarrow> nActivationHeight P UPGRADE_BLOSSOM \<noteq> NO_ACTIVATION_HEIGHT \<and> nActivationHeight P UPGRADE_BLOSSOM \<le> h"

lemma NetworkUpgradeActive_blossom: "0 \<le> h \<Longrightarrow> NetworkUpgradeActive P h UPGRADE_BLOSSOM = Some (blossom_at P h)"
  by (simp add: NetworkUpgradeActive_def NetworkUpgradeState_def blossom_at_def)

text \<open>The position of a block in the schedule, in blocks of the spacing in force.\<close>

definition position :: "Params \<Rightarrow> int \<Rightarrow> int" where
  "position P h = (if blossom_at P h
     then 2 * (nActivationHeight P UPGRADE_BLOSSOM - SubsidySlowStartShift P) + (h - nActivationHeight P UPGRADE_BLOSSOM)
     else h - SubsidySlowStartShift P)"

definition interval_at :: "Params \<Rightarrow> int \<Rightarrow> int" where
  "interval_at P h = (if blossom_at P h then 2 else 1) * nPreBlossomSubsidyHalvingInterval P"

definition unit_at :: "Params \<Rightarrow> int \<Rightarrow> int" where
  "unit_at P h = (if blossom_at P h then 625000000 else 1250000000)"

lemma Halving_position:
  assumes "schedule_ok P" "SubsidySlowStartShift P \<le> h" "0 \<le> h" "h < 2 ^ 31"
  shows "Halving P h = Some (position P h div interval_at P h)" "0 \<le> position P h" "0 < interval_at P h"
proof -
  obtain m th where p: "0 \<le> m" "m < th" "th < 2 ^ 30" "nPreBlossomSubsidyHalvingInterval P = th"
      "nPostBlossomSubsidyHalvingInterval P = 2 * th" "SubsidySlowStartShift P = m"
      "nActivationHeight P UPGRADE_BLOSSOM = NO_ACTIVATION_HEIGHT \<or>
       2 * m \<le> nActivationHeight P UPGRADE_BLOSSOM \<and> nActivationHeight P UPGRADE_BLOSSOM < 2 ^ 31"
    using schedule_okD [OF assms(1)] by metis
  define b where "b = nActivationHeight P UPGRADE_BLOSSOM"
  show pos: "0 \<le> position P h" using p assms(2) by (auto simp: position_def blossom_at_def)
  show "0 < interval_at P h" using p by (simp add: interval_at_def)
  show "Halving P h = Some (position P h div interval_at P h)"
  proof (cases "blossom_at P h")
    case True
    then have b: "2 * m \<le> b" "b < 2 ^ 31" "b \<le> h" using p(7) by (auto simp: blossom_at_def b_def)
    define x where "x = 2 * (b - m) + (h - b)"
    have x: "position P h = x" "interval_at P h = 2 * th" using True p by (simp_all add: position_def interval_at_def x_def b_def)
    have "0 \<le> x" "x < 2 ^ 32" using b p(1) assms(4) by (simp_all add: x_def)
    then have r: "int64_range ((b - m) * 2)" "int64_range x" using b p(1) by (simp_all add: int64_range_def)
    have "x div (2 * th) \<le> x div 2" using p \<open>0 \<le> x\<close> by (intro zdiv_mono2) simp_all
    moreover have "x div 2 < 2 ^ 31" using \<open>x < 2 ^ 32\<close> by simp
    moreover have "0 \<le> x div (2 * th)" using p \<open>0 \<le> x\<close> by (simp add: pos_imp_zdiv_nonneg_iff)
    ultimately have "int32_range (x div (2 * th))" by (simp add: int32_range_def)
    moreover have "wrap64 (wrap64 ((b - m) * 2) + (h - b)) = x" using r by (simp add: x_def algebra_simps)
    moreover have "cdiv x (2 * th) = x div (2 * th)" using p \<open>0 \<le> x\<close> by simp
    ultimately show ?thesis
      using True x p assms(3) unfolding b_def
      by (simp add: Halving_def NetworkUpgradeActive_blossom Let_def BLOSSOM_POW_TARGET_SPACING_RATIO_def)
  next
    case False
    have "int32_range (h - m)" using assms p by (simp add: int32_range_def)
    then show ?thesis
      using False p assms by (simp add: Halving_def NetworkUpgradeActive_blossom position_def interval_at_def)
  qed
qed

lemma GetBlockSubsidy_late:
  assumes "schedule_ok P" "nSubsidySlowStartInterval P \<le> h" "0 < h" "h < 2 ^ 31"
  shows "GetBlockSubsidy h P = Some (unit_at P h div 2 ^ nat (position P h div interval_at P h))"
proof -
  obtain m th where p: "nSubsidySlowStartInterval P = 2 * m" "0 \<le> m" "SubsidySlowStartShift P = m"
    using schedule_okD [OF assms(1)] by metis
  then have h: "\<not> h < cdiv (nSubsidySlowStartInterval P) 2" "\<not> h < nSubsidySlowStartInterval P" "SubsidySlowStartShift P < h"
    using assms(2,3) by simp_all
  note H = Halving_position [OF assms(1) _ _ assms(4)]
  define k where "k = position P h div interval_at P h"
  have k: "Halving P h = Some k" "0 \<le> k" using H h(3) p assms(3) by (simp_all add: k_def pos_imp_zdiv_nonneg_iff)
  show ?thesis
  proof (cases "64 \<le> k")
    case True
    then have "64 \<le> nat k" by simp
    then have "(2::int) ^ 64 \<le> 2 ^ nat k" by (intro power_increasing) simp_all
    then have "unit_at P h div 2 ^ nat k = 0" by (intro div_pos_pos_trivial) (auto simp: unit_at_def)
    then show ?thesis using True h k by (simp add: GetBlockSubsidy_def Let_def k_def)
  next
    case False
    then show ?thesis
      using h k assms(3) unfolding k_def
      by (simp add: GetBlockSubsidy_def Let_def NetworkUpgradeActive_blossom unit_at_def BLOSSOM_POW_TARGET_SPACING_RATIO_def)
  qed
qed

text \<open>The subsidies paid before block \<open>n\<close>.\<close>

definition minted :: "Params \<Rightarrow> nat \<Rightarrow> int" where
  "minted P n = (\<Sum>h\<in>{1..<n}. the (GetBlockSubsidy (int h) P))"

lemma minted_Suc: "0 < n \<Longrightarrow> minted P (Suc n) = minted P n + the (GetBlockSubsidy (int n) P)"
  by (simp add: minted_def)

lemma GetBlockSubsidy_early:
  assumes "schedule_ok P" "nSubsidySlowStartInterval P = 2 * m" "0 \<le> h" "h < 2 * m"
  shows "GetBlockSubsidy h P = Some (1250000000 div (2 * m) * (if h < m then h else h + 1))"
proof -
  have "0 < m" and th: "m < 2 ^ 30" using assms by (auto simp: schedule_ok_def Let_def)
  then have "1250000000 div (2 * m) \<le> 1250000000 div 2" by (intro zdiv_mono2) simp_all
  then have c: "0 \<le> 1250000000 div (2 * m)" "1250000000 div (2 * m) \<le> 625000000"
    using \<open>0 < m\<close> by (simp_all add: pos_imp_zdiv_nonneg_iff)
  have "int64_range (1250000000 div (2 * m) * x)" if "0 \<le> x" "x \<le> 2 ^ 31" for x
  proof -
    have "1250000000 div (2 * m) * x \<le> 625000000 * 2 ^ 31" by (rule mult_mono) (use c that in simp_all)
    moreover have "0 \<le> 1250000000 div (2 * m) * x" using c that by simp
    moreover have "int64_range y" if "0 \<le> y" "y \<le> 625000000 * 2 ^ 31" for y
      using that by (simp add: int64_range_def)
    ultimately show ?thesis by blast
  qed
  then show ?thesis using assms th \<open>0 < m\<close> by (simp add: GetBlockSubsidy_def Let_def)
qed

lemma slow_start_sum: "n \<le> 2 * m \<Longrightarrow> 2 * (\<Sum>h\<in>{1..<n}. if h < m then int h else int h + 1) =
    (if n \<le> m then int n * (int n - 1) else int n * (int n + 1) - 2 * int m) \<or> n = 0"
proof (induction n)
  case (Suc n)
  show ?case
  proof (cases "n = 0")
    case False
    then show ?thesis using Suc by (auto simp: algebra_simps split: if_splits)
  qed (use Suc in auto)
qed simp

lemma minted_slow_start:
  assumes "schedule_ok P" "nSubsidySlowStartInterval P = 2 * m" "0 < m"
  shows "minted P (nat (2 * m)) = 1250000000 * m"
proof -
  let ?c = "1250000000 div (2 * m)"
  have "2 * m dvd 1250000000" using assms by (auto simp: schedule_ok_def Let_def)
  then have c: "?c * (2 * m) = 1250000000" by (rule dvd_div_mult_self)
  have "minted P (nat (2 * m)) = (\<Sum>h\<in>{1..<nat (2 * m)}. ?c * (if h < nat m then int h else int h + 1))"
    unfolding minted_def
  proof (rule sum.cong)
    fix h assume "h \<in> {1..<nat (2 * m)}"
    then have "0 \<le> int h" "int h < 2 * m" by auto
    then show "the (GetBlockSubsidy (int h) P) = ?c * (if h < nat m then int h else int h + 1)"
      using GetBlockSubsidy_early [OF assms(1,2)] by (simp add: zless_nat_eq_int_zless)
  qed simp
  also have "\<dots> = ?c * (\<Sum>h\<in>{1..<nat (2 * m)}. if h < nat m then int h else int h + 1)" by (simp add: sum_distrib_left)
  also have "2 * (\<Sum>h\<in>{1..<nat (2 * m)}. if h < nat m then int h else int h + 1) = 2 * (2 * m * m)"
    using slow_start_sum [of "nat (2 * m)" "nat m"] assms(3) by (simp add: algebra_simps)
  then have "(\<Sum>h\<in>{1..<nat (2 * m)}. if h < nat m then int h else int h + 1) = 2 * m * m" by simp
  finally show ?thesis using c by (simp add: mult.assoc [symmetric])
qed

lemma minted_late:
  assumes "schedule_ok P" "nSubsidySlowStartInterval P = 2 * m" "nat (2 * m) \<le> n" "0 < n" "int n < 2 ^ 31"
  shows "minted P n + still_to_come (unit_at P (int n)) (interval_at P (int n)) (position P (int n)) \<le> 2 * 1250000000 * nPreBlossomSubsidyHalvingInterval P"
  using assms(3-5)
proof (induction n)
  case (Suc n)
  obtain m' th where p: "nSubsidySlowStartInterval P = 2 * m'" "0 \<le> m'" "m' < th" "nPreBlossomSubsidyHalvingInterval P = th"
      "SubsidySlowStartShift P = m'" "nActivationHeight P UPGRADE_BLOSSOM = NO_ACTIVATION_HEIGHT \<or>
       2 * m' \<le> nActivationHeight P UPGRADE_BLOSSOM \<and> nActivationHeight P UPGRADE_BLOSSOM < 2 ^ 31"
    using schedule_okD [OF assms(1)] by metis
  have m: "m' = m" using p(1) assms(2) by simp
  define b where "b = nActivationHeight P UPGRADE_BLOSSOM"
  have switch: "still_to_come (unit_at P (int (Suc n))) (interval_at P (int (Suc n))) (position P (int (Suc n))) \<le>
      still_to_come 1250000000 th (int (Suc n) - m)" if "\<not> blossom_at P (int n)" "m \<le> int (Suc n)"
  proof (cases "blossom_at P (int (Suc n))")
    case True
    then have "b = int (Suc n)" using that by (auto simp: blossom_at_def b_def)
    then show ?thesis
      using True p m that still_to_come_switch [of 1250000000 th "int (Suc n) - m"] unfolding b_def
      by (simp add: unit_at_def interval_at_def position_def)
  qed (use p m in \<open>simp add: unit_at_def interval_at_def position_def\<close>)
  show ?case
  proof (cases "nat (2 * m) \<le> n \<and> 0 < n")
    case True
    let ?u = "unit_at P (int n)" and ?L = "interval_at P (int n)" and ?x = "position P (int n)"
    have h: "nSubsidySlowStartInterval P \<le> int n" "0 < int n" "int n < 2 ^ 31" using True assms(2) Suc.prems by auto
    note g = GetBlockSubsidy_late [OF assms(1) h]
    have pos: "0 \<le> ?x" "0 < ?L" using Halving_position(2,3) [OF assms(1)] h p m True by simp_all
    have u: "0 \<le> ?u" by (simp add: unit_at_def)
    have step: "still_to_come ?u ?L (?x + 1) + ?u div 2 ^ nat (?x div ?L) \<le> still_to_come ?u ?L ?x"
      by (rule still_to_come_step [OF u pos(2,1)])
    have later: "still_to_come (unit_at P (int (Suc n))) (interval_at P (int (Suc n))) (position P (int (Suc n))) \<le> still_to_come ?u ?L (?x + 1)"
    proof (cases "blossom_at P (int n)")
      case True
      then have "blossom_at P (int (Suc n))" by (simp add: blossom_at_def)
      then show ?thesis using True by (simp add: unit_at_def interval_at_def position_def algebra_simps)
    next
      case False
      then show ?thesis using switch h p m by (simp add: unit_at_def interval_at_def position_def algebra_simps)
    qed
    have "minted P (Suc n) = minted P n + ?u div 2 ^ nat (?x div ?L)" using minted_Suc [of n P] True g by simp
    then show ?thesis using Suc.IH True Suc.prems step later by simp
  next
    case False
    then consider "m = 0" "n = 0" | "0 < m" "Suc n = nat (2 * m)" using Suc.prems p m by fastforce
    then show ?thesis
    proof cases
      case 1
      have z: "still_to_come u L 0 = 2 * L * u" for u L by (simp add: still_to_come_def)
      have "still_to_come u L 1 \<le> still_to_come u L 0" if "0 \<le> u" "0 < L" for u L
        using still_to_come_step [of u L 0] that by (simp add: add.commute)
      then have le: "still_to_come u L 1 \<le> 2 * L * u" if "0 \<le> u" "0 < L" for u L using that z by simp
      have "minted P (Suc n) = 0" using 1 by (simp add: minted_def)
      moreover have "still_to_come (unit_at P (int (Suc n))) (interval_at P (int (Suc n))) (position P (int (Suc n))) \<le> 2 * 1250000000 * th"
      proof (cases "blossom_at P (int n)")
        case True
        then have "b = 0" "blossom_at P (int (Suc n))" using 1 p m by (auto simp: blossom_at_def b_def NO_ACTIVATION_HEIGHT_def)
        then show ?thesis
          using 1 p m le [of 625000000 "2 * th"] unfolding b_def by (simp add: unit_at_def interval_at_def position_def)
      next
        case False
        then show ?thesis using switch 1 le [of 1250000000 th] p m by simp
      qed
      ultimately show ?thesis using p by simp
    next
      case 2
      then have n: "int (Suc n) = 2 * m" by simp
      have "\<not> blossom_at P (int n)" using n p m by (auto simp: blossom_at_def NO_ACTIVATION_HEIGHT_def)
      moreover have "minted P (Suc n) = 1250000000 * m" using minted_slow_start [OF assms(1,2) 2(1)] 2(2) by simp
      moreover have "still_to_come 1250000000 th (int (Suc n) - m) = (th - m + th) * 1250000000"
        using n 2(1) p m by (simp add: still_to_come_def)
      ultimately show ?thesis using switch n 2(1) p by (simp add: algebra_simps)
    qed
  qed
qed simp

lemma GetBlockSubsidy_nonneg:
  assumes "schedule_ok P" "0 < h" "h < 2 ^ 31"
  obtains s where "GetBlockSubsidy h P = Some s" "0 \<le> s"
proof -
  obtain m where m: "nSubsidySlowStartInterval P = 2 * m" using schedule_okD [OF assms(1)] by metis
  show ?thesis
  proof (cases "h < 2 * m")
    case True
    then have "0 \<le> 1250000000 div (2 * m)" using assms(2) by (intro pos_imp_zdiv_nonneg_iff [THEN iffD2]) simp_all
    then show ?thesis using True that GetBlockSubsidy_early [OF assms(1) m _ True] assms(2) by auto
  next
    case False
    then show ?thesis using that GetBlockSubsidy_late [OF assms(1) _ assms(2,3)] m
      by (simp add: unit_at_def pos_imp_zdiv_nonneg_iff)
  qed
qed

lemma minted_mono:
  assumes "schedule_ok P" "n \<le> k" "int k \<le> 2 ^ 31"
  shows "minted P n \<le> minted P k"
  unfolding minted_def
proof (rule sum_mono2)
  fix h assume "h \<in> {1..<k} - {1..<n}"
  then show "0 \<le> the (GetBlockSubsidy (int h) P)"
    using GetBlockSubsidy_nonneg [OF assms(1), of "int h"] assms(3) by fastforce
qed (use assms(2) in auto)

lemma still_to_come_nonneg: "0 \<le> u \<Longrightarrow> 0 < L \<Longrightarrow> 0 \<le> still_to_come u L x"
proof -
  assume a: "0 \<le> u" "0 < L"
  then have "0 \<le> L - x mod L + L" using pos_mod_bound [of L x] by linarith
  then show ?thesis using a(1) unfolding still_to_come_def by (simp add: pos_imp_zdiv_nonneg_iff)
qed

lemma minted_bounded:
  assumes "schedule_ok P" "int n < 2 ^ 31"
  shows "minted P n \<le> 2 * 1250000000 * nPreBlossomSubsidyHalvingInterval P"
proof -
  obtain m th where p: "nSubsidySlowStartInterval P = 2 * m" "0 \<le> m" "m < th" "th < 2 ^ 30"
      "nPreBlossomSubsidyHalvingInterval P = th"
    using schedule_okD [OF assms(1)] by metis
  define k where "k = max n (max 1 (nat (2 * m)))"
  have k: "nat (2 * m) \<le> k" "0 < k" "int k < 2 ^ 31" "n \<le> k" using assms(2) p by (auto simp: k_def max_def)
  have "0 \<le> still_to_come (unit_at P (int k)) (interval_at P (int k)) (position P (int k))"
    by (rule still_to_come_nonneg) (use p in \<open>auto simp: unit_at_def interval_at_def\<close>)
  then show ?thesis
    using minted_late [OF assms(1) p(1) k(1-3)] minted_mono [OF assms(1) k(4)] k(3) by simp
qed

lemma map_the_Some: "list_all (\<lambda>x. f x \<noteq> None) xs \<Longrightarrow> map f xs = map Some (map (the \<circ> f) xs)"
  by (induction xs) auto

text \<open>C9: For every network whose parameters follow the halving schedule, \<^verbatim>\<open>GetBlockSubsidy\<close> never fails its assertion
  for a block after the genesis block, and the subsidies of any number of blocks add up to at most twice what one
  halving interval pays at the full rate.  For the main network that is \<^verbatim>\<open>MAX_MONEY\<close>.\<close>

theorem subsidy_total_bounded:
  assumes "schedule_ok P" "int n < 2 ^ 31 - 1"
  shows "\<exists>ss. map (\<lambda>h. GetBlockSubsidy (int h) P) [1..<Suc n] = map Some ss \<and>
    sum_list ss \<le> 2 * 1250000000 * nPreBlossomSubsidyHalvingInterval P"
proof -
  let ?g = "\<lambda>h. GetBlockSubsidy (int h) P"
  have "?g h \<noteq> None" if "0 < h" "h < Suc n" for h
    using GetBlockSubsidy_nonneg [OF assms(1), of "int h"] that assms(2) by fastforce
  then have "list_all (\<lambda>h. ?g h \<noteq> None) [1..<Suc n]" by (simp add: list_all_iff del: upt_Suc)
  moreover have "sum_list (map (the \<circ> ?g) [1..<Suc n]) = minted P (Suc n)"
    by (simp add: minted_def sum_list_distinct_conv_sum_set o_def del: upt_Suc)
  moreover have "minted P (Suc n) \<le> 2 * 1250000000 * nPreBlossomSubsidyHalvingInterval P"
    by (rule minted_bounded [OF assms(1)]) (use assms(2) in simp)
  ultimately show ?thesis using map_the_Some by metis
qed

lemma MainParams_schedule: "schedule_ok MainParams"
  by (simp add: schedule_ok_def MainParams_def BLOSSOM_POW_TARGET_SPACING_RATIO_def)

theorem subsidy_total_bounded_witness:
  "\<exists>ss. map (\<lambda>h. GetBlockSubsidy (int h) MainParams) [1..<Suc 2000000000] = map Some ss \<and> sum_list ss \<le> MAX_MONEY"
  using subsidy_total_bounded [OF MainParams_schedule, of 2000000000]
  by (simp add: MainParams_def MAX_MONEY_eq del: upt_Suc upt_rec_numeral)

text \<open>The founders' reward ends with the last block before the first halving: a block has had no halving exactly
  when its height is at most \<^verbatim>\<open>GetLastFoundersRewardBlockHeight\<close>.\<close>

lemma founders_reward_window:
  assumes "schedule_ok P" "0 \<le> h" "h < 2 ^ 31"
  shows "\<exists>k l. Halving P h = Some k \<and> GetLastFoundersRewardBlockHeight P h = Some l \<and> (k < 1 \<longleftrightarrow> h \<le> l)"
proof -
  obtain m th where p: "nSubsidySlowStartInterval P = 2 * m" "0 \<le> m" "m < th" "th < 2 ^ 30" "nPreBlossomSubsidyHalvingInterval P = th"
      "nPostBlossomSubsidyHalvingInterval P = 2 * th" "SubsidySlowStartShift P = m"
      "nActivationHeight P UPGRADE_BLOSSOM = NO_ACTIVATION_HEIGHT \<or>
       2 * m \<le> nActivationHeight P UPGRADE_BLOSSOM \<and> nActivationHeight P UPGRADE_BLOSSOM < 2 ^ 31"
    using schedule_okD [OF assms(1)] by metis
  define b where "b = nActivationHeight P UPGRADE_BLOSSOM"
  define l where "l = (if blossom_at P h then b + 2 * th - (b - m) * 2 - 1 else th + m - 1)"
  have "int32_range l" using p assms unfolding l_def blossom_at_def b_def int32_range_def by auto
  moreover have "GetLastFoundersRewardBlockHeight P h = Some (wrap32 l)"
    using p assms(2) unfolding l_def b_def
    by (simp add: GetLastFoundersRewardBlockHeight_def NetworkUpgradeActive_blossom Let_def BLOSSOM_POW_TARGET_SPACING_RATIO_def)
  ultimately have l: "GetLastFoundersRewardBlockHeight P h = Some l" by simp
  show ?thesis
  proof (cases "m \<le> h")
    case True
    note H = Halving_position [OF assms(1), of h]
    have "position P h div interval_at P h < 1 \<longleftrightarrow> position P h < interval_at P h"
      using pos_imp_zdiv_pos_iff [of "interval_at P h" "position P h"] H(3) True p assms by auto
    also have "\<dots> \<longleftrightarrow> h \<le> l" using p by (auto simp: position_def interval_at_def l_def b_def)
    finally show ?thesis using H(1) True p assms l by simp
  next
    case False
    then have nb: "\<not> blossom_at P h" using p assms by (auto simp: blossom_at_def NO_ACTIVATION_HEIGHT_def)
    have "int32_range (h - m)" using p assms False by (simp add: int32_range_def)
    then have "Halving P h = Some (cdiv (h - m) th)" using nb p assms by (simp add: Halving_def NetworkUpgradeActive_blossom)
    moreover have "cdiv (h - m) th \<le> 0" using False p by (intro cdiv_neg) simp_all
    moreover have "h \<le> l" using nb False p by (simp add: l_def)
    ultimately show ?thesis using l by auto
  qed
qed

end
