(* ===== verification/Zc_Block.thy ===== *)
theory Zc_Block
  imports Zc_Transaction
begin

text \<open>
  Blocks (\<^verbatim>\<open>src/primitives/block.h\<close>, \<^verbatim>\<open>src/primitives/block.cpp\<close>): headers and blocks with their stream format, the
  block hash, the Equihash input, locators, and the Merkle tree over the transaction hashes, kept as the flat array
  \<^verbatim>\<open>vMerkleTree\<close> of the source.  The lemmas show that the format is canonical, that the array is the sequence of the
  levels of the tree, that branches prove membership, and that a list of transactions whose tree is not reported as
  mutated is determined by its root.
\<close>

unbundle bit_operations_syntax

section \<open>Headers\<close>

record CBlockHeader =
  bh_nVersion :: int
  bh_hashPrevBlock :: uint256
  bh_hashMerkleRoot :: uint256
  bh_hashLightClientRoot :: uint256
  bh_nTime :: u32
  bh_nBits :: u32
  bh_nNonce :: uint256
  bh_nSolution :: bytes

definition CBlockHeader0 :: CBlockHeader where
  "CBlockHeader0 = \<lparr>bh_nVersion = 4, bh_hashPrevBlock = 0, bh_hashMerkleRoot = 0, bh_hashLightClientRoot = 0,
     bh_nTime = 0, bh_nBits = 0, bh_nNonce = 0, bh_nSolution = []\<rparr>"

definition header_IsNull :: "CBlockHeader \<Rightarrow> bool" where
  "header_IsNull h \<longleftrightarrow> bh_nBits h = 0"

definition GetBlockTime :: "CBlockHeader \<Rightarrow> int" where
  "GetBlockTime h = uint (bh_nTime h)"

definition Serialize_EquihashInput :: "CBlockHeader \<Rightarrow> bytes" where
  "Serialize_EquihashInput h = Serialize_int32 (bh_nVersion h) @ Serialize_uint256 (bh_hashPrevBlock h) @
     Serialize_uint256 (bh_hashMerkleRoot h) @ Serialize_uint256 (bh_hashLightClientRoot h) @
     ser_writedata32 (bh_nTime h) @ ser_writedata32 (bh_nBits h)"

definition Serialize_header :: "CBlockHeader \<Rightarrow> bytes" where
  "Serialize_header h = Serialize_int32 (bh_nVersion h) @ Serialize_uint256 (bh_hashPrevBlock h) @
     Serialize_uint256 (bh_hashMerkleRoot h) @ Serialize_uint256 (bh_hashLightClientRoot h) @
     ser_writedata32 (bh_nTime h) @ ser_writedata32 (bh_nBits h) @ Serialize_uint256 (bh_nNonce h) @
     Serialize_bytes (bh_nSolution h)"

definition Unserialize_header :: "CBlockHeader sparser" where
  "Unserialize_header =
     pbind Unserialize_int32 (\<lambda>v. pbind Unserialize_uint256 (\<lambda>p. pbind Unserialize_uint256 (\<lambda>m.
     pbind Unserialize_uint256 (\<lambda>l. pbind ser_readdata32 (\<lambda>t. pbind ser_readdata32 (\<lambda>b.
     pbind Unserialize_uint256 (\<lambda>n. pbind Unserialize_bytes (\<lambda>s.
     preturn \<lparr>bh_nVersion = v, bh_hashPrevBlock = p, bh_hashMerkleRoot = m, bh_hashLightClientRoot = l,
       bh_nTime = t, bh_nBits = b, bh_nNonce = n, bh_nSolution = s\<rparr>))))))))"

definition header_GetHash :: "CBlockHeader \<Rightarrow> uint256" where
  "header_GetHash h = SerializeHash [Serialize_header h]"

section \<open>Blocks\<close>

record CBlock =
  block_header :: CBlockHeader
  vtx :: "CTransaction list"

definition sizeof_CTransaction :: nat where "sizeof_CTransaction = 344"

definition Serialize_block :: "CBlock \<Rightarrow> ser_error + bytes" where
  "Serialize_block b = rbind (rtraverse Serialize_tx (vtx b)) (\<lambda>bs.
     Inr (Serialize_header (block_header b) @ WriteCompactSize (of_nat (length (vtx b))) @ concat bs))"

definition Unserialize_block :: "CBlock sparser" where
  "Unserialize_block = pbind Unserialize_header (\<lambda>h.
     pbind (Unserialize_vector sizeof_CTransaction (CTransaction_Unserialize CTransaction0)) (\<lambda>v.
     preturn \<lparr>block_header = h, vtx = v\<rparr>))"

text \<open>Writing a locator puts the version of the stream before the hashes, except into a hash.\<close>

definition Serialize_locator :: "bool \<Rightarrow> int \<Rightarrow> uint256 list \<Rightarrow> bytes" where
  "Serialize_locator gethash nStreamVersion vHave =
     (if gethash then [] else Serialize_int32 nStreamVersion) @ Serialize_vector Serialize_uint256 vHave"

section \<open>The Merkle tree of a block\<close>

definition hash_pair :: "uint256 \<Rightarrow> uint256 \<Rightarrow> uint256" where
  "hash_pair a b = Hash2 (Serialize_uint256 a) (Serialize_uint256 b)"

definition merkle_step :: "nat \<Rightarrow> nat \<Rightarrow> nat \<Rightarrow> uint256 list \<times> bool \<Rightarrow> uint256 list \<times> bool" where
  "merkle_step nSize j i = (\<lambda>(vMerkleTree, mutated).
     let i2 = min (i + 1) (nSize - 1)
     in (vMerkleTree @ [hash_pair (vMerkleTree ! (j + i)) (vMerkleTree ! (j + i2))],
         mutated \<or> (i2 = i + 1 \<and> i2 + 1 = nSize \<and> vMerkleTree ! (j + i) = vMerkleTree ! (j + i2))))"

definition merkle_row :: "nat \<Rightarrow> nat \<Rightarrow> uint256 list \<times> bool \<Rightarrow> uint256 list \<times> bool" where
  "merkle_row nSize j = fold (\<lambda>k. merkle_step nSize j (2 * k)) [0..<(nSize + 1) div 2]"

function merkle_rows :: "nat \<Rightarrow> nat \<Rightarrow> uint256 list \<times> bool \<Rightarrow> uint256 list \<times> bool" where
  "merkle_rows nSize j st =
     (if 1 < nSize then merkle_rows ((nSize + 1) div 2) (j + nSize) (merkle_row nSize j st) else st)"
  by pat_completeness auto
termination by (relation "measure (\<lambda>(n, _, _). n)") auto

declare merkle_rows.simps [simp del]

text \<open>The root, whether a mutation was detected, and the array \<^verbatim>\<open>vMerkleTree\<close>.\<close>

definition BuildMerkleTree :: "CBlock \<Rightarrow> uint256 \<times> bool \<times> uint256 list" where
  "BuildMerkleTree b = (let (tree, mutated) = merkle_rows (length (vtx b)) 0 (map txhash (vtx b), False)
     in (if tree = [] then 0 else last tree, mutated, tree))"

function branch_loop :: "uint256 list \<Rightarrow> nat \<Rightarrow> nat \<Rightarrow> nat \<Rightarrow> uint256 list \<Rightarrow> uint256 list" where
  "branch_loop tree nSize j nIndex vMerkleBranch =
     (if 1 < nSize
      then let i = min (nIndex XOR 1) (nSize - 1)
        in branch_loop tree ((nSize + 1) div 2) (j + nSize) (drop_bit 1 nIndex) (vMerkleBranch @ [tree ! (j + i)])
      else vMerkleBranch)"
  by pat_completeness auto
termination by (relation "measure (\<lambda>(_, n, _). n)") auto

declare branch_loop.simps [simp del]

text \<open>The memory-only member \<^verbatim>\<open>vMerkleTree\<close> is an argument: \<^verbatim>\<open>GetMerkleBranch\<close> fills it when it is empty and otherwise reads what
  an earlier call left there.\<close>

definition GetMerkleBranch :: "uint256 list \<Rightarrow> CBlock \<Rightarrow> nat \<Rightarrow> uint256 list" where
  "GetMerkleBranch vMerkleTree b nIndex =
     branch_loop (if vMerkleTree = [] then snd (snd (BuildMerkleTree b)) else vMerkleTree) (length (vtx b)) 0 nIndex []"

fun check_branch_loop :: "uint256 \<Rightarrow> uint256 list \<Rightarrow> int \<Rightarrow> uint256" where
  "check_branch_loop hash [] nIndex = hash"
| "check_branch_loop hash (it # its) nIndex =
     check_branch_loop (if nIndex AND 1 \<noteq> 0 then hash_pair it hash else hash_pair hash it) its (drop_bit 1 nIndex)"

definition CheckMerkleBranch :: "uint256 \<Rightarrow> uint256 list \<Rightarrow> int \<Rightarrow> uint256" where
  "CheckMerkleBranch hash vMerkleBranch nIndex = (if nIndex = - 1 then 0 else check_branch_loop hash vMerkleBranch nIndex)"

section \<open>The stream format\<close>

definition header_ok :: "CBlockHeader \<Rightarrow> bool" where
  "header_ok h \<longleftrightarrow> int32_range (bh_nVersion h) \<and> length (bh_nSolution h) \<le> unat MAX_SIZE"

interpretation header: codec Serialize_header Unserialize_header header_ok
proof
  show "Unserialize_header (Serialize_header a @ r) = Inr (a, r)" if "header_ok a" for a r
    using that by (simp add: header_ok_def Serialize_header_def Unserialize_header_def parser_simps
        i32.dec_enc u32.dec_enc u256.dec_enc vbytes.dec_enc)
  show "header_ok a \<and> bs = Serialize_header a @ r" if "Unserialize_header bs = Inr (a, r)" for bs a r
    using that by (auto simp: header_ok_def Serialize_header_def Unserialize_header_def parser_simps
        i32.dec_iff u32.dec_iff u256.dec_iff vbytes.dec_iff)
qed

text \<open>A transaction as the reader of a block leaves it: well formed, with its hash cached.\<close>

definition CTransaction_ok :: "CTransaction \<Rightarrow> bool" where
  "CTransaction_ok tx \<longleftrightarrow> tx_ok CTransaction0 (tx\<lparr>txhash := txhash CTransaction0\<rparr>) \<and>
     txhash tx = SerializeHash [projr (Serialize_tx tx)]"

lemma Serialize_CTransaction_ok: "CTransaction_ok tx \<Longrightarrow> \<exists>b. Serialize_tx tx = Inr b"
  using Serialize_tx_ok [of CTransaction0 "tx\<lparr>txhash := txhash CTransaction0\<rparr>"] by (auto simp: CTransaction_ok_def)

lemma txhash_same: "t\<lparr>txhash := x\<rparr>\<lparr>txhash := txhash t\<rparr> = (t :: CTransaction)"
  by simp

interpretation ctransaction: codec "\<lambda>tx. projr (Serialize_tx tx)" "CTransaction_Unserialize CTransaction0" CTransaction_ok
proof
  fix a :: CTransaction and r
  assume a: "CTransaction_ok a"
  let ?t = "a\<lparr>txhash := txhash CTransaction0\<rparr>"
  have "Unserialize_tx CTransaction0 (projr (Serialize_tx a) @ r) = Inr (?t, r)"
    using tx.dec_enc [of CTransaction0 ?t r] a by (simp add: CTransaction_ok_def)
  moreover obtain b where b: "Serialize_tx a = Inr b" using Serialize_CTransaction_ok [OF a] by blast
  then have "UpdateHash ?t = Inr (a\<lparr>txhash := txhash a\<rparr>)" using a by (simp add: UpdateHash_def CTransaction_ok_def)
  ultimately show "CTransaction_Unserialize CTransaction0 (projr (Serialize_tx a) @ r) = Inr (a, r)"
    by (simp add: CTransaction_Unserialize_def pbind_apply)
next
  fix bs r and a :: CTransaction
  assume "CTransaction_Unserialize CTransaction0 bs = Inr (a, r)"
  then obtain t where t: "Unserialize_tx CTransaction0 bs = Inr (t, r)" "UpdateHash t = Inr a"
    by (auto simp: CTransaction_Unserialize_def pbind_eq_Inr rbind_eq_Inr)
  have ok: "tx_ok CTransaction0 t" "bs = projr (Serialize_tx t) @ r" using tx.enc_dec [OF t(1)] by auto
  then have "CMutableTransaction.more t = CMutableTransaction.more CTransaction0" by (simp add: tx_ok_def tx_body_ok_def)
  then have "txhash t = txhash CTransaction0" by (cases t; cases "CTransaction0 :: CTransaction") (simp add: CTransaction0_def)
  moreover obtain b where b: "Serialize_tx t = Inr b" "a = t\<lparr>txhash := SerializeHash [b]\<rparr>"
    using t(2) by (auto simp: UpdateHash_def rbind_eq_Inr)
  ultimately have "a\<lparr>txhash := txhash CTransaction0\<rparr> = t" by (metis txhash_same)
  then show "CTransaction_ok a \<and> bs = projr (Serialize_tx a) @ r" using ok b by (simp add: CTransaction_ok_def)
qed

lemma rtraverse_tx:
  assumes "list_all CTransaction_ok txs"
  shows "rtraverse Serialize_tx txs = Inr (map (\<lambda>tx. projr (Serialize_tx tx)) txs)"
  using assms by (induction txs) (auto dest: Serialize_CTransaction_ok)

definition block_ok :: "CBlock \<Rightarrow> bool" where
  "block_ok b \<longleftrightarrow> header_ok (block_header b) \<and> length (vtx b) \<le> unat MAX_SIZE \<and> list_all CTransaction_ok (vtx b)"

interpretation vtxs: codec "Serialize_vector (\<lambda>tx. projr (Serialize_tx tx))"
    "Unserialize_vector sizeof_CTransaction (CTransaction_Unserialize CTransaction0)"
    "\<lambda>xs. length xs \<le> unat MAX_SIZE \<and> list_all CTransaction_ok xs"
  by (rule ctransaction.vector_codec) (simp_all add: sizeof_CTransaction_def)

lemma Serialize_block_ok:
  "block_ok b \<Longrightarrow> Serialize_block b = Inr (Serialize_header (block_header b) @ Serialize_vector (\<lambda>tx. projr (Serialize_tx tx)) (vtx b))"
  by (simp add: Serialize_block_def block_ok_def rtraverse_tx Serialize_vector_def)

lemma Unserialize_block_iff:
  "Unserialize_block bs = Inr (b, r) \<longleftrightarrow> block_ok b \<and> bs = projr (Serialize_block b) @ r"
proof
  assume "Unserialize_block bs = Inr (b, r)"
  then have *: "block_ok b \<and> bs = (Serialize_header (block_header b) @ Serialize_vector (\<lambda>tx. projr (Serialize_tx tx)) (vtx b)) @ r"
    by (auto simp: Unserialize_block_def parser_simps header.dec_iff vtxs.dec_iff block_ok_def)
  then show "block_ok b \<and> bs = projr (Serialize_block b) @ r" by (simp add: Serialize_block_ok)
next
  assume "block_ok b \<and> bs = projr (Serialize_block b) @ r"
  then show "Unserialize_block bs = Inr (b, r)"
    by (simp add: Serialize_block_ok Unserialize_block_def parser_simps header.dec_enc vtxs.dec_enc block_ok_def)
qed

section \<open>The levels of the tree\<close>

fun pairs :: "'a list \<Rightarrow> ('a \<times> 'a) list" where
  "pairs [] = []"
| "pairs [x] = [(x, x)]"
| "pairs (x # y # zs) = (x, y) # pairs zs"

fun dup_end :: "'a list \<Rightarrow> bool" where
  "dup_end [x, y] \<longleftrightarrow> x = y"
| "dup_end (x # y # zs) \<longleftrightarrow> dup_end zs"
| "dup_end _ \<longleftrightarrow> False"

definition parents :: "uint256 list \<Rightarrow> uint256 list" where
  "parents xs = map (case_prod hash_pair) (pairs xs)"

lemma length_pairs [simp]: "length (pairs xs) = (length xs + 1) div 2"
  by (induction xs rule: pairs.induct) simp_all

lemma length_parents [simp]: "length (parents xs) = (length xs + 1) div 2"
  by (simp add: parents_def)

lemma nth_pairs: "2 * k < length xs \<Longrightarrow> pairs xs ! k = (xs ! (2 * k), xs ! min (2 * k + 1) (length xs - 1))"
proof (induction xs arbitrary: k rule: pairs.induct)
  case (3 x y zs)
  show ?case
  proof (cases k)
    case (Suc j)
    then have "2 * j < length zs" using 3(2) by simp
    then have "min (2 * k + 1) (length (x # y # zs) - 1) = Suc (Suc (min (2 * j + 1) (length zs - 1)))" using Suc by simp
    then show ?thesis using 3(1) [OF \<open>2 * j < length zs\<close>] Suc by simp
  qed simp
qed simp_all

lemma nth_parents:
  "2 * k < length xs \<Longrightarrow> parents xs ! k = hash_pair (xs ! (2 * k)) (xs ! min (2 * k + 1) (length xs - 1))"
  using nth_pairs [of k xs] by (simp add: parents_def)

lemma dup_end_iff: "dup_end xs \<longleftrightarrow> (\<exists>k. 2 * k + 2 = length xs \<and> xs ! (2 * k) = xs ! (2 * k + 1))"
proof (induction xs rule: dup_end.induct)
  case (1 x y)
  have "2 * k + 2 = length [x, y] \<longleftrightarrow> k = 0" for k by auto
  then show ?case by simp
next
  case (2 x y z zs)
  have "(\<exists>k. 2 * k + 2 = length (z # zs) \<and> (z # zs) ! (2 * k) = (z # zs) ! (2 * k + 1)) \<longleftrightarrow>
      (\<exists>k. 2 * Suc k + 2 = length (x # y # z # zs) \<and> (x # y # z # zs) ! (2 * Suc k) = (x # y # z # zs) ! (2 * Suc k + 1))"
    by simp
  also have "\<dots> \<longleftrightarrow> (\<exists>k. 2 * k + 2 = length (x # y # z # zs) \<and> (x # y # z # zs) ! (2 * k) = (x # y # z # zs) ! (2 * k + 1))"
  proof
    assume "\<exists>k. 2 * k + 2 = length (x # y # z # zs) \<and> (x # y # z # zs) ! (2 * k) = (x # y # z # zs) ! (2 * k + 1)"
    then obtain k where k: "2 * k + 2 = length (x # y # z # zs)" "(x # y # z # zs) ! (2 * k) = (x # y # z # zs) ! (2 * k + 1)" by blast
    then obtain j where "k = Suc j" by (cases k) simp_all
    then show "\<exists>k. 2 * Suc k + 2 = length (x # y # z # zs) \<and> (x # y # z # zs) ! (2 * Suc k) = (x # y # z # zs) ! (2 * Suc k + 1)"
      using k by blast
  qed blast
  finally show ?case using 2 by simp
qed auto

lemma pairs_inj: "pairs xs = pairs ys \<Longrightarrow> \<not> dup_end xs \<Longrightarrow> \<not> dup_end ys \<Longrightarrow> xs = ys"
proof (induction xs arbitrary: ys rule: pairs.induct)
  case 1
  then show ?case by (cases ys rule: pairs.cases) simp_all
next
  case (2 x)
  then show ?case
  proof (cases ys rule: pairs.cases)
    case (3 u v zs)
    then have "zs = []" "u = v" using 2 by (cases zs rule: pairs.cases; simp)+
    then show ?thesis using 2 3 by simp
  qed simp_all
next
  case (3 x y zs)
  then show ?case
  proof (cases ys rule: pairs.cases)
    case (2 u)
    then have "zs = []" "x = y" using 3 by (cases zs rule: pairs.cases; simp)+
    then show ?thesis using 3 2 by simp
  next
    case (3 u v ws)
    then have "x = u" "y = v" "pairs zs = pairs ws" using "3.prems"(1) by simp_all
    moreover have "\<not> dup_end zs" using "3.prems"(2) by (cases zs) simp_all
    moreover have "\<not> dup_end ws" using "3.prems"(3) 3 by (cases ws) simp_all
    ultimately show ?thesis using "3.IH" 3 by simp
  qed simp
qed

lemma merkle_row_prefix:
  assumes "length pre = j" "length xs = n" "c \<le> (n + 1) div 2"
  shows "fold (\<lambda>k. merkle_step n j (2 * k)) [0..<c] (pre @ xs, m) =
    (pre @ xs @ take c (parents xs), m \<or> (\<exists>k < c. 2 * k + 2 = n \<and> xs ! (2 * k) = xs ! (2 * k + 1)))"
  using assms(3)
proof (induction c)
  case (Suc c)
  have c: "2 * c < n" using Suc.prems by simp
  then have i: "2 * c < length xs" "min (2 * c + 1) (n - 1) < length xs" using assms(2) by auto
  have "take (Suc c) (parents xs) = take c (parents xs) @ [parents xs ! c]"
    using Suc.prems assms(2) by (intro take_Suc_conv_app_nth) simp
  moreover have "(pre @ xs @ ys) ! (j + i) = xs ! i" if "i < length xs" for i ys using that assms(1) by (simp add: nth_append)
  moreover have "min (2 * c + 1) (n - 1) = 2 * c + 1 \<and> 2 * c + 1 + 1 = n \<longleftrightarrow> 2 * c + 2 = n" by auto
  ultimately show ?case using Suc i nth_parents [OF i(1)] assms(2)
    by (auto simp: merkle_step_def Let_def less_Suc_eq)
qed simp

lemma merkle_row_eq:
  assumes "length pre = j" "length xs = n"
  shows "merkle_row n j (pre @ xs, m) = (pre @ xs @ parents xs, m \<or> dup_end xs)"
proof -
  have "(\<exists>k < (n + 1) div 2. 2 * k + 2 = n \<and> xs ! (2 * k) = xs ! (2 * k + 1)) \<longleftrightarrow> dup_end xs"
    unfolding dup_end_iff assms(2) by (auto intro: exI)
  then show ?thesis using merkle_row_prefix [OF assms order_refl, of m] assms(2) by (simp add: merkle_row_def)
qed

function levels :: "uint256 list \<Rightarrow> uint256 list list" where
  "levels xs = (if 1 < length xs then xs # levels (parents xs) else [xs])"
  by pat_completeness auto
termination by (relation "measure length") auto

declare levels.simps [simp del]

lemma levels_short [simp]: "length xs \<le> 1 \<Longrightarrow> levels xs = [xs]"
  by (subst levels.simps) simp

lemma levels_long: "1 < length xs \<Longrightarrow> levels xs = xs # levels (parents xs)"
  by (subst levels.simps) simp

lemma levels_ne [simp]: "levels xs \<noteq> []"
  by (subst levels.simps) simp

lemma merkle_rows_eq:
  "length pre = j \<Longrightarrow> length xs = n \<Longrightarrow>
    merkle_rows n j (pre @ xs, m) = (pre @ concat (levels xs), m \<or> list_ex dup_end (levels xs))"
proof (induction xs arbitrary: pre j n m rule: levels.induct)
  case (1 xs)
  show ?case
  proof (cases "1 < length xs")
    case True
    have "merkle_rows n j (pre @ xs, m) = merkle_rows ((n + 1) div 2) (j + n) ((pre @ xs) @ parents xs, m \<or> dup_end xs)"
      using True 1(2,3) merkle_row_eq [OF 1(2,3)] by (subst merkle_rows.simps) simp
    also have "\<dots> = (pre @ concat (levels xs), m \<or> list_ex dup_end (levels xs))"
      using 1(1) [OF True, of "pre @ xs" "j + n" "(n + 1) div 2" "m \<or> dup_end xs"] 1(2,3) True
      by (simp add: levels_long disj_assoc)
    finally show ?thesis .
  next
    case False
    then have "\<not> dup_end xs" by (cases xs rule: pairs.cases) simp_all
    then show ?thesis using False 1(3) by (subst merkle_rows.simps) simp
  qed
qed

definition merkle_root :: "uint256 list \<Rightarrow> uint256" where
  "merkle_root xs = (if xs = [] then 0 else hd (last (levels xs)))"

lemma last_levels: "xs \<noteq> [] \<Longrightarrow> length (last (levels xs)) = 1"
proof (induction xs rule: levels.induct)
  case (1 xs)
  show ?case
  proof (cases "1 < length xs")
    case True
    then have "parents xs \<noteq> []" by (simp flip: length_greater_0_conv)
    then show ?thesis using 1 True by (simp add: levels_long)
  next
    case False
    then show ?thesis using 1(2) by (cases xs) simp_all
  qed
qed

lemma BuildMerkleTree_eq:
  "BuildMerkleTree b = (merkle_root (map txhash (vtx b)), list_ex dup_end (levels (map txhash (vtx b))), concat (levels (map txhash (vtx b))))"
proof -
  let ?xs = "map txhash (vtx b)"
  have "merkle_rows (length (vtx b)) 0 (?xs, False) = (concat (levels ?xs), list_ex dup_end (levels ?xs))"
    using merkle_rows_eq [of "[]" 0 ?xs "length (vtx b)" False] by simp
  moreover have "(if concat (levels ?xs) = [] then 0 else last (concat (levels ?xs))) = merkle_root ?xs"
  proof (cases "vtx b = []")
    case False
    then have "length (last (levels ?xs)) = 1" using last_levels [of ?xs] by simp
    then obtain r where r: "last (levels ?xs) = [r]" by (cases "last (levels ?xs)") simp_all
    have "levels ?xs = butlast (levels ?xs) @ [[r]]" using append_butlast_last_id [OF levels_ne, of ?xs] r by simp
    then have "concat (levels ?xs) = concat (butlast (levels ?xs)) @ [r]" by (metis concat.simps concat_append append_Nil2)
    then show ?thesis using False r by (simp add: merkle_root_def)
  qed (simp add: merkle_root_def)
  ultimately show ?thesis by (simp add: BuildMerkleTree_def Let_def)
qed

lemma merkle_root_parents: "1 < length xs \<Longrightarrow> merkle_root (parents xs) = merkle_root xs"
proof -
  assume "1 < length xs"
  moreover from this have "parents xs \<noteq> []" by (simp flip: length_greater_0_conv)
  ultimately show ?thesis by (auto simp: merkle_root_def levels_long)
qed

text \<open>One step of a branch: hashing an entry with its sibling, on the side its index says, gives its parent.\<close>

lemma sibling_parent:
  assumes "i < length xs"
  defines "s \<equiv> xs ! min (i XOR 1) (length xs - 1)"
  shows "(if int i AND 1 \<noteq> 0 then hash_pair s (xs ! i) else hash_pair (xs ! i) s) = parents xs ! (i div 2)"
proof (cases "even i")
  case True
  then have "i XOR 1 = i + 1" by (simp only: xor_one_eq) simp
  moreover from True obtain k where "i = 2 * k" by blast
  ultimately show ?thesis using assms(1) nth_parents [of k xs] unfolding s_def by (simp add: and_one_eq)
next
  case False
  then obtain k where k: "i = 2 * k + 1" by (rule oddE)
  then have "min (2 * k + 1) (length xs - 1) = i" "min (2 * k) (length xs - 1) = 2 * k" "2 * k < length xs" using assms(1) by auto
  moreover have "i XOR 1 = 2 * k" using k False by (simp only: xor_one_eq) simp
  ultimately show ?thesis using k nth_parents [of k xs] unfolding s_def by (simp add: and_one_eq)
qed

lemma branch_loop_eq:
  "i < length xs \<Longrightarrow> tree = pre @ concat (levels xs) \<Longrightarrow>
    \<exists>bs. branch_loop tree (length xs) (length pre) i acc = acc @ bs \<and> check_branch_loop (xs ! i) bs (int i) = merkle_root xs"
proof (induction xs arbitrary: i pre acc rule: levels.induct)
  case (1 xs)
  show ?case
  proof (cases "1 < length xs")
    case True
    let ?s = "xs ! min (i XOR 1) (length xs - 1)"
    have t: "tree = (pre @ xs) @ concat (levels (parents xs))" using 1(3) True by (simp add: levels_long)
    have half: "i div 2 < length (parents xs)" using 1(2) by simp
    have m: "min (i XOR 1) (length xs - 1) < length xs" using True by simp
    then have s: "tree ! (length pre + min (i XOR 1) (length xs - 1)) = ?s" by (simp add: t nth_append)
    obtain bs where bs: "branch_loop tree (length (parents xs)) (length (pre @ xs)) (i div 2) (acc @ [?s]) = (acc @ [?s]) @ bs"
        "check_branch_loop (parents xs ! (i div 2)) bs (int (i div 2)) = merkle_root (parents xs)"
      using 1(1) [OF True half t, of "acc @ [?s]"] by blast
    have "branch_loop tree (length xs) (length pre) i acc = acc @ ?s # bs"
      using True bs(1) s by (subst branch_loop.simps) (simp add: Let_def drop_bit_eq_div)
    moreover have "check_branch_loop (xs ! i) (?s # bs) (int i) = merkle_root xs"
      using bs(2) merkle_root_parents [OF True] unfolding check_branch_loop.simps sibling_parent [OF 1(2)]
      by (simp add: drop_bit_eq_div zdiv_int)
    ultimately show ?thesis by blast
  next
    case False
    then have "xs = [xs ! i]" "i = 0" using 1(2) by (cases xs; simp)+
    moreover have "merkle_root xs = xs ! i" using False 1(2) calculation by (metis levels_short last.simps list.sel(1) list.distinct(1) merkle_root_def not_less)
    ultimately show ?thesis using False by (subst branch_loop.simps) simp
  qed
qed

section \<open>What the root determines\<close>

function merkle_height :: "nat \<Rightarrow> nat" where
  "merkle_height n = (if 1 < n then Suc (merkle_height ((n + 1) div 2)) else 0)"
  by pat_completeness auto
termination by (relation "measure id") auto

declare merkle_height.simps [simp del]

text \<open>The pairs that the tree over a list hashes.\<close>

definition hashed_pairs :: "uint256 list \<Rightarrow> (uint256 \<times> uint256) set" where
  "hashed_pairs xs = set (concat (map pairs (levels xs)))"

definition collides :: "uint256 list \<Rightarrow> uint256 list \<Rightarrow> bool" where
  "collides xs ys \<longleftrightarrow> (\<exists>p \<in> hashed_pairs xs. \<exists>q \<in> hashed_pairs ys. p \<noteq> q \<and> case_prod hash_pair p = case_prod hash_pair q)"

lemma hashed_pairs_long: "1 < length xs \<Longrightarrow> hashed_pairs xs = set (pairs xs) \<union> hashed_pairs (parents xs)"
  by (simp add: hashed_pairs_def levels_long)

lemma root_determines:
  "merkle_root xs = merkle_root ys \<Longrightarrow> merkle_height (length xs) = merkle_height (length ys) \<Longrightarrow> xs \<noteq> [] \<Longrightarrow> ys \<noteq> [] \<Longrightarrow>
   \<not> list_ex dup_end (levels xs) \<Longrightarrow> \<not> list_ex dup_end (levels ys) \<Longrightarrow> \<not> collides xs ys \<Longrightarrow> xs = ys"
proof (induction xs arbitrary: ys rule: levels.induct)
  case (1 xs)
  show ?case
  proof (cases "1 < length xs")
    case True
    then have l: "1 < length ys" using 1(3) by (auto simp: merkle_height.simps [of "length xs"] merkle_height.simps [of "length ys"] split: if_splits)
    have "\<not> collides (parents xs) (parents ys)" using 1(8) True l by (auto simp: collides_def hashed_pairs_long)
    moreover have "merkle_height (length (parents xs)) = merkle_height (length (parents ys))"
      using 1(3) True l by (simp add: merkle_height.simps [of "length xs"] merkle_height.simps [of "length ys"])
    moreover have "parents xs \<noteq> []" "parents ys \<noteq> []" using True l by (simp_all flip: length_greater_0_conv)
    ultimately have p: "parents xs = parents ys"
      using 1(1) [OF True, of "parents ys"] 1(2,6,7) True l by (simp add: merkle_root_parents levels_long)
    have eq: "case_prod hash_pair (pairs xs ! k) = case_prod hash_pair (pairs ys ! k)" if "k < length (pairs xs)" for k
    proof -
      have "k < length (pairs ys)" using that arg_cong [OF p, of length] by simp
      moreover have "map (case_prod hash_pair) (pairs xs) ! k = map (case_prod hash_pair) (pairs ys) ! k"
        using p by (simp add: parents_def)
      ultimately show ?thesis using that by simp
    qed
    have "pairs xs ! k = pairs ys ! k" if k: "k < length (pairs xs)" for k
    proof -
      have "k < length (pairs ys)" using k arg_cong [OF p, of length] by simp
      then have "pairs xs ! k \<in> hashed_pairs xs" "pairs ys ! k \<in> hashed_pairs ys" using k True l by (simp_all add: hashed_pairs_long)
      then show ?thesis using eq [OF k] 1(8) unfolding collides_def by blast
    qed
    then have "pairs xs = pairs ys" using arg_cong [OF p, of length] by (intro nth_equalityI) simp_all
    then show ?thesis using pairs_inj [of xs ys] 1(6,7) True l by (simp add: levels_long)
  next
    case False
    then have l: "\<not> 1 < length ys" using 1(3) by (auto simp: merkle_height.simps [of "length xs"] merkle_height.simps [of "length ys"] split: if_splits)
    obtain x y where "xs = [x]" "ys = [y]" using False l 1(4,5) by (cases xs; cases ys) auto
    then show ?thesis using 1(2) by (simp add: merkle_root_def)
  qed
qed

section \<open>Properties\<close>

text \<open>C19: The block format is canonical.  The reader accepts exactly the serializations of well-formed blocks, returns
  the block with the hash of every transaction cached, and leaves the rest of the stream; the hash of the block is the
  double SHA-256 of the bytes its header was read from.\<close>

theorem block_wire_canonical:
  "Unserialize_block bs = Inr (b, r) \<longleftrightarrow>
     block_ok b \<and> (\<exists>v. Serialize_block b = Inr (Serialize_header (block_header b) @ v) \<and> bs = Serialize_header (block_header b) @ v @ r \<and>
       header_GetHash (block_header b) = Hash (take (length bs - length v - length r) bs))"
proof -
  have h: "header_GetHash h = Hash (Serialize_header h)" for h
    by (simp add: header_GetHash_def SerializeHash_def Hash_def CHashWriter_GetHash_def CHashWriter_write_def)
  show ?thesis by (auto simp: Unserialize_block_iff Serialize_block_ok h)
qed

text \<open>C18: Merkle branches prove membership: for every transaction of a block, folding the branch that
  \<^verbatim>\<open>GetMerkleBranch\<close> reads from the array into the transaction's hash with \<^verbatim>\<open>CheckMerkleBranch\<close> gives the root that
  \<^verbatim>\<open>BuildMerkleTree\<close> returns, whether the array was still empty or had been built for these transactions before.\<close>

theorem merkle_branch_correct:
  assumes "i < length (vtx b)" "v \<in> {[], snd (snd (BuildMerkleTree b))}"
  shows "CheckMerkleBranch (txhash (vtx b ! i)) (GetMerkleBranch v b i) (int i) = fst (BuildMerkleTree b)"
  using branch_loop_eq [of i "map txhash (vtx b)" "concat (levels (map txhash (vtx b)))" "[]" "[]"] assms
  by (auto simp: CheckMerkleBranch_def GetMerkleBranch_def BuildMerkleTree_eq)

definition sample_block :: CBlock where
  "sample_block = \<lparr>block_header = CBlockHeader0, vtx = [CTransaction0\<lparr>txhash := 1\<rparr>, CTransaction0\<lparr>txhash := 2\<rparr>, CTransaction0\<lparr>txhash := 3\<rparr>]\<rparr>"

theorem merkle_branch_correct_witness:
  "CheckMerkleBranch 3 (GetMerkleBranch [] sample_block 2) 2 = fst (BuildMerkleTree sample_block)"
  using merkle_branch_correct [of 2 sample_block "[]"] by (simp add: sample_block_def)

text \<open>C10: The defence against duplicated transactions (CVE-2012-2459) works: two non-empty transaction lists whose trees
  have the same height and the same root, and for neither of which \<^verbatim>\<open>BuildMerkleTree\<close> reports a mutation, have the same
  transaction hashes, unless two different pairs that the two trees hash have the same double SHA-256.  (The number of
  transactions is not fixed: six transactions and the same six with the last two repeated have trees of one height.)\<close>

theorem merkle_root_binding:
  assumes "vtx b \<noteq> []" "vtx c \<noteq> []" "merkle_height (length (vtx b)) = merkle_height (length (vtx c))"
    "BuildMerkleTree b = (root, False, t)" "BuildMerkleTree c = (root, False, u)"
  shows "map txhash (vtx b) = map txhash (vtx c) \<or> collides (map txhash (vtx b)) (map txhash (vtx c))"
  using root_determines [of "map txhash (vtx b)" "map txhash (vtx c)"] assms by (auto simp: BuildMerkleTree_eq)

definition sample_pair :: CBlock where
  "sample_pair = \<lparr>block_header = CBlockHeader0, vtx = [CTransaction0\<lparr>txhash := 1\<rparr>, CTransaction0\<lparr>txhash := 2\<rparr>]\<rparr>"

lemma sample_pair_tree: "BuildMerkleTree sample_pair = (hash_pair 1 2, False, [1, 2, hash_pair 1 2])"
  by (simp add: BuildMerkleTree_eq sample_pair_def levels_long parents_def merkle_root_def)

theorem merkle_root_binding_witness:
  "BuildMerkleTree sample_pair = (hash_pair 1 2, False, [1, 2, hash_pair 1 2]) \<and>
   (map txhash (vtx sample_pair) = map txhash (vtx (sample_pair\<lparr>block_header := CBlockHeader0\<lparr>bh_nTime := 1\<rparr>\<rparr>)) \<or>
    collides (map txhash (vtx sample_pair)) (map txhash (vtx sample_pair)))"
proof -
  let ?c = "sample_pair\<lparr>block_header := CBlockHeader0\<lparr>bh_nTime := 1\<rparr>\<rparr>"
  have "BuildMerkleTree ?c = BuildMerkleTree sample_pair" by (simp add: BuildMerkleTree_def)
  then show ?thesis using merkle_root_binding [of sample_pair ?c] sample_pair_tree by (simp add: sample_pair_def)
qed

end
