(* ===== verification/Zc_Arith256.thy ===== *)
theory Zc_Arith256
  imports Zc_Prelude
begin

text \<open>
  The 256-bit integers of \<^verbatim>\<open>src/arith_uint256.h\<close> and \<^verbatim>\<open>src/arith_uint256.cpp\<close>: arrays of eight 32-bit limbs, least
  significant first, with the carry loops, shifts, long division and comparison of the code.  The lemmas show that
  every routine computes on the number the limbs stand for what the operation of 256-bit words computes; the other
  theories use \<^typ>\<open>uint256\<close> words for the class.  Operands are values, so the two objects of a compound assignment are
  distinct, as at every call of the sources: \<^verbatim>\<open>operator*=\<close> clears its object before it reads the other.
\<close>

unbundle bit_operations_syntax

section \<open>The routines\<close>

type_synonym base_uint = "u32 list"

definition WIDTH :: nat where "WIDTH = 8"

definition base_uint_of :: "u64 \<Rightarrow> base_uint" where
  "base_uint_of b = [ucast b, ucast (drop_bit 32 b)] @ replicate (WIDTH - 2) 0"

definition base_uint_not :: "base_uint \<Rightarrow> base_uint" where
  "base_uint_not a = map (\<lambda>x. NOT x) a"

fun base_uint_inc :: "base_uint \<Rightarrow> base_uint" where
  "base_uint_inc [] = []"
| "base_uint_inc (x # xs) = (let x' = x + 1 in if x' = 0 then x' # base_uint_inc xs else x' # xs)"

definition base_uint_neg :: "base_uint \<Rightarrow> base_uint" where
  "base_uint_neg a = base_uint_inc (base_uint_not a)"

fun add_loop :: "u64 \<Rightarrow> base_uint \<Rightarrow> base_uint \<Rightarrow> base_uint" where
  "add_loop carry (x # xs) (y # ys) =
     (let n = carry + ucast x + ucast y in ucast (n AND 0xffffffff) # add_loop (drop_bit 32 n) xs ys)"
| "add_loop carry _ _ = []"

definition base_uint_add :: "base_uint \<Rightarrow> base_uint \<Rightarrow> base_uint" where
  "base_uint_add a b = add_loop 0 a b"

definition base_uint_sub :: "base_uint \<Rightarrow> base_uint \<Rightarrow> base_uint" where
  "base_uint_sub a b = base_uint_add a (base_uint_neg b)"

fun mul32_loop :: "u64 \<Rightarrow> u32 \<Rightarrow> base_uint \<Rightarrow> base_uint" where
  "mul32_loop carry b32 [] = []"
| "mul32_loop carry b32 (x # xs) =
     (let n = carry + ucast b32 * ucast x in ucast (n AND 0xffffffff) # mul32_loop (drop_bit 32 n) b32 xs)"

definition base_uint_mul32 :: "base_uint \<Rightarrow> u32 \<Rightarrow> base_uint" where
  "base_uint_mul32 a b32 = mul32_loop 0 b32 a"

text \<open>One pass of the inner loop adds the multiple by the limb \<open>aj\<close> to the limbs from position \<open>j\<close> on.\<close>

fun mul_row :: "u64 \<Rightarrow> u32 \<Rightarrow> base_uint \<Rightarrow> base_uint \<Rightarrow> base_uint" where
  "mul_row carry aj (p # ps) (b # bs) =
     (let n = carry + ucast p + ucast aj * ucast b in ucast (n AND 0xffffffff) # mul_row (drop_bit 32 n) aj ps bs)"
| "mul_row carry aj _ _ = []"

fun mul_rows :: "base_uint \<Rightarrow> base_uint \<Rightarrow> base_uint \<Rightarrow> base_uint" where
  "mul_rows [] pn b = pn"
| "mul_rows (aj # as) pn b = (case mul_row 0 aj pn b of [] \<Rightarrow> [] | p # ps \<Rightarrow> p # mul_rows as ps b)"

definition base_uint_mul :: "base_uint \<Rightarrow> base_uint \<Rightarrow> base_uint" where
  "base_uint_mul a b = mul_rows a (replicate WIDTH 0) b"

definition base_uint_shl :: "base_uint \<Rightarrow> nat \<Rightarrow> base_uint" where
  "base_uint_shl a shift = (let k = shift div 32; s = shift mod 32
     in map (\<lambda>i. (if k \<le> i then push_bit s (a ! (i - k)) else 0) OR
          (if k + 1 \<le> i \<and> s \<noteq> 0 then drop_bit (32 - s) (a ! (i - k - 1)) else 0)) [0..<length a])"

definition base_uint_shr :: "base_uint \<Rightarrow> nat \<Rightarrow> base_uint" where
  "base_uint_shr a shift = (let k = shift div 32; s = shift mod 32
     in map (\<lambda>i. (if i + k < length a then drop_bit s (a ! (i + k)) else 0) OR
          (if i + k + 1 < length a \<and> s \<noteq> 0 then push_bit (32 - s) (a ! (i + k + 1)) else 0)) [0..<length a])"

fun compare_loop :: "base_uint \<Rightarrow> base_uint \<Rightarrow> int" where
  "compare_loop (x # xs) (y # ys) = (if x < y then - 1 else if y < x then 1 else compare_loop xs ys)"
| "compare_loop _ _ = 0"

definition CompareTo :: "base_uint \<Rightarrow> base_uint \<Rightarrow> int" where
  "CompareTo a b = compare_loop (rev a) (rev b)"

definition EqualTo :: "base_uint \<Rightarrow> u64 \<Rightarrow> bool" where
  "EqualTo a b \<longleftrightarrow> list_all (\<lambda>x. x = 0) (drop 2 a) \<and> ucast (a ! 1) = drop_bit 32 b \<and> ucast (a ! 0) = b AND 0xffffffff"

fun limb_bits :: "nat \<Rightarrow> u32 \<Rightarrow> nat" where
  "limb_bits 0 x = 1"
| "limb_bits (Suc b) x = (if x AND push_bit (Suc b) 1 \<noteq> 0 then Suc b + 1 else limb_bits b x)"

text \<open>The limbs are given from the most significant one; \<open>length xs\<close> is the position of the limb looked at.\<close>

fun bits_loop :: "base_uint \<Rightarrow> nat" where
  "bits_loop [] = 0"
| "bits_loop (x # xs) = (if x \<noteq> 0 then 32 * length xs + limb_bits 31 x else bits_loop xs)"

definition base_uint_bits :: "base_uint \<Rightarrow> nat" where
  "base_uint_bits a = bits_loop (rev a)"

fun div_loop :: "nat \<Rightarrow> base_uint \<Rightarrow> base_uint \<Rightarrow> base_uint \<Rightarrow> base_uint" where
  "div_loop 0 num dv q = q"
| "div_loop (Suc shift) num dv q =
     (let (num', q') = (if 0 \<le> CompareTo num dv
          then (base_uint_sub num dv, q[shift div 32 := q ! (shift div 32) OR push_bit (shift mod 32) 1]) else (num, q))
      in div_loop shift num' (base_uint_shr dv 1) q')"

text \<open>\<open>None\<close> is the exception \<^verbatim>\<open>uint_error("Division by zero")\<close>.\<close>

definition base_uint_div :: "base_uint \<Rightarrow> base_uint \<Rightarrow> base_uint option" where
  "base_uint_div a b =
     (let num_bits = base_uint_bits a; div_bits = base_uint_bits b; zero = replicate WIDTH 0
      in if div_bits = 0 then None
      else if num_bits < div_bits then Some zero
      else let shift = num_bits - div_bits in Some (div_loop (Suc shift) a (base_uint_shl b shift) zero))"

definition GetLow64 :: "base_uint \<Rightarrow> u64" where
  "GetLow64 a = ucast (a ! 0) OR push_bit 32 (ucast (a ! 1))"

section \<open>The number of a limb array\<close>

fun limb_val :: "base_uint \<Rightarrow> nat" where
  "limb_val [] = 0"
| "limb_val (x # xs) = unat x + 2 ^ 32 * limb_val xs"

lemma unat_limb: "unat (x :: u32) < 2 ^ 32"
  using unsigned_less [of x, where ?'a = nat] by simp

lemma limb_val_less: "limb_val xs < 2 ^ (32 * length xs)"
proof (induction xs)
  case (Cons x xs)
  have "unat x + 2 ^ 32 * limb_val xs < 2 ^ 32 * Suc (limb_val xs)" using unat_limb [of x] by simp
  also have "\<dots> \<le> 2 ^ 32 * 2 ^ (32 * length xs)" using Cons by (intro mult_le_mono2) simp
  also have "\<dots> = 2 ^ (32 * length (x # xs))" by (simp add: power_add)
  finally show ?case by simp
qed simp

lemma limb_val_append: "limb_val (xs @ ys) = limb_val xs + 2 ^ (32 * length xs) * limb_val ys"
  by (induction xs) (simp_all add: power_add algebra_simps)

lemma limb_val_replicate [simp]: "limb_val (replicate n 0) = 0"
  by (induction n) simp_all

lemma limb_step: "(n + 2 ^ 32 * r) mod (2 ^ 32 * m) = n mod 2 ^ 32 + 2 ^ 32 * ((n div 2 ^ 32 + r) mod (m :: nat))"
proof -
  have "(n + 2 ^ 32 * r) div 2 ^ 32 = n div 2 ^ 32 + r" by simp
  then show ?thesis unfolding mod_mult2_eq by (simp add: add.commute)
qed

lemma low_high:
  fixes n :: u64
  shows "unat (ucast (n AND 0xffffffff) :: u32) = unat n mod 2 ^ 32" "unat (drop_bit 32 n) = unat n div 2 ^ 32"
proof -
  have "n AND 0xffffffff = take_bit 32 n" by (simp add: take_bit_eq_mask mask_eq_exp_minus_1)
  then have "unat (n AND 0xffffffff) = take_bit 32 (unat n)" by (simp only: unsigned_take_bit_eq)
  then show "unat (ucast (n AND 0xffffffff) :: u32) = unat n mod 2 ^ 32"
    by (simp only: unsigned_ucast_eq take_bit_eq_mod) simp
  show "unat (drop_bit 32 n) = unat n div 2 ^ 32" by (simp add: drop_bit_eq_div unat_div_distrib)
qed

lemma power_limb: "(2::nat) ^ (32 * Suc n) = 2 ^ 32 * 2 ^ (32 * n)"
  by (simp add: power_add)

section \<open>Addition, negation, multiplication\<close>

lemma unat_u64_sum:
  fixes c :: u64 and x y :: u32
  assumes "unat c < 2 ^ 32"
  shows "unat (c + ucast x + ucast y) = unat c + unat x + unat y"
    "unat (c + ucast x * ucast y) = unat c + unat x * unat y"
    "unat (c + ucast z + ucast x * ucast y) = unat c + unat (z :: u32) + unat x * unat y"
proof -
  have u: "unat (ucast w :: u64) = unat w" for w :: u32
    using unat_limb [of w] by (simp add: unsigned_ucast_eq take_bit_nat_eq_self)
  have le: "unat w \<le> 4294967295" for w :: u32 using unat_limb [of w] by simp
  have m: "unat x * unat y \<le> 4294967295 * 4294967295" by (intro mult_le_mono le)
  have p: "unat (ucast x * ucast y :: u64) = unat x * unat y" using m by (simp add: unat_word_ariths u)
  show "unat (c + ucast x + ucast y) = unat c + unat x + unat y"
    using assms le [of x] le [of y] by (simp add: unat_word_ariths u)
  show "unat (c + ucast x * ucast y) = unat c + unat x * unat y"
    using assms m by (simp add: unat_word_ariths(1) p)
  show "unat (c + ucast z + ucast x * ucast y) = unat c + unat z + unat x * unat y"
    using assms m le [of z] by (simp add: unat_word_ariths(1) p u)
qed

lemma limb_cons:
  assumes "limb_val rest = (unat n div 2 ^ 32 + r) mod 2 ^ (32 * l)"
  shows "limb_val (ucast (n AND 0xffffffff :: u64) # rest) = (unat n + 2 ^ 32 * r) mod 2 ^ (32 * Suc l)"
  unfolding power_limb limb_step limb_val.simps assms low_high(1) ..

lemma add_loop_val:
  "length xs = length ys \<Longrightarrow> unat c \<le> 1 \<Longrightarrow>
   limb_val (add_loop c xs ys) = (unat c + limb_val xs + limb_val ys) mod 2 ^ (32 * length xs) \<and> length (add_loop c xs ys) = length xs"
proof (induction c xs ys rule: add_loop.induct)
  case (1 c x xs y ys)
  define n where "n = c + ucast x + ucast y"
  have un: "unat n = unat c + unat x + unat y" unfolding n_def by (rule unat_u64_sum) (use 1 in simp)
  have "unat n div 2 ^ 32 \<le> 1" using un 1(3) unat_limb [of x] unat_limb [of y] by simp
  then have IH: "limb_val (add_loop (drop_bit 32 n) xs ys) = (unat n div 2 ^ 32 + (limb_val xs + limb_val ys)) mod 2 ^ (32 * length xs)"
      "length (add_loop (drop_bit 32 n) xs ys) = length xs"
    using 1(1) [OF n_def] 1(2) low_high(2) [of n] by (simp_all add: add.assoc)
  have e: "add_loop c (x # xs) (y # ys) = ucast (n AND 0xffffffff) # add_loop (drop_bit 32 n) xs ys"
    by (simp add: n_def Let_def)
  have "unat c + limb_val (x # xs) + limb_val (y # ys) = unat n + 2 ^ 32 * (limb_val xs + limb_val ys)"
    using un by simp
  then show ?case using limb_cons [OF IH(1)] IH(2) by (simp only: e length_Cons simp_thms)
qed simp_all

lemma mul32_loop_val:
  "unat c < 2 ^ 32 \<Longrightarrow> limb_val (mul32_loop c b xs) = (unat c + unat b * limb_val xs) mod 2 ^ (32 * length xs) \<and>
   length (mul32_loop c b xs) = length xs"
proof (induction c b xs rule: mul32_loop.induct)
  case (2 c b x xs)
  define n where "n = c + ucast b * ucast x"
  have un: "unat n = unat c + unat b * unat x" unfolding n_def by (rule unat_u64_sum(2) [OF 2(2)])
  have "unat (drop_bit 32 n) < 2 ^ 32" unfolding low_high(2) using unsigned_less [of n, where ?'a = nat] by (simp add: div_less_iff_less_mult)
  then have IH: "limb_val (mul32_loop (drop_bit 32 n) b xs) = (unat n div 2 ^ 32 + unat b * limb_val xs) mod 2 ^ (32 * length xs)"
      "length (mul32_loop (drop_bit 32 n) b xs) = length xs"
    using 2(1) [OF n_def] low_high(2) [of n] by simp_all
  have e: "mul32_loop c b (x # xs) = ucast (n AND 0xffffffff) # mul32_loop (drop_bit 32 n) b xs" by (simp add: n_def Let_def)
  have "unat c + unat b * limb_val (x # xs) = unat n + 2 ^ 32 * (unat b * limb_val xs)" using un by (simp add: algebra_simps)
  then show ?case using limb_cons [OF IH(1)] IH(2) by (simp only: e length_Cons simp_thms)
qed simp

lemma mul_row_val:
  "length ps \<le> length bs \<Longrightarrow> unat c < 2 ^ 32 \<Longrightarrow>
   limb_val (mul_row c a ps bs) = (unat c + limb_val ps + unat a * limb_val bs) mod 2 ^ (32 * length ps) \<and>
   length (mul_row c a ps bs) = length ps"
proof (induction c a ps bs rule: mul_row.induct)
  case (1 c a p ps b bs)
  define n where "n = c + ucast p + ucast a * ucast b"
  have un: "unat n = unat c + unat p + unat a * unat b" unfolding n_def by (rule unat_u64_sum(3) [OF 1(3)])
  have "unat (drop_bit 32 n) < 2 ^ 32" unfolding low_high(2) using unsigned_less [of n, where ?'a = nat] by (simp add: div_less_iff_less_mult)
  then have IH: "limb_val (mul_row (drop_bit 32 n) a ps bs) =
        (unat n div 2 ^ 32 + (limb_val ps + unat a * limb_val bs)) mod 2 ^ (32 * length ps)"
      "length (mul_row (drop_bit 32 n) a ps bs) = length ps"
    using 1(1) [OF n_def] 1(2) low_high(2) [of n] by (simp_all add: add.assoc)
  have e: "mul_row c a (p # ps) (b # bs) = ucast (n AND 0xffffffff) # mul_row (drop_bit 32 n) a ps bs" by (simp add: n_def Let_def)
  have "unat c + limb_val (p # ps) + unat a * limb_val (b # bs) = unat n + 2 ^ 32 * (limb_val ps + unat a * limb_val bs)"
    using un by (simp add: algebra_simps)
  then show ?case using limb_cons [OF IH(1)] IH(2) by (simp only: e length_Cons simp_thms)
qed simp_all

lemma mul_rows_val:
  "length as \<le> length pn \<Longrightarrow> length pn \<le> length b \<Longrightarrow>
   limb_val (mul_rows as pn b) = (limb_val pn + limb_val as * limb_val b) mod 2 ^ (32 * length pn) \<and> length (mul_rows as pn b) = length pn"
proof (induction as arbitrary: pn)
  case Nil
  then show ?case using limb_val_less [of pn] by simp
next
  case (Cons a as)
  have row: "limb_val (mul_row 0 a pn b) = (limb_val pn + unat a * limb_val b) mod 2 ^ (32 * length pn)" "length (mul_row 0 a pn b) = length pn"
    using mul_row_val [of pn b 0 a] Cons.prems by simp_all
  obtain p ps where r: "mul_row 0 a pn b = p # ps" using row(2) Cons.prems by (cases "mul_row 0 a pn b") auto
  have len: "length pn = Suc (length ps)" using row(2) r by simp
  have IH: "limb_val (mul_rows as ps b) = (limb_val ps + limb_val as * limb_val b) mod 2 ^ (32 * length ps)" "length (mul_rows as ps b) = length ps"
    using Cons.IH [of ps] Cons.prems len by simp_all
  have "limb_val (mul_rows (a # as) pn b) = (unat p + 2 ^ 32 * (limb_val ps + limb_val as * limb_val b)) mod 2 ^ (32 * length pn)"
    using IH(1) unat_limb [of p] limb_step [of "unat p" "limb_val ps + limb_val as * limb_val b" "2 ^ (32 * length ps)"]
    unfolding len power_limb by (simp add: r)
  also have "unat p + 2 ^ 32 * (limb_val ps + limb_val as * limb_val b) = limb_val (mul_row 0 a pn b) + 2 ^ 32 * (limb_val as * limb_val b)"
    by (simp add: r algebra_simps)
  also have "\<dots> mod 2 ^ (32 * length pn) = (limb_val pn + unat a * limb_val b + 2 ^ 32 * (limb_val as * limb_val b)) mod 2 ^ (32 * length pn)"
    unfolding row(1) by (rule mod_add_left_eq)
  also have "limb_val pn + unat a * limb_val b + 2 ^ 32 * (limb_val as * limb_val b) = limb_val pn + limb_val (a # as) * limb_val b"
    by (simp add: algebra_simps)
  finally show ?case using IH(2) len by (simp add: r)
qed

lemma not_val: "limb_val (base_uint_not xs) + limb_val xs + 1 = 2 ^ (32 * length xs)"
proof (induction xs)
  case (Cons x xs)
  have "uint (NOT x) = mask 32 - uint x"
    using unsigned_less [of x, where ?'a = int] by (simp add: unsigned_not_eq take_bit_not_eq_mask_diff take_bit_int_eq_self)
  then have "int (unat (NOT x) + unat x + 1) = int (2 ^ 32)" by (simp add: mask_eq_exp_minus_1)
  then have "unat (NOT x) + unat x + 1 = 2 ^ 32" by (simp only: of_nat_eq_iff)
  then have "unat (NOT x) + unat x + 1 + 2 ^ 32 * (limb_val (base_uint_not xs) + limb_val xs) =
      2 ^ 32 * (limb_val (base_uint_not xs) + limb_val xs + 1)" by simp
  then show ?case using Cons unfolding length_Cons power_limb by (simp add: base_uint_not_def algebra_simps)
qed (simp add: base_uint_not_def)

lemma inc_val: "limb_val (base_uint_inc xs) = (limb_val xs + 1) mod 2 ^ (32 * length xs)"
  "length (base_uint_inc xs) = length xs"
proof (induction xs)
  case (Cons x xs)
  { case 1
    have u: "unat (x + 1) = (unat x + 1) mod 2 ^ 32" by (simp add: unat_word_ariths)
    have "limb_val (x # xs) + 1 = (unat x + 1) + 2 ^ 32 * limb_val xs" by simp
    moreover have "(unat x + 1) div 2 ^ 32 = (if x + 1 = 0 then 1 else 0)"
    proof (cases "unat x + 1 = 2 ^ 32")
      case False
      then have "unat x + 1 < 2 ^ 32" using unat_limb [of x] by linarith
      then have "unat (x + 1) = unat x + 1" "(unat x + 1) div 2 ^ 32 = 0" using u by simp_all
      then show ?thesis by (metis add_is_0 one_neq_zero unat_0)
    qed (use u unat_eq_zero [of "x + 1"] in simp)
    moreover have "limb_val xs mod 2 ^ (32 * length xs) = limb_val xs" using limb_val_less by simp
    ultimately show ?case
      using limb_step [of "unat x + 1" "limb_val xs" "2 ^ (32 * length xs)"] u Cons unfolding length_Cons power_limb
      by (auto simp: Let_def) }
  { case 2 show ?case using Cons by (simp add: Let_def) }
qed simp_all

lemma neg_val: "limb_val (base_uint_neg xs) = (2 ^ (32 * length xs) - limb_val xs) mod 2 ^ (32 * length xs)"
  "length (base_uint_neg xs) = length xs"
proof -
  have "limb_val (base_uint_not xs) + 1 = 2 ^ (32 * length xs) - limb_val xs" using not_val [of xs] by simp
  moreover have "length (base_uint_not xs) = length xs" by (simp add: base_uint_not_def)
  ultimately show "limb_val (base_uint_neg xs) = (2 ^ (32 * length xs) - limb_val xs) mod 2 ^ (32 * length xs)"
    "length (base_uint_neg xs) = length xs" by (simp_all add: base_uint_neg_def inc_val)
qed

lemma sub_val:
  assumes "length xs = length ys" "limb_val ys \<le> limb_val xs"
  shows "limb_val (base_uint_sub xs ys) = limb_val xs - limb_val ys" "length (base_uint_sub xs ys) = length xs"
proof -
  let ?m = "2 ^ (32 * length ys) :: nat"
  have less: "limb_val xs < ?m" "limb_val ys < ?m" using limb_val_less [of xs] limb_val_less [of ys] assms(1) by simp_all
  have e: "limb_val (base_uint_sub xs ys) = (limb_val xs + (?m - limb_val ys) mod ?m) mod ?m"
    and len: "length (base_uint_sub xs ys) = length xs"
    using add_loop_val [of xs "base_uint_neg ys" 0] assms(1) by (simp_all add: base_uint_sub_def base_uint_add_def neg_val)
  have "(limb_val xs + (?m - limb_val ys) mod ?m) mod ?m = (limb_val xs + (?m - limb_val ys)) mod ?m" by (rule mod_add_right_eq)
  also have "limb_val xs + (?m - limb_val ys) = limb_val xs - limb_val ys + ?m" using less assms(2) by simp
  also have "\<dots> mod ?m = limb_val xs - limb_val ys" unfolding mod_add_self2 by (rule mod_less) (use less in linarith)
  finally show "limb_val (base_uint_sub xs ys) = limb_val xs - limb_val ys" unfolding e .
  show "length (base_uint_sub xs ys) = length xs" by (rule len)
qed

section \<open>Bits, shifts, comparison\<close>

lemma bit_limb_val: "bit (limb_val xs) i \<longleftrightarrow> i div 32 < length xs \<and> bit (xs ! (i div 32)) (i mod 32)"
proof (induction xs arbitrary: i)
  case (Cons x xs)
  show ?case
  proof (cases "i < 32")
    case True
    have "bit (limb_val (x # xs)) i \<longleftrightarrow> bit (take_bit 32 (limb_val (x # xs))) i" using True by (simp add: bit_take_bit_iff)
    also have "take_bit 32 (limb_val (x # xs)) = unat x" using unat_limb [of x] by (simp add: take_bit_eq_mod)
    finally show ?thesis using True by (simp add: bit_unsigned_iff)
  next
    case False
    then obtain j where j: "i = 32 + j" using le_Suc_ex [of 32 i] by auto
    have "bit (limb_val (x # xs)) i \<longleftrightarrow> bit (drop_bit 32 (limb_val (x # xs))) j" by (simp add: j bit_drop_bit_eq)
    moreover have "drop_bit 32 (limb_val (x # xs)) = limb_val xs" using unat_limb [of x] by (simp add: drop_bit_eq_div)
    moreover have "i div 32 = Suc (j div 32)" "i mod 32 = j mod 32" unfolding j by simp_all
    ultimately show ?thesis using Cons.IH [of j] by simp
  qed
qed simp

lemma bit_u32_shl: "r < 32 \<Longrightarrow> m < 32 \<Longrightarrow> bit (push_bit r (w :: u32)) m \<longleftrightarrow> r \<le> m \<and> bit w (m - r)"
  by (simp add: bit_push_bit_iff)

lemma bit_u32_shr: "bit (drop_bit r (w :: u32)) m \<longleftrightarrow> r + m < 32 \<and> bit w (r + m)"
  using bit_imp_le_length [of w "r + m"] by (auto simp: bit_drop_bit_eq)

lemma bit_if_0: "bit (if c then w else (0 :: u32)) m \<longleftrightarrow> c \<and> bit w m"
  by simp

lemma split_32: "m < 32 \<Longrightarrow> (32 * q + m) div 32 = q" "m < 32 \<Longrightarrow> (32 * q + m) mod 32 = (m :: nat)"
  by simp_all

lemma shl_val:
  assumes "length a = n"
  shows "limb_val (base_uint_shl a s) = take_bit (32 * n) (push_bit s (limb_val a))" "length (base_uint_shl a s) = n"
proof -
  show len: "length (base_uint_shl a s) = n" using assms by (simp add: base_uint_shl_def Let_def)
  show "limb_val (base_uint_shl a s) = take_bit (32 * n) (push_bit s (limb_val a))"
  proof (rule bit_eqI)
    fix i :: nat
    define q m k r where "q = i div 32" and "m = i mod 32" and "k = s div 32" and "r = s mod 32"
    have i: "i = 32 * q + m" "m < 32" and s: "s = 32 * k + r" "r < 32" by (simp_all add: q_def m_def k_def r_def)
    have nth: "base_uint_shl a s ! q = (if k \<le> q then push_bit r (a ! (q - k)) else 0) OR
        (if k + 1 \<le> q \<and> r \<noteq> 0 then drop_bit (32 - r) (a ! (q - k - 1)) else 0)" if "q < n"
      using that assms by (simp add: base_uint_shl_def Let_def k_def r_def)
    have "bit (limb_val (base_uint_shl a s)) i \<longleftrightarrow> q < n \<and> bit (base_uint_shl a s ! q) m"
      by (simp add: bit_limb_val len q_def m_def)
    also have "\<dots> \<longleftrightarrow> q < n \<and> (k \<le> q \<and> r \<le> m \<and> bit (a ! (q - k)) (m - r) \<or>
        k + 1 \<le> q \<and> r \<noteq> 0 \<and> m < r \<and> bit (a ! (q - k - 1)) (32 - r + m))"
      using i(2) s(2) by (auto simp: nth bit_or_iff bit_if_0 bit_u32_shl bit_u32_shr)
    also have "\<dots> \<longleftrightarrow> q < n \<and> s \<le> i \<and> bit (limb_val a) (i - s)"
    proof (cases "r \<le> m")
      case True
      have "s \<le> i \<longleftrightarrow> k \<le> q" using i s True by linarith
      moreover have "bit (limb_val a) (i - s) \<longleftrightarrow> q - k < n \<and> bit (a ! (q - k)) (m - r)" if "k \<le> q"
      proof -
        have "i - s = 32 * (q - k) + (m - r)" using i s True that by (simp add: diff_mult_distrib2)
        then show ?thesis using i(2) assms by (simp add: bit_limb_val split_32)
      qed
      ultimately show ?thesis using True by auto
    next
      case False
      have "s \<le> i \<longleftrightarrow> k + 1 \<le> q" using i s False by linarith
      moreover have "bit (limb_val a) (i - s) \<longleftrightarrow> q - k - 1 < n \<and> bit (a ! (q - k - 1)) (32 - r + m)" if "k + 1 \<le> q"
      proof -
        have "i - s = 32 * (q - k - 1) + (32 - r + m)" using i s False that by (simp add: diff_mult_distrib2)
        moreover have "32 - r + m < 32" using False s by simp
        ultimately show ?thesis using assms by (simp only: bit_limb_val split_32)
      qed
      ultimately show ?thesis using False by auto
    qed
    moreover have "i < 32 * n \<longleftrightarrow> q < n" using i by linarith
    ultimately show "bit (limb_val (base_uint_shl a s)) i \<longleftrightarrow> bit (take_bit (32 * n) (push_bit s (limb_val a))) i"
      by (auto simp: bit_take_bit_iff bit_push_bit_iff)
  qed
qed

lemma shr_val:
  assumes "length a = n"
  shows "limb_val (base_uint_shr a s) = drop_bit s (limb_val a)" "length (base_uint_shr a s) = n"
proof -
  show len: "length (base_uint_shr a s) = n" using assms by (simp add: base_uint_shr_def Let_def)
  show "limb_val (base_uint_shr a s) = drop_bit s (limb_val a)"
  proof (rule bit_eqI)
    fix i :: nat
    define q m k r where "q = i div 32" and "m = i mod 32" and "k = s div 32" and "r = s mod 32"
    have i: "i = 32 * q + m" "m < 32" and s: "s = 32 * k + r" "r < 32" by (simp_all add: q_def m_def k_def r_def)
    have nth: "base_uint_shr a s ! q = (if q + k < n then drop_bit r (a ! (q + k)) else 0) OR
        (if q + k + 1 < n \<and> r \<noteq> 0 then push_bit (32 - r) (a ! (q + k + 1)) else 0)" if "q < n"
      using that assms by (simp add: base_uint_shr_def Let_def k_def r_def)
    have "bit (limb_val (base_uint_shr a s)) i \<longleftrightarrow> q < n \<and> bit (base_uint_shr a s ! q) m"
      by (simp add: bit_limb_val len q_def m_def)
    also have "\<dots> \<longleftrightarrow> q < n \<and> (q + k < n \<and> r + m < 32 \<and> bit (a ! (q + k)) (r + m) \<or>
        q + k + 1 < n \<and> r \<noteq> 0 \<and> 32 - r \<le> m \<and> bit (a ! (q + k + 1)) (m - (32 - r)))"
      using i(2) s(2) by (auto simp: nth bit_or_iff bit_if_0 bit_u32_shl bit_u32_shr)
    also have "\<dots> \<longleftrightarrow> bit (limb_val a) (s + i)"
    proof (cases "r + m < 32")
      case True
      have "s + i = 32 * (q + k) + (r + m)" using i s by simp
      then have "bit (limb_val a) (s + i) \<longleftrightarrow> q + k < n \<and> bit (a ! (q + k)) (r + m)"
        using True assms by (simp only: bit_limb_val split_32)
      then show ?thesis using True by auto
    next
      case False
      have "s + i = 32 * (q + k + 1) + (m - (32 - r))" using i s False by simp
      moreover have "m - (32 - r) < 32" using i by simp
      ultimately have "bit (limb_val a) (s + i) \<longleftrightarrow> q + k + 1 < n \<and> bit (a ! (q + k + 1)) (m - (32 - r))"
        using assms by (simp only: bit_limb_val split_32)
      then show ?thesis using False i by auto
    qed
    finally show "bit (limb_val (base_uint_shr a s)) i \<longleftrightarrow> bit (drop_bit s (limb_val a)) i" by (simp add: bit_drop_bit_eq)
  qed
qed

lemma limb_val_rev_Cons: "limb_val (rev (x # xs)) = limb_val (rev xs) + 2 ^ (32 * length xs) * unat x"
  by (simp add: limb_val_append)

lemma lex_less:
  assumes "u < m" "(x :: nat) < y"
  shows "u + m * x < v + m * y"
proof -
  have "u + m * x < m * (x + 1)" using assms(1) by simp
  also have "\<dots> \<le> m * y" using assms(2) by (intro mult_le_mono2) simp
  finally show ?thesis by simp
qed

lemma compare_loop_val:
  "length xs = length ys \<Longrightarrow> compare_loop xs ys =
   (if limb_val (rev xs) < limb_val (rev ys) then - 1 else if limb_val (rev ys) < limb_val (rev xs) then 1 else 0)"
proof (induction xs ys rule: compare_loop.induct)
  case (1 x xs y ys)
  let ?m = "2 ^ (32 * length xs) :: nat"
  have less: "limb_val (rev xs) < ?m" "limb_val (rev ys) < ?m"
    using limb_val_less [of "rev xs"] limb_val_less [of "rev ys"] 1(2) by simp_all
  consider "x < y" | "y < x" | "x = y" by force
  then show ?case
  proof cases
    case 3
    then show ?thesis using 1 by (simp add: limb_val_append)
  qed (use lex_less [OF less(1), of "unat x" "unat y" "limb_val (rev ys)"] lex_less [OF less(2), of "unat y" "unat x" "limb_val (rev xs)"] 1(2)
    in \<open>auto simp: limb_val_append word_less_nat_alt\<close>)
qed simp_all

lemma CompareTo_val:
  "length a = length b \<Longrightarrow> CompareTo a b = (if limb_val a < limb_val b then - 1 else if limb_val b < limb_val a then 1 else 0)"
  using compare_loop_val [of "rev a" "rev b"] by (simp add: CompareTo_def)

lemma limb_bits_bound:
  assumes "x \<noteq> 0" "unat x < 2 ^ (b + 1)" "b < 32"
  shows "2 ^ (limb_bits b x - 1) \<le> unat x \<and> unat x < 2 ^ limb_bits b x \<and> 0 < limb_bits b x"
  using assms
proof (induction b)
  case 0
  have "unat x \<noteq> 0" using 0(1) unat_eq_zero by blast
  then show ?case using 0 by simp
next
  case (Suc b)
  have bit: "x AND push_bit (Suc b) 1 \<noteq> 0 \<longleftrightarrow> bit x (Suc b)" by (simp only: bit_iff_and_push_bit_not_eq_0)
  show ?case
  proof (cases "bit x (Suc b)")
    case True
    then have "bit (unat x) (Suc b)" by (simp add: bit_unsigned_iff)
    then have "odd (unat x div 2 ^ Suc b)" unfolding bit_iff_odd .
    then have "unat x div 2 ^ Suc b \<noteq> 0" by (metis even_zero)
    then have "2 ^ Suc b \<le> unat x" by (simp add: div_eq_0_iff)
    then show ?thesis using True bit Suc.prems by simp
  next
    case False
    then have "\<not> bit (unat x) (Suc b)" by (simp add: bit_unsigned_iff)
    then have "even (unat x div 2 ^ Suc b)" unfolding bit_iff_odd by blast
    moreover have "unat x div 2 ^ Suc b < 2" using Suc.prems(2) by (simp add: div_less_iff_less_mult)
    ultimately have "unat x div 2 ^ Suc b = 0" by (metis One_nat_def even_Suc less_2_cases even_zero)
    then have "unat x < 2 ^ (b + 1)" by (simp add: div_eq_0_iff)
    then show ?thesis using Suc False bit by simp
  qed
qed

lemma bits_loop_bound:
  "limb_val (rev xs) < 2 ^ bits_loop xs \<and> (bits_loop xs \<noteq> 0 \<longrightarrow> 2 ^ (bits_loop xs - 1) \<le> limb_val (rev xs)) \<and> bits_loop xs \<le> 32 * length xs"
proof (induction xs)
  case (Cons x xs)
  show ?case
  proof (cases "x = 0")
    case True
    then show ?thesis using Cons by (simp add: limb_val_append)
  next
    case False
    define l where "l = limb_bits 31 x"
    have l: "2 ^ (l - 1) \<le> unat x" "unat x < 2 ^ l" "0 < l"
      using limb_bits_bound [OF False, of 31] unat_limb [of x] by (simp_all add: l_def)
    let ?m = "2 ^ (32 * length xs) :: nat"
    have "limb_val (rev (x # xs)) < ?m * (unat x + 1)" using limb_val_less [of "rev xs"] by (simp add: limb_val_append)
    also have "\<dots> \<le> ?m * 2 ^ l" using l(2) by (intro mult_le_mono2) simp
    finally have hi: "limb_val (rev (x # xs)) < 2 ^ (32 * length xs + l)" by (simp add: power_add)
    have "?m * 2 ^ (l - 1) \<le> ?m * unat x" using l(1) by (rule mult_le_mono2)
    then have lo: "2 ^ (32 * length xs + l - 1) \<le> limb_val (rev (x # xs))"
      using l(3) by (simp add: limb_val_append power_add [symmetric])
    have "2 ^ (l - 1) < (2::nat) ^ 32" using l(1) unat_limb [of x] by (rule le_less_trans)
    then have "l - 1 < 32" by (rule power_less_imp_less_exp [rotated]) simp
    then show ?thesis using hi lo l(3) False by (simp add: l_def [symmetric])
  qed
qed simp

lemma bits_val:
  "limb_val a < 2 ^ base_uint_bits a" "base_uint_bits a \<noteq> 0 \<Longrightarrow> 2 ^ (base_uint_bits a - 1) \<le> limb_val a"
  "base_uint_bits a \<le> 32 * length a" "base_uint_bits a = 0 \<longleftrightarrow> limb_val a = 0"
proof -
  have b: "limb_val a < 2 ^ base_uint_bits a \<and> (base_uint_bits a \<noteq> 0 \<longrightarrow> 2 ^ (base_uint_bits a - 1) \<le> limb_val a) \<and> base_uint_bits a \<le> 32 * length a"
    using bits_loop_bound [of "rev a"] by (simp add: base_uint_bits_def)
  then show "limb_val a < 2 ^ base_uint_bits a" "base_uint_bits a \<noteq> 0 \<Longrightarrow> 2 ^ (base_uint_bits a - 1) \<le> limb_val a"
    "base_uint_bits a \<le> 32 * length a" by simp_all
  show "base_uint_bits a = 0 \<longleftrightarrow> limb_val a = 0"
  proof (cases "base_uint_bits a = 0")
    case False
    then have "2 ^ (base_uint_bits a - 1) \<le> limb_val a" using b by simp
    then have "limb_val a \<noteq> 0" by (metis le_zero_eq power_not_zero zero_neq_numeral)
    then show ?thesis using False by simp
  qed (use b in simp)
qed

section \<open>Division\<close>

lemma set_limb_bit:
  assumes "s < 32 * length q" "\<not> bit (limb_val q) s"
  shows "limb_val (q[s div 32 := q ! (s div 32) OR push_bit (s mod 32) 1]) = limb_val q + 2 ^ s" (is "limb_val ?q = _")
proof -
  have "limb_val q + 2 ^ s = limb_val q OR 2 ^ s"
    using assms(2) by (intro disjunctive_add_eq_or bit_eqI) (auto simp: bit_and_iff bit_exp_iff)
  moreover have "limb_val ?q = limb_val q OR 2 ^ s"
  proof (rule bit_eqI)
    fix i
    have "bit (?q ! (i div 32)) (i mod 32) \<longleftrightarrow> bit (q ! (i div 32)) (i mod 32) \<or> i = s" if "i div 32 < length q"
    proof (cases "i div 32 = s div 32")
      case True
      then have "i = s \<longleftrightarrow> i mod 32 = s mod 32" by (metis div_mult_mod_eq)
      then show ?thesis using True that by (auto simp: bit_or_iff bit_exp_iff)
    qed (use that in auto)
    moreover have "s div 32 < length q" using assms(1) by (simp add: div_less_iff_less_mult mult.commute)
    ultimately show "bit (limb_val ?q) i \<longleftrightarrow> bit (limb_val q OR 2 ^ s) i"
      by (auto simp: bit_limb_val bit_or_iff bit_exp_iff)
  qed
  ultimately show ?thesis by simp
qed

lemma dvd_not_bit: "2 ^ Suc s dvd (n :: nat) \<Longrightarrow> \<not> bit n s"
  by (auto simp: bit_iff_odd elim!: dvdE)

lemma div_loop_val:
  assumes "length num = n" "length dv = n" "length q = n" "k \<noteq> 0 \<Longrightarrow> limb_val dv = d * 2 ^ (k - 1)" "limb_val num < d * 2 ^ k"
    "2 ^ k dvd limb_val q" "k \<le> 32 * n" "0 < d"
  shows "limb_val (div_loop k num dv q) = limb_val q + limb_val num div d \<and> length (div_loop k num dv q) = n"
  using assms
proof (induction k num dv q rule: div_loop.induct)
  case (1 num dv q)
  then show ?case by simp
next
  case (2 s num dv q)
  have dv: "limb_val dv = d * 2 ^ s" using 2(5) by simp
  have half: "limb_val (base_uint_shr dv 1) = d * 2 ^ (s - 1)" if "s \<noteq> 0"
    using shr_val(1) [OF 2(3), of 1] dv that by (cases s) (simp_all add: drop_bit_eq_div)
  have ds: "2 ^ s dvd limb_val q" using 2(7) by (rule dvd_trans [rotated]) simp
  show ?case
  proof (cases "limb_val dv \<le> limb_val num")
    case True
    let ?q = "q[s div 32 := q ! (s div 32) OR push_bit (s mod 32) 1]" and ?num = "base_uint_sub num dv"
    have num: "limb_val ?num = limb_val num - limb_val dv" "length ?num = n" using sub_val [of num dv] True 2(2,3) by simp_all
    have q: "limb_val ?q = limb_val q + 2 ^ s" by (rule set_limb_bit) (use 2(4,7,8) dvd_not_bit in auto)
    have c: "0 \<le> CompareTo num dv" using CompareTo_val [of num dv] True 2(2,3) by simp
    have "limb_val (div_loop s ?num (base_uint_shr dv 1) ?q) = limb_val ?q + limb_val ?num div d \<and> length (div_loop s ?num (base_uint_shr dv 1) ?q) = n"
    proof (rule 2(1) [OF _ _ num(2)])
      show "limb_val ?num < d * 2 ^ s" using num(1) dv True 2(6) by simp
      show "2 ^ s dvd limb_val ?q" using ds unfolding q by simp
    qed (use c half 2(3,4,8,9) in \<open>simp_all add: shr_val\<close>)
    moreover have "limb_val num div d = 2 ^ s + limb_val ?num div d"
    proof -
      have "limb_val num = 2 ^ s * d + limb_val ?num" using num dv True by (simp add: mult.commute)
      then show ?thesis using 2(9) by simp
    qed
    ultimately show ?thesis using c q by (simp add: Let_def)
  next
    case False
    have c: "\<not> 0 \<le> CompareTo num dv" using CompareTo_val [of num dv] False 2(2,3) by simp
    have "limb_val (div_loop s num (base_uint_shr dv 1) q) = limb_val q + limb_val num div d \<and> length (div_loop s num (base_uint_shr dv 1) q) = n"
    proof (rule 2(1) [OF _ _ 2(2)])
      show "limb_val num < d * 2 ^ s" using False dv by simp
    qed (use c half ds 2(3,4,8,9) in \<open>simp_all add: shr_val\<close>)
    then show ?thesis using c by (simp add: Let_def)
  qed
qed

lemma base_uint_div_val:
  assumes "length a = WIDTH" "length b = WIDTH"
  shows "limb_val b = 0 \<Longrightarrow> base_uint_div a b = None"
    "limb_val b \<noteq> 0 \<Longrightarrow> \<exists>q. base_uint_div a b = Some q \<and> length q = WIDTH \<and> limb_val q = limb_val a div limb_val b"
proof -
  let ?z = "replicate WIDTH 0 :: base_uint"
  show "limb_val b = 0 \<Longrightarrow> base_uint_div a b = None" by (simp add: base_uint_div_def bits_val(4))
  assume nz: "limb_val b \<noteq> 0"
  then have nb: "base_uint_bits b \<noteq> 0" by (simp add: bits_val(4))
  show "\<exists>q. base_uint_div a b = Some q \<and> length q = WIDTH \<and> limb_val q = limb_val a div limb_val b"
  proof (cases "base_uint_bits a < base_uint_bits b")
    case True
    have "limb_val a < 2 ^ base_uint_bits a" by (rule bits_val(1))
    also have "\<dots> \<le> 2 ^ (base_uint_bits b - 1)" using True by (intro power_increasing) simp_all
    also have "\<dots> \<le> limb_val b" by (rule bits_val(2) [OF nb])
    finally show ?thesis using True nb by (simp add: base_uint_div_def)
  next
    case False
    define s where "s = base_uint_bits a - base_uint_bits b"
    have "limb_val b * 2 ^ s < 2 ^ base_uint_bits b * 2 ^ s" using bits_val(1) [of b] by simp
    also have "\<dots> = 2 ^ base_uint_bits a" using False by (simp add: s_def power_add [symmetric])
    also have "\<dots> \<le> 2 ^ (32 * WIDTH)" using bits_val(3) [of a] assms(1) by (intro power_increasing) simp_all
    finally have shl: "limb_val (base_uint_shl b s) = limb_val b * 2 ^ s"
      using shl_val(1) [OF assms(2), of s] by (simp add: push_bit_eq_mult take_bit_nat_eq_self)
    have "limb_val a < 2 ^ base_uint_bits a" by (rule bits_val(1))
    also have "\<dots> = 2 ^ (base_uint_bits b - 1) * 2 ^ Suc s" using False nb by (simp add: s_def power_add [symmetric] del: power_Suc)
    also have "\<dots> \<le> limb_val b * 2 ^ Suc s" using bits_val(2) [OF nb] by (rule mult_le_mono1)
    finally have num: "limb_val a < limb_val b * 2 ^ Suc s" .
    have "Suc s \<le> 32 * WIDTH" using bits_val(3) [of a] assms(1) nb False by (simp add: s_def)
    then have "limb_val (div_loop (Suc s) a (base_uint_shl b s) ?z) = limb_val ?z + limb_val a div limb_val b \<and>
        length (div_loop (Suc s) a (base_uint_shl b s) ?z) = WIDTH"
      by (intro div_loop_val) (use assms shl num nz in \<open>simp_all add: shl_val\<close>)
    then show ?thesis using False nb by (simp add: base_uint_div_def s_def Let_def del: div_loop.simps)
  qed
qed

section \<open>The routines and 256-bit words\<close>

definition to_word :: "base_uint \<Rightarrow> uint256" where
  "to_word a = of_nat (limb_val a)"

lemma unat_to_word:
  assumes "length a = WIDTH"
  shows "unat (to_word a) = limb_val a"
proof -
  have "limb_val a < 2 ^ 256" using limb_val_less [of a] assms by (simp add: WIDTH_def)
  then show ?thesis by (simp add: to_word_def unat_of_nat take_bit_nat_eq_self)
qed

lemma of_nat_mod_256: "(of_nat (n mod 2 ^ (32 * WIDTH)) :: uint256) = of_nat n"
  by (rule word_unat_eq_iff [THEN iffD2]) (simp add: unat_of_nat take_bit_eq_mod WIDTH_def)

lemma to_word_add: "length a = WIDTH \<Longrightarrow> length b = WIDTH \<Longrightarrow> to_word (base_uint_add a b) = to_word a + to_word b"
  using add_loop_val [of a b 0] of_nat_mod_256 [of "limb_val a + limb_val b"] by (simp add: to_word_def base_uint_add_def)

lemma to_word_neg:
  assumes "length a = WIDTH"
  shows "to_word (base_uint_neg a) = - to_word a"
proof -
  have le: "limb_val a \<le> 2 ^ (32 * WIDTH)" using limb_val_less [of a] assms by simp
  have "to_word (base_uint_neg a) = of_nat (2 ^ (32 * WIDTH) - limb_val a)"
    unfolding to_word_def neg_val assms by (rule of_nat_mod_256)
  moreover have "of_nat (2 ^ (32 * WIDTH) - limb_val a) = of_nat (2 ^ (32 * WIDTH)) - to_word a"
    unfolding to_word_def by (rule of_nat_diff [OF le])
  moreover have "(of_nat (2 ^ (32 * WIDTH)) :: uint256) = 0" using of_nat_mod_256 [of "2 ^ (32 * WIDTH)"] by simp
  ultimately show ?thesis by simp
qed

lemma to_word_sub: "length a = WIDTH \<Longrightarrow> length b = WIDTH \<Longrightarrow> to_word (base_uint_sub a b) = to_word a - to_word b"
  by (simp add: base_uint_sub_def to_word_add to_word_neg neg_val)

lemma to_word_mul:
  assumes "length a = WIDTH" "length b = WIDTH"
  shows "to_word (base_uint_mul a b) = to_word a * to_word b" "to_word (base_uint_mul32 a c) = to_word a * ucast c"
proof -
  show "to_word (base_uint_mul a b) = to_word a * to_word b"
    using mul_rows_val [of a "replicate WIDTH 0" b] assms of_nat_mod_256 [of "limb_val a * limb_val b"]
    by (simp add: to_word_def base_uint_mul_def)
  show "to_word (base_uint_mul32 a c) = to_word a * ucast c"
    using mul32_loop_val [of 0 c a] assms(1) of_nat_mod_256 [of "unat c * limb_val a"]
    by (simp add: to_word_def base_uint_mul32_def mult.commute)
qed

lemma to_word_shift:
  assumes "length a = WIDTH"
  shows "to_word (base_uint_shl a s) = push_bit s (to_word a)" "to_word (base_uint_shr a s) = drop_bit s (to_word a)"
proof -
  have "to_word (base_uint_shl a s) = of_nat (push_bit s (limb_val a))"
    unfolding to_word_def shl_val(1) [OF assms] take_bit_eq_mod by (rule of_nat_mod_256)
  then show "to_word (base_uint_shl a s) = push_bit s (to_word a)" by (simp add: to_word_def push_bit_eq_mult)
  have "unat (drop_bit s (to_word a)) = drop_bit s (limb_val a)"
    using unat_to_word [OF assms] limb_val_less [of a] assms by (simp add: unsigned_drop_bit_eq take_bit_nat_eq_self WIDTH_def)
  moreover have "unat (to_word (base_uint_shr a s)) = drop_bit s (limb_val a)"
    using unat_to_word [of "base_uint_shr a s"] shr_val [OF assms] by simp
  ultimately show "to_word (base_uint_shr a s) = drop_bit s (to_word a)" by (simp add: word_unat_eq_iff)
qed

lemma to_word_div:
  assumes "length a = WIDTH" "length b = WIDTH"
  shows "map_option to_word (base_uint_div a b) = (if to_word b = 0 then None else Some (to_word a div to_word b))"
proof -
  have z: "to_word b = 0 \<longleftrightarrow> limb_val b = 0" using unat_to_word [OF assms(2)] unat_eq_zero [of "to_word b"] by simp
  show ?thesis
  proof (cases "limb_val b = 0")
    case False
    then obtain q where q: "base_uint_div a b = Some q" "length q = WIDTH" "limb_val q = limb_val a div limb_val b"
      using base_uint_div_val(2) [OF assms] by blast
    have "unat (to_word q) = unat (to_word a div to_word b)" using q assms by (simp add: unat_to_word unat_div_distrib)
    then show ?thesis using q(1) False z by (simp add: word_unat_eq_iff)
  qed (use z base_uint_div_val(1) [OF assms] in simp)
qed

lemma to_word_compare:
  assumes "length a = WIDTH" "length b = WIDTH"
  shows "CompareTo a b = (if to_word a < to_word b then - 1 else if to_word b < to_word a then 1 else 0)"
  using CompareTo_val [of a b] assms by (simp add: word_less_nat_alt unat_to_word)

text \<open>C14: Every routine of the 256-bit integers refines the operation of 256-bit words: on the numbers the limbs stand
  for, addition, subtraction, negation, both multiplications and both shifts are those of words, division is the
  quotient and throws exactly for a zero divisor, comparison is the order, and \<^verbatim>\<open>bits()\<close> is the length of the binary
  representation.\<close>

theorem base_uint_refines_words:
  assumes "length a = WIDTH" "length b = WIDTH"
  shows "to_word (base_uint_add a b) = to_word a + to_word b \<and> to_word (base_uint_sub a b) = to_word a - to_word b \<and>
    to_word (base_uint_neg a) = - to_word a \<and> to_word (base_uint_mul a b) = to_word a * to_word b \<and>
    to_word (base_uint_mul32 a c) = to_word a * ucast c \<and>
    to_word (base_uint_shl a s) = push_bit s (to_word a) \<and> to_word (base_uint_shr a s) = drop_bit s (to_word a) \<and>
    map_option to_word (base_uint_div a b) = (if to_word b = 0 then None else Some (to_word a div to_word b)) \<and>
    CompareTo a b = (if to_word a < to_word b then - 1 else if to_word b < to_word a then 1 else 0) \<and>
    unat (to_word a) < 2 ^ base_uint_bits a \<and> 2 ^ base_uint_bits a \<le> max 1 (2 * unat (to_word a))"
proof (intro conjI)
  show "unat (to_word a) < 2 ^ base_uint_bits a" using bits_val(1) [of a] assms by (simp add: unat_to_word)
  show "2 ^ base_uint_bits a \<le> max 1 (2 * unat (to_word a))"
  proof (cases "base_uint_bits a = 0")
    case False
    then have "2 * 2 ^ (base_uint_bits a - 1) \<le> 2 * limb_val a" using bits_val(2) [of a] by simp
    then show ?thesis using False assms by (simp add: unat_to_word power_eq_if [of 2 "base_uint_bits a"])
  qed simp
qed (use assms in \<open>simp_all only: to_word_add to_word_sub to_word_neg to_word_mul to_word_shift to_word_div to_word_compare\<close>)

theorem base_uint_refines_words_witness:
  "length (base_uint_of 7) = WIDTH \<and> length (base_uint_of 2) = WIDTH \<and>
   map_option to_word (base_uint_div (base_uint_of 7) (base_uint_of 2)) = Some 3"
proof -
  have len: "length (base_uint_of b) = WIDTH" for b by (simp add: base_uint_of_def WIDTH_def)
  have w: "to_word (base_uint_of 7) = 7" "to_word (base_uint_of 2) = 2" by (simp_all add: base_uint_of_def to_word_def)
  show ?thesis using base_uint_refines_words [OF len [of 7] len [of 2]] len unfolding w by simp
qed

end
