(* ===== verification/Zc_Chain.thy ===== *)
theory Zc_Chain
  imports Zc_Consensus Zc_Block Zc_Arith256
begin

text \<open>
  The block index (\<^verbatim>\<open>src/chain.h\<close>, \<^verbatim>\<open>src/chain.cpp\<close>): entries linked to their predecessors with a skip pointer each,
  and the active chain as an array.  Entries live in a memory \<open>block_tree\<close> that maps pointers to entries; a failed
  assertion or the use of a dangling pointer is \<open>None\<close>, and a null pointer is the inner \<open>None\<close>.  The lemmas show that
  following skip pointers finds the same ancestors as following predecessors, that the array always holds the path from
  the genesis block to its tip, and that the fork point of a block is its last ancestor in the array.
\<close>

unbundle bit_operations_syntax

section \<open>Entries\<close>

type_synonym ptr = nat

record CBlockIndex =
  bi_hashBlock :: uint256
  bi_pprev :: "ptr option"
  bi_pskip :: "ptr option"
  bi_nHeight :: int
  bi_nFile :: int
  bi_nDataPos :: u32
  bi_nUndoPos :: u32
  bi_nChainWork :: base_uint
  bi_nTx :: u32
  bi_nChainTx :: u32
  bi_nStatus :: u32
  bi_nCachedBranchId :: "u32 option"
  bi_hashSproutAnchor :: uint256
  bi_hashFinalSproutRoot :: uint256
  bi_nSproutValue :: "int option"
  bi_nChainSproutValue :: "int option"
  bi_nSaplingValue :: int
  bi_nChainSaplingValue :: "int option"
  bi_hashFinalSaplingRoot :: uint256
  bi_hashChainHistoryRoot :: uint256
  bi_nVersion :: int
  bi_hashMerkleRoot :: uint256
  bi_hashLightClientRoot :: uint256
  bi_nTime :: u32
  bi_nBits :: u32
  bi_nNonce :: uint256
  bi_nSolution :: bytes
  bi_nSequenceId :: u32

type_synonym block_tree = "ptr \<rightharpoonup> CBlockIndex"

definition CBlockIndex0 :: CBlockIndex where
  "CBlockIndex0 =
     \<lparr>bi_hashBlock = 0, bi_pprev = None, bi_pskip = None, bi_nHeight = 0, bi_nFile = 0, bi_nDataPos = 0, bi_nUndoPos = 0,
      bi_nChainWork = replicate WIDTH 0, bi_nTx = 0, bi_nChainTx = 0, bi_nStatus = 0, bi_nCachedBranchId = None, bi_hashSproutAnchor = 0,
      bi_hashFinalSproutRoot = 0, bi_nSproutValue = None, bi_nChainSproutValue = None, bi_nSaplingValue = 0,
      bi_nChainSaplingValue = None, bi_hashFinalSaplingRoot = 0, bi_hashChainHistoryRoot = 0, bi_nVersion = 0,
      bi_hashMerkleRoot = 0, bi_hashLightClientRoot = 0, bi_nTime = 0, bi_nBits = 0, bi_nNonce = 0, bi_nSolution = [],
      bi_nSequenceId = 0\<rparr>"

definition CBlockIndex_of :: "CBlockHeader \<Rightarrow> CBlockIndex" where
  "CBlockIndex_of h = CBlockIndex0\<lparr>bi_nVersion := bh_nVersion h, bi_hashMerkleRoot := bh_hashMerkleRoot h,
     bi_hashLightClientRoot := bh_hashLightClientRoot h, bi_nTime := bh_nTime h, bi_nBits := bh_nBits h,
     bi_nNonce := bh_nNonce h, bi_nSolution := bh_nSolution h\<rparr>"

definition index_GetBlockHeader :: "block_tree \<Rightarrow> CBlockIndex \<Rightarrow> CBlockHeader option" where
  "index_GetBlockHeader T b =
     Option.bind (case bi_pprev b of None \<Rightarrow> Some 0 | Some q \<Rightarrow> map_option bi_hashBlock (T q)) (\<lambda>prev.
     Some \<lparr>bh_nVersion = bi_nVersion b, bh_hashPrevBlock = prev, bh_hashMerkleRoot = bi_hashMerkleRoot b,
       bh_hashLightClientRoot = bi_hashLightClientRoot b, bh_nTime = bi_nTime b, bh_nBits = bi_nBits b,
       bh_nNonce = bi_nNonce b, bh_nSolution = bi_nSolution b\<rparr>)"

lemma index_header_roundtrip:
  assumes "T q = Some c" "bi_hashBlock c = bh_hashPrevBlock h"
  shows "index_GetBlockHeader T ((CBlockIndex_of h)\<lparr>bi_pprev := Some q\<rparr>) = Some h"
  using assms by (simp add: index_GetBlockHeader_def CBlockIndex_of_def CBlockIndex0_def)

definition BLOCK_VALID_SCRIPTS :: u32 where "BLOCK_VALID_SCRIPTS = 5"

definition BLOCK_VALID_MASK :: u32 where "BLOCK_VALID_MASK = 1 OR 2 OR 3 OR 4 OR 5"

definition BLOCK_HAVE_DATA :: u32 where "BLOCK_HAVE_DATA = 8"

definition BLOCK_HAVE_UNDO :: u32 where "BLOCK_HAVE_UNDO = 16"

definition BLOCK_FAILED_MASK :: u32 where "BLOCK_FAILED_MASK = 32 OR 64"

definition BLOCK_ACTIVATES_UPGRADE :: u32 where "BLOCK_ACTIVATES_UPGRADE = 128"

record CDiskBlockPos =
  pos_nFile :: int
  pos_nPos :: u32

definition CDiskBlockPos_Null :: CDiskBlockPos where
  "CDiskBlockPos_Null = \<lparr>pos_nFile = - 1, pos_nPos = 0\<rparr>"

definition CDiskBlockPos_IsNull :: "CDiskBlockPos \<Rightarrow> bool" where
  "CDiskBlockPos_IsNull pos \<longleftrightarrow> pos_nFile pos = - 1"

definition GetBlockPos :: "CBlockIndex \<Rightarrow> CDiskBlockPos" where
  "GetBlockPos b = (if bi_nStatus b AND BLOCK_HAVE_DATA \<noteq> 0 then \<lparr>pos_nFile = bi_nFile b, pos_nPos = bi_nDataPos b\<rparr> else CDiskBlockPos_Null)"

definition GetUndoPos :: "CBlockIndex \<Rightarrow> CDiskBlockPos" where
  "GetUndoPos b = (if bi_nStatus b AND BLOCK_HAVE_UNDO \<noteq> 0 then \<lparr>pos_nFile = bi_nFile b, pos_nPos = bi_nUndoPos b\<rparr> else CDiskBlockPos_Null)"

definition block_IsValid :: "u32 \<Rightarrow> CBlockIndex \<Rightarrow> bool option" where
  "block_IsValid nUpTo b =
     (if nUpTo AND NOT BLOCK_VALID_MASK \<noteq> 0 then None
      else if bi_nStatus b AND BLOCK_FAILED_MASK \<noteq> 0 then Some False
      else Some (nUpTo \<le> bi_nStatus b AND BLOCK_VALID_MASK))"

definition RaiseValidity :: "u32 \<Rightarrow> CBlockIndex \<Rightarrow> (bool \<times> CBlockIndex) option" where
  "RaiseValidity nUpTo b =
     (if nUpTo AND NOT BLOCK_VALID_MASK \<noteq> 0 then None
      else if bi_nStatus b AND BLOCK_FAILED_MASK \<noteq> 0 then Some (False, b)
      else if bi_nStatus b AND BLOCK_VALID_MASK < nUpTo
      then Some (True, b\<lparr>bi_nStatus := (bi_nStatus b AND NOT BLOCK_VALID_MASK) OR nUpTo\<rparr>) else Some (False, b))"

fun median_times :: "nat \<Rightarrow> block_tree \<Rightarrow> ptr option \<Rightarrow> int list option" where
  "median_times 0 T p = Some []"
| "median_times (Suc n) T None = Some []"
| "median_times (Suc n) T (Some p) = Option.bind (T p) (\<lambda>b.
     Option.bind (median_times n T (bi_pprev b)) (\<lambda>ts. Some (uint (bi_nTime b) # ts)))"

definition GetMedianTimePast :: "block_tree \<Rightarrow> ptr \<Rightarrow> int option" where
  "GetMedianTimePast T p = map_option (\<lambda>ts. sort ts ! (length ts div 2)) (median_times 11 T (Some p))"

section \<open>The skip list\<close>

definition InvertLowestOne :: "int \<Rightarrow> int" where
  "InvertLowestOne n = n AND (n - 1)"

definition GetSkipHeight :: "int \<Rightarrow> int" where
  "GetSkipHeight height =
     (if height < 2 then 0
      else if height AND 1 \<noteq> 0 then InvertLowestOne (InvertLowestOne (height - 1)) + 1 else InvertLowestOne height)"

lemma InvertLowestOne_bounds: "0 \<le> n \<Longrightarrow> 0 \<le> InvertLowestOne n \<and> InvertLowestOne n \<le> n \<and> (0 < n \<longrightarrow> InvertLowestOne n < n)"
proof -
  assume n: "0 \<le> n"
  have "n AND (n - 1) \<le> n" using n AND_upper1 by blast
  moreover have "n AND (n - 1) \<le> n - 1" if "0 < n" using that AND_upper2 [of "n - 1" n] by simp
  ultimately show ?thesis using n by (auto simp: InvertLowestOne_def)
qed

lemma GetSkipHeight_bounds:
  assumes "0 < h"
  shows "0 \<le> GetSkipHeight h" "GetSkipHeight h < h"
proof -
  define x y where "x = InvertLowestOne (h - 1)" and "y = InvertLowestOne h"
  have "0 \<le> x" "x \<le> h - 1" "2 \<le> h \<longrightarrow> x < h - 1" using InvertLowestOne_bounds [of "h - 1"] assms by (auto simp: x_def)
  moreover have "0 \<le> InvertLowestOne x" "InvertLowestOne x \<le> x" using InvertLowestOne_bounds [OF \<open>0 \<le> x\<close>] by simp_all
  moreover have "0 \<le> y" "y < h" using InvertLowestOne_bounds [of h] assms by (simp_all add: y_def)
  ultimately show "0 \<le> GetSkipHeight h" "GetSkipHeight h < h"
    using assms unfolding GetSkipHeight_def x_def [symmetric] y_def [symmetric] by auto
qed

text \<open>The loop runs while \<^verbatim>\<open>heightWalk > height\<close>, where \<^verbatim>\<open>height\<close> is not negative.\<close>

function ancestor_walk :: "block_tree \<Rightarrow> nat \<Rightarrow> ptr \<Rightarrow> int \<Rightarrow> ptr option" where
  "ancestor_walk T height pindexWalk heightWalk =
     (if int height < heightWalk
      then let heightSkip = GetSkipHeight heightWalk; heightSkipPrev = GetSkipHeight (heightWalk - 1)
        in case T pindexWalk of None \<Rightarrow> None
        | Some b \<Rightarrow>
            if bi_pskip b \<noteq> None \<and> (heightSkip = int height \<or>
                 (int height < heightSkip \<and> \<not> (heightSkipPrev < heightSkip - 2 \<and> int height \<le> heightSkipPrev)))
            then ancestor_walk T height (the (bi_pskip b)) heightSkip
            else (case bi_pprev b of None \<Rightarrow> None | Some q \<Rightarrow> ancestor_walk T height q (heightWalk - 1))
      else Some pindexWalk)"
  by pat_completeness auto
termination
proof (relation "measure (\<lambda>(_, _, _, w). nat w)", goal_cases)
  case (2 T height p w x xa b)
  then show ?case using GetSkipHeight_bounds [of w] by simp
qed auto

declare ancestor_walk.simps [simp del]

definition GetAncestor :: "block_tree \<Rightarrow> ptr \<Rightarrow> int \<Rightarrow> ptr option option" where
  "GetAncestor T p height = Option.bind (T p) (\<lambda>b.
     if bi_nHeight b < height \<or> height < 0 then Some None
     else map_option Some (ancestor_walk T (nat height) p (bi_nHeight b)))"

definition BuildSkip :: "ptr \<Rightarrow> block_tree \<Rightarrow> block_tree option" where
  "BuildSkip p T = Option.bind (T p) (\<lambda>b. case bi_pprev b of None \<Rightarrow> Some T
     | Some q \<Rightarrow> map_option (\<lambda>a. T(p \<mapsto> b\<lparr>bi_pskip := a\<rparr>)) (GetAncestor T q (GetSkipHeight (bi_nHeight b))))"

section \<open>The active chain\<close>

type_synonym CChain = "ptr option list"

definition chain_Tip :: "CChain \<Rightarrow> ptr option" where
  "chain_Tip vChain = (if vChain = [] then None else last vChain)"

definition chain_Genesis :: "CChain \<Rightarrow> ptr option" where
  "chain_Genesis vChain = (if vChain = [] then None else hd vChain)"

text \<open>\<^verbatim>\<open>operator==\<close> reads the last entry of both arrays when the sizes agree, which for empty arrays is out of range.\<close>

definition chain_eq :: "CChain \<Rightarrow> CChain \<Rightarrow> bool option" where
  "chain_eq a b = (if length a \<noteq> length b then Some False else if a = [] then None else Some (last a = last b))"

definition chain_Height :: "CChain \<Rightarrow> int" where
  "chain_Height vChain = int (length vChain) - 1"

definition chain_at :: "CChain \<Rightarrow> int \<Rightarrow> ptr option" where
  "chain_at vChain nHeight = (if nHeight < 0 \<or> int (length vChain) \<le> nHeight then None else vChain ! nat nHeight)"

definition chain_Contains :: "block_tree \<Rightarrow> CChain \<Rightarrow> ptr \<Rightarrow> bool option" where
  "chain_Contains T vChain p = map_option (\<lambda>b. chain_at vChain (bi_nHeight b) = Some p) (T p)"

definition chain_Next :: "block_tree \<Rightarrow> CChain \<Rightarrow> ptr \<Rightarrow> ptr option option" where
  "chain_Next T vChain p = Option.bind (T p) (\<lambda>b.
     Some (if chain_at vChain (bi_nHeight b) = Some p then chain_at vChain (bi_nHeight b + 1) else None))"

partial_function (option) set_tip_loop :: "block_tree \<Rightarrow> CChain \<Rightarrow> ptr option \<Rightarrow> CChain option" where
  "set_tip_loop T vChain pindex = (case pindex of None \<Rightarrow> Some vChain
     | Some p \<Rightarrow> (case T p of None \<Rightarrow> None
       | Some b \<Rightarrow>
           if bi_nHeight b < 0 \<or> int (length vChain) \<le> bi_nHeight b then None
           else if vChain ! nat (bi_nHeight b) = Some p then Some vChain
           else set_tip_loop T (vChain[nat (bi_nHeight b) := Some p]) (bi_pprev b)))"

definition SetTip :: "block_tree \<Rightarrow> CChain \<Rightarrow> ptr option \<Rightarrow> CChain option" where
  "SetTip T vChain pindex = (case pindex of None \<Rightarrow> Some []
     | Some p \<Rightarrow> Option.bind (T p) (\<lambda>b.
         let n = nat (bi_nHeight b + 1) in set_tip_loop T (take n vChain @ replicate (n - length vChain) None) (Some p)))"

partial_function (option) find_fork_loop :: "block_tree \<Rightarrow> CChain \<Rightarrow> ptr option \<Rightarrow> ptr option option" where
  "find_fork_loop T vChain pindex = (case pindex of None \<Rightarrow> Some None
     | Some p \<Rightarrow> (case T p of None \<Rightarrow> None
       | Some b \<Rightarrow> if chain_at vChain (bi_nHeight b) = Some p then Some (Some p) else find_fork_loop T vChain (bi_pprev b)))"

definition FindFork :: "block_tree \<Rightarrow> CChain \<Rightarrow> ptr \<Rightarrow> ptr option option" where
  "FindFork T vChain p = Option.bind (T p) (\<lambda>b.
     Option.bind (if chain_Height vChain < bi_nHeight b then GetAncestor T p (chain_Height vChain) else Some (Some p)) (\<lambda>q.
     find_fork_loop T vChain q))"

partial_function (option) locator_loop :: "block_tree \<Rightarrow> CChain \<Rightarrow> int \<Rightarrow> uint256 list \<Rightarrow> ptr option \<Rightarrow> uint256 list option" where
  "locator_loop T vChain nStep vHave pindex = (case pindex of None \<Rightarrow> Some vHave
     | Some p \<Rightarrow> (case T p of None \<Rightarrow> None
       | Some b \<Rightarrow>
         let vHave1 = vHave @ [bi_hashBlock b]
         in if bi_nHeight b = 0 then Some vHave1
         else let h = max (bi_nHeight b - nStep) 0
           in case (if chain_at vChain (bi_nHeight b) = Some p then Some (chain_at vChain h) else GetAncestor T p h) of None \<Rightarrow> None
              | Some q \<Rightarrow> locator_loop T vChain (if 10 < length vHave1 then nStep * 2 else nStep) vHave1 q))"

definition GetLocator :: "block_tree \<Rightarrow> CChain \<Rightarrow> ptr option \<Rightarrow> uint256 list option" where
  "GetLocator T vChain pindex = locator_loop T vChain 1 [] (if pindex = None then chain_Tip vChain else pindex)"

section \<open>Ancestors\<close>

fun nth_prev :: "block_tree \<Rightarrow> nat \<Rightarrow> ptr \<Rightarrow> ptr option" where
  "nth_prev T 0 p = Some p"
| "nth_prev T (Suc n) p = Option.bind (T p) (\<lambda>b. Option.bind (bi_pprev b) (nth_prev T n))"

definition entry_ok :: "block_tree \<Rightarrow> ptr \<Rightarrow> CBlockIndex \<Rightarrow> bool" where
  "entry_ok T p b \<longleftrightarrow> 0 \<le> bi_nHeight b \<and>
     (case bi_pprev b of None \<Rightarrow> bi_nHeight b = 0 | Some q \<Rightarrow> (\<exists>c. T q = Some c \<and> bi_nHeight c = bi_nHeight b - 1)) \<and>
     (bi_pskip b \<noteq> None \<longrightarrow> 0 < bi_nHeight b \<and> nth_prev T (nat (bi_nHeight b - GetSkipHeight (bi_nHeight b))) p = bi_pskip b)"

definition tree_ok :: "block_tree \<Rightarrow> bool" where
  "tree_ok T \<longleftrightarrow> (\<forall>p b. T p = Some b \<longrightarrow> entry_ok T p b)"

lemma tree_okD:
  assumes "tree_ok T" "T p = Some b"
  shows "0 \<le> bi_nHeight b" "bi_pprev b = None \<Longrightarrow> bi_nHeight b = 0"
    "bi_pprev b = Some q \<Longrightarrow> \<exists>c. T q = Some c \<and> bi_nHeight c = bi_nHeight b - 1"
    "bi_pskip b = Some r \<Longrightarrow> 0 < bi_nHeight b \<and> nth_prev T (nat (bi_nHeight b - GetSkipHeight (bi_nHeight b))) p = Some r"
proof -
  have "entry_ok T p b" using assms by (simp add: tree_ok_def)
  then show "0 \<le> bi_nHeight b" "bi_pprev b = None \<Longrightarrow> bi_nHeight b = 0"
    "bi_pprev b = Some q \<Longrightarrow> \<exists>c. T q = Some c \<and> bi_nHeight c = bi_nHeight b - 1"
    "bi_pskip b = Some r \<Longrightarrow> 0 < bi_nHeight b \<and> nth_prev T (nat (bi_nHeight b - GetSkipHeight (bi_nHeight b))) p = Some r"
    by (simp_all add: entry_ok_def)
qed

lemma nth_prev_add: "nth_prev T (m + n) p = Option.bind (nth_prev T m p) (nth_prev T n)"
  by (induction m arbitrary: p) (auto split: bind_splits)

lemma nth_prev_exists:
  assumes "tree_ok T" "T p = Some b" "k \<le> nat (bi_nHeight b)"
  shows "\<exists>q c. nth_prev T k p = Some q \<and> T q = Some c \<and> bi_nHeight c = bi_nHeight b - int k"
  using assms(2,3)
proof (induction k arbitrary: p b)
  case (Suc k)
  have "bi_nHeight b \<noteq> 0" using Suc.prems by auto
  then obtain q where q: "bi_pprev b = Some q" using tree_okD(2) [OF assms(1) Suc.prems(1)] by (cases "bi_pprev b") auto
  obtain c where c: "T q = Some c" "bi_nHeight c = bi_nHeight b - 1" using tree_okD(3) [OF assms(1) Suc.prems(1) q] by blast
  have "k \<le> nat (bi_nHeight c)" using Suc.prems(2) c(2) by simp
  from Suc.IH [OF c(1) this] show ?case using Suc.prems(1) q c(2) by (simp add: algebra_simps)
qed simp

lemma ancestor_walk_correct:
  "tree_ok T \<Longrightarrow> T p = Some b \<Longrightarrow> bi_nHeight b = w \<Longrightarrow> int h \<le> w \<Longrightarrow> ancestor_walk T h p w = nth_prev T (nat w - h) p"
proof (induction T h p w arbitrary: b rule: ancestor_walk.induct)
  case (1 T h p w)
  show ?case
  proof (cases "int h < w")
    case False
    then have "nat w - h = 0" by simp
    then show ?thesis using False by (subst ancestor_walk.simps) simp
  next
    case True
    let ?s = "GetSkipHeight w" and ?s' = "GetSkipHeight (w - 1)"
    have s: "0 \<le> ?s" "?s < w" using GetSkipHeight_bounds [of w] True by simp_all
    show ?thesis
    proof (cases "bi_pskip b \<noteq> None \<and> (?s = int h \<or> (int h < ?s \<and> \<not> (?s' < ?s - 2 \<and> int h \<le> ?s')))")
      case skip: True
      then obtain r where r: "bi_pskip b = Some r" by blast
      have n: "nth_prev T (nat (w - ?s)) p = Some r" using tree_okD(4) [OF 1(3,4) r] 1(5) by simp
      have "nat (w - ?s) \<le> nat (bi_nHeight b)" using 1(5) s by simp
      from nth_prev_exists [OF 1(3,4) this] obtain c where c: "T r = Some c" "bi_nHeight c = ?s" using n 1(5) s by auto
      have "ancestor_walk T h r ?s = nth_prev T (nat ?s - h) r"
        using 1(1) [OF True refl refl 1(4) skip 1(3), of c] r c skip by auto
      moreover have "nth_prev T (nat w - h) p = nth_prev T (nat ?s - h) r"
      proof -
        have "nat w - h = nat (w - ?s) + (nat ?s - h)" using skip s by auto
        then show ?thesis using n by (simp add: nth_prev_add)
      qed
      ultimately show ?thesis using True skip 1(4) r by (subst ancestor_walk.simps) (simp add: Let_def)
    next
      case noskip: False
      have "bi_nHeight b \<noteq> 0" using True 1(5) by auto
      then obtain q where q: "bi_pprev b = Some q" using tree_okD(2) [OF 1(3,4)] by (cases "bi_pprev b") auto
      obtain c where c: "T q = Some c" "bi_nHeight c = w - 1" using tree_okD(3) [OF 1(3,4) q] 1(5) by blast
      have "ancestor_walk T h q (w - 1) = nth_prev T (nat (w - 1) - h) q"
        using 1(2) [OF True refl refl 1(4) noskip q 1(3) c] True by simp
      moreover have "nat w - h = Suc (nat (w - 1) - h)" using True by simp
      ultimately show ?thesis using True noskip 1(4) q by (subst ancestor_walk.simps) (auto simp add: Let_def)
    qed
  qed
qed

lemma GetAncestor_eq:
  assumes "tree_ok T" "T p = Some b"
  shows "GetAncestor T p h = Some (if 0 \<le> h \<and> h \<le> bi_nHeight b then nth_prev T (nat (bi_nHeight b - h)) p else None)"
proof (cases "0 \<le> h \<and> h \<le> bi_nHeight b")
  case True
  then have "ancestor_walk T (nat h) p (bi_nHeight b) = nth_prev T (nat (bi_nHeight b) - nat h) p"
    by (intro ancestor_walk_correct [OF assms refl]) simp
  moreover have "nat (bi_nHeight b) - nat h = nat (bi_nHeight b - h)" using True by (simp add: nat_diff_distrib)
  moreover have "nat (bi_nHeight b - h) \<le> nat (bi_nHeight b)" using True by linarith
  note nth_prev_exists [OF assms this]
  ultimately show ?thesis using True assms(2) by (auto simp: GetAncestor_def)
qed (use assms(2) in \<open>auto simp: GetAncestor_def\<close>)

lemma nth_prev_cong: "(\<And>p. map_option bi_pprev (T' p) = map_option bi_pprev (T p)) \<Longrightarrow> nth_prev T' k p = nth_prev T k p"
proof (induction k arbitrary: p)
  case (Suc k)
  have "map_option bi_pprev (T' p) = map_option bi_pprev (T p)" by (rule Suc.prems)
  then show ?case using Suc.IH [OF Suc.prems] by (cases "T p"; cases "T' p") (auto split: bind_splits)
qed simp

lemma BuildSkip_ok:
  assumes "tree_ok T" "T p = Some b"
  shows "\<exists>T'. BuildSkip p T = Some T' \<and> tree_ok T'"
proof (cases "bi_pprev b")
  case None
  then show ?thesis using assms by (simp add: BuildSkip_def)
next
  case (Some q)
  let ?s = "GetSkipHeight (bi_nHeight b)"
  obtain c where c: "T q = Some c" "bi_nHeight c = bi_nHeight b - 1" using tree_okD(3) [OF assms Some] by blast
  have pos: "0 < bi_nHeight b" using tree_okD(1) [OF assms(1) c(1)] c(2) by simp
  note s = GetSkipHeight_bounds [OF pos]
  have g: "GetAncestor T q ?s = Some (nth_prev T (nat (bi_nHeight c - ?s)) q)"
    using GetAncestor_eq [OF assms(1) c(1), of ?s] s c(2) by simp
  let ?a = "nth_prev T (nat (bi_nHeight c - ?s)) q"
  let ?T = "T(p \<mapsto> b\<lparr>bi_pskip := ?a\<rparr>)"
  have np: "nth_prev ?T k r = nth_prev T k r" for k r by (rule nth_prev_cong) (simp add: assms(2))
  have "nat (bi_nHeight b - ?s) = Suc (nat (bi_nHeight c - ?s))" using s c(2) by simp
  then have a: "nth_prev T (nat (bi_nHeight b - ?s)) p = ?a" using assms(2) Some by simp
  have old: "entry_ok T r d" if "T r = Some d" for r d using assms(1) that by (simp add: tree_ok_def)
  have h: "T r = Some d \<Longrightarrow> \<exists>d'. ?T r = Some d' \<and> bi_nHeight d' = bi_nHeight d" for r d using assms(2) by auto
  have "entry_ok ?T r d" if d: "?T r = Some d" for r d
  proof (cases "r = p")
    case True
    then have "d = b\<lparr>bi_pskip := ?a\<rparr>" using d by simp
    then have f: "bi_nHeight d = bi_nHeight b" "bi_pprev d = Some q" "bi_pskip d = ?a" using Some by simp_all
    show ?thesis using True f c pos a h [OF c(1)] unfolding entry_ok_def np by (simp del: fun_upd_apply)
  next
    case False
    then have "T r = Some d" using d by simp
    note e = old [OF this, unfolded entry_ok_def]
    show ?thesis
    proof (cases "bi_pprev d")
      case (Some u)
      then show ?thesis using e h unfolding entry_ok_def np by (simp del: fun_upd_apply) (metis (no_types, lifting))
    qed (use e np in \<open>auto simp: entry_ok_def\<close>)
  qed
  then have "tree_ok ?T" by (simp add: tree_ok_def del: fun_upd_apply)
  moreover have "BuildSkip p T = Some ?T" using assms(2) Some g by (simp add: BuildSkip_def)
  ultimately show ?thesis by blast
qed

section \<open>Chains\<close>

definition chain_ok :: "block_tree \<Rightarrow> CChain \<Rightarrow> bool" where
  "chain_ok T vc \<longleftrightarrow> (\<forall>i < length vc. \<exists>p b. vc ! i = Some p \<and> T p = Some b \<and> bi_nHeight b = int i \<and>
     bi_pprev b = (if i = 0 then None else vc ! (i - 1)))"

lemma chain_ok_prev:
  assumes "chain_ok T vc" "i < length vc" "vc ! i = Some p" "j \<le> i"
  shows "vc ! j = nth_prev T (i - j) p"
  using assms(2-4)
proof (induction i arbitrary: p)
  case (Suc i)
  obtain b where b: "T p = Some b" "bi_pprev b = vc ! i" using assms(1) Suc.prems(1,2) by (force simp: chain_ok_def)
  have "i < length vc" using Suc.prems(1) by simp
  then obtain q where q: "vc ! i = Some q" using assms(1) by (force simp: chain_ok_def)
  show ?case
  proof (cases "j = Suc i")
    case False
    then have "vc ! j = nth_prev T (i - j) q" using Suc.IH [OF _ q] Suc.prems by simp
    moreover have "Suc i - j = Suc (i - j)" using False Suc.prems(3) by simp
    ultimately show ?thesis using b q by simp
  qed (use Suc.prems in simp)
qed simp

lemma chain_eq_iff:
  assumes "chain_ok T a" "chain_ok T b" "a \<noteq> [] \<or> b \<noteq> []"
  shows "chain_eq a b = Some (a = b)"
proof (cases "length a = length b \<and> last a = last b")
  case True
  then have ne: "a \<noteq> []" "b \<noteq> []" using assms(3) by auto
  let ?n = "length a - 1"
  have n: "?n < length a" "?n < length b" using True ne by simp_all
  obtain p where p: "a ! ?n = Some p" using assms(1) n(1) by (force simp: chain_ok_def)
  then have q: "b ! ?n = Some p" using True ne by (metis last_conv_nth)
  have "a ! i = b ! i" if "i < length a" for i
    using chain_ok_prev [OF assms(1) n(1) p, of i] chain_ok_prev [OF assms(2) n(2) q, of i] that by simp
  then have "a = b" using True by (intro nth_equalityI) simp_all
  then show ?thesis using ne by (simp add: chain_eq_def)
qed (use assms(3) in \<open>auto simp: chain_eq_def\<close>)

definition path_to :: "block_tree \<Rightarrow> nat \<Rightarrow> ptr \<Rightarrow> CChain" where
  "path_to T h p = map (\<lambda>i. nth_prev T (h - i) p) [0..<Suc h]"

lemma path_to_ok:
  assumes "tree_ok T" "T p = Some b" "bi_nHeight b = int h"
  shows "chain_ok T (path_to T h p)" "last (path_to T h p) = Some p"
proof -
  show "last (path_to T h p) = Some p" by (simp add: path_to_def last_map)
  have nth: "path_to T h p ! i = nth_prev T (h - i) p" if "i \<le> h" for i using that by (simp add: path_to_def del: upt_Suc)
  show "chain_ok T (path_to T h p)" unfolding chain_ok_def
  proof (intro allI impI)
    fix i assume "i < length (path_to T h p)"
    then have i: "i \<le> h" by (simp add: path_to_def)
    have "h - i \<le> nat (bi_nHeight b)" using assms(3) by simp
    from nth_prev_exists [OF assms(1,2) this] obtain q c where q: "nth_prev T (h - i) p = Some q" "T q = Some c" "bi_nHeight c = int i"
      using assms(3) i by auto
    have "bi_pprev c = (if i = 0 then None else path_to T h p ! (i - 1))"
    proof (cases "i = 0")
      case True
      then have "bi_nHeight c = 0" using q(3) by simp
      then show ?thesis using True tree_okD(1) [OF assms(1)] tree_okD(3) [OF assms(1) q(2)] by (cases "bi_pprev c") force+
    next
      case False
      then have "h - (i - 1) = (h - i) + 1" using i by simp
      then have "path_to T h p ! (i - 1) = bi_pprev c" using nth [of "i - 1"] i q nth_prev_add [of T "h - i" 1 p]
        by (simp add: Option.bind_eq_Some_conv) (cases "bi_pprev c"; simp)
      then show ?thesis using False by simp
    qed
    then show "\<exists>p' b'. path_to T h p ! i = Some p' \<and> T p' = Some b' \<and> bi_nHeight b' = int i \<and>
        bi_pprev b' = (if i = 0 then None else path_to T h p ! (i - 1))"
      using q nth [OF i] by auto
  qed
qed

lemma set_tip_loop_eq:
  assumes "tree_ok T" "chain_ok T old" "T p = Some b" "bi_nHeight b = int h" "h < length vc"
    "\<And>i. i \<le> h \<Longrightarrow> vc ! i = (if i < length old then old ! i else None)"
  shows "\<exists>vc'. set_tip_loop T vc (Some p) = Some vc' \<and> length vc' = length vc \<and>
    (\<forall>i < length vc. vc' ! i = (if i \<le> h then nth_prev T (h - i) p else vc ! i))"
  using assms(3-6)
proof (induction h arbitrary: p b vc)
  case (0 p b vc)
  have pp: "bi_pprev b = None"
    using tree_okD(1) [OF assms(1)] tree_okD(3) [OF assms(1) 0(1)] 0(2) by (cases "bi_pprev b") force+
  have "set_tip_loop T vc (Some p) = (if vc ! 0 = Some p then Some vc else Some (vc[0 := Some p]))"
    using 0 pp by (subst set_tip_loop.simps) (simp add: set_tip_loop.simps [of T _ None])
  moreover have "(vc[0 := Some p]) ! 0 = Some p" using 0(3) by simp
  ultimately show ?case by (cases "vc ! 0 = Some p") auto
next
  case (Suc h)
  have hh: "nat (bi_nHeight b) = Suc h" "\<not> bi_nHeight b < 0" "\<not> int (length vc) \<le> bi_nHeight b" using Suc.prems(2,3) by auto
  show ?case
  proof (cases "vc ! Suc h = Some p")
    case True
    then have old: "Suc h < length old" "old ! Suc h = Some p" using Suc.prems(4) [of "Suc h"] by (auto split: if_splits)
    have "vc ! i = nth_prev T (Suc h - i) p" if "i \<le> Suc h" for i
      using chain_ok_prev [OF assms(2) old that] Suc.prems(4) [OF that] old(1) that by simp
    moreover have "set_tip_loop T vc (Some p) = Some vc" using True Suc.prems(1) hh by (subst set_tip_loop.simps) simp
    ultimately show ?thesis by auto
  next
    case False
    have "bi_pprev b \<noteq> None" using tree_okD(2) [OF assms(1) Suc.prems(1)] Suc.prems(2) by auto
    then obtain q where q: "bi_pprev b = Some q" by blast
    obtain c where c: "T q = Some c" "bi_nHeight c = int h" using tree_okD(3) [OF assms(1) Suc.prems(1) q] Suc.prems(2) by auto
    let ?vc = "vc[Suc h := Some p]"
    have step: "set_tip_loop T vc (Some p) = set_tip_loop T ?vc (Some q)"
      using False Suc.prems(1) q hh by (subst set_tip_loop.simps) simp
    obtain vc' where v: "set_tip_loop T ?vc (Some q) = Some vc'" "length vc' = length ?vc"
        "\<forall>i < length ?vc. vc' ! i = (if i \<le> h then nth_prev T (h - i) q else ?vc ! i)"
      using Suc.IH [OF c, of ?vc] Suc.prems(3,4) by auto
    have "vc' ! i = (if i \<le> Suc h then nth_prev T (Suc h - i) p else vc ! i)" if "i < length vc" for i
    proof (cases "i \<le> h")
      case True
      then have "Suc h - i = Suc (h - i)" by simp
      then show ?thesis using True v(3) that Suc.prems(1) q by simp
    next
      case False
      then show ?thesis using v(3) that by (cases "i = Suc h") simp_all
    qed
    then show ?thesis using step v by auto
  qed
qed

lemma SetTip_eq:
  assumes "tree_ok T" "chain_ok T vc" "T p = Some b"
  shows "SetTip T vc (Some p) = Some (path_to T (nat (bi_nHeight b)) p)"
proof -
  let ?h = "nat (bi_nHeight b)"
  have h: "bi_nHeight b = int ?h" "nat (bi_nHeight b + 1) = Suc ?h" using tree_okD(1) [OF assms(1,3)] by simp_all
  let ?vc = "take (Suc ?h) vc @ replicate (Suc ?h - length vc) None"
  have len: "length ?vc = Suc ?h" by simp
  have "?vc ! i = (if i < length vc then vc ! i else None)" if "i \<le> ?h" for i using that by (auto simp: nth_append)
  then have "\<exists>vc'. set_tip_loop T ?vc (Some p) = Some vc' \<and> length vc' = length ?vc \<and>
      (\<forall>i < length ?vc. vc' ! i = (if i \<le> ?h then nth_prev T (?h - i) p else ?vc ! i))"
    by (intro set_tip_loop_eq [OF assms h(1)]) (simp_all only: len lessI)
  then obtain vc' where v: "set_tip_loop T ?vc (Some p) = Some vc'" "length vc' = Suc ?h"
      "\<forall>i < Suc ?h. vc' ! i = (if i \<le> ?h then nth_prev T (?h - i) p else ?vc ! i)"
    unfolding len by blast
  have "vc' = path_to T ?h p" using v(2,3)
    by (intro nth_equalityI) (simp_all add: path_to_def less_Suc_eq_le del: upt_Suc)
  then show ?thesis using v(1) assms(3) h(2) by (simp add: SetTip_def)
qed

lemma chain_at_member:
  assumes "chain_ok T vc" "chain_at vc h = Some p"
  shows "\<exists>b. T p = Some b \<and> bi_nHeight b = h \<and> 0 \<le> h \<and> h < int (length vc)"
proof -
  have "nat h < length vc" "0 \<le> h" "vc ! nat h = Some p" using assms(2) by (auto simp: chain_at_def split: if_splits)
  then show ?thesis using assms(1) by (force simp: chain_ok_def)
qed

definition in_chain :: "CChain \<Rightarrow> ptr \<Rightarrow> bool" where
  "in_chain vc p \<longleftrightarrow> Some p \<in> set vc"

lemma in_chain_iff:
  assumes "chain_ok T vc" "T p = Some b"
  shows "in_chain vc p \<longleftrightarrow> chain_at vc (bi_nHeight b) = Some p"
proof
  assume "in_chain vc p"
  then obtain i where i: "i < length vc" "vc ! i = Some p" by (auto simp: in_chain_def in_set_conv_nth)
  then have "bi_nHeight b = int i" using assms by (force simp: chain_ok_def)
  then show "chain_at vc (bi_nHeight b) = Some p" using i by (simp add: chain_at_def)
next
  assume a: "chain_at vc (bi_nHeight b) = Some p"
  then have "nat (bi_nHeight b) < length vc" "vc ! nat (bi_nHeight b) = Some p" by (auto simp: chain_at_def split: if_splits)
  then show "in_chain vc p" by (metis in_chain_def nth_mem)
qed

lemma find_fork_loop_correct:
  assumes "tree_ok T" "chain_ok T vc" "T p = Some b"
  shows "\<exists>r. find_fork_loop T vc (Some p) = Some r \<and>
    (case r of None \<Rightarrow> (\<forall>k q. nth_prev T k p = Some q \<longrightarrow> \<not> in_chain vc q)
     | Some f \<Rightarrow> \<exists>k. nth_prev T k p = Some f \<and> in_chain vc f \<and> (\<forall>j < k. \<forall>q. nth_prev T j p = Some q \<longrightarrow> \<not> in_chain vc q))"
  using assms(3)
proof (induction "nat (bi_nHeight b)" arbitrary: p b rule: less_induct)
  case less
  show ?case
  proof (cases "in_chain vc p")
    case True
    then have "find_fork_loop T vc (Some p) = Some (Some p)"
      using less.prems in_chain_iff [OF assms(2) less.prems] by (subst find_fork_loop.simps) simp
    then show ?thesis using True by (auto intro!: exI [of _ 0])
  next
    case False
    have step: "find_fork_loop T vc (Some p) = find_fork_loop T vc (bi_pprev b)"
      using less.prems in_chain_iff [OF assms(2) less.prems] False by (subst find_fork_loop.simps) simp
    show ?thesis
    proof (cases "bi_pprev b")
      case None
      have "find_fork_loop T vc None = Some None" by (simp add: find_fork_loop.simps)
      moreover have "\<not> in_chain vc q" if "nth_prev T k p = Some q" for k q
        using that False less.prems None by (cases k) auto
      ultimately show ?thesis using step None by (auto intro!: exI [of _ None])
    next
      case (Some u)
      obtain c where c: "T u = Some c" "bi_nHeight c = bi_nHeight b - 1" using tree_okD(3) [OF assms(1) less.prems Some] by blast
      then have "nat (bi_nHeight c) < nat (bi_nHeight b)" using tree_okD(1) [OF assms(1) c(1)] by simp
      from less.hyps [OF this c(1)] obtain r where r: "find_fork_loop T vc (Some u) = Some r"
        "case r of None \<Rightarrow> (\<forall>k q. nth_prev T k u = Some q \<longrightarrow> \<not> in_chain vc q)
         | Some f \<Rightarrow> \<exists>k. nth_prev T k u = Some f \<and> in_chain vc f \<and> (\<forall>j < k. \<forall>q. nth_prev T j u = Some q \<longrightarrow> \<not> in_chain vc q)"
        by blast
      have up: "nth_prev T (Suc k) p = nth_prev T k u" for k using less.prems Some by simp
      show ?thesis
      proof (cases r)
        case None
        have "\<not> in_chain vc q" if "nth_prev T k p = Some q" for k q
          using that False r(2) None up by (cases k) (auto simp del: nth_prev.simps(2))
        then show ?thesis using step Some r(1) None by simp
      next
        case (Some f)
        then obtain k where k: "nth_prev T k u = Some f" "in_chain vc f"
          "\<forall>j < k. \<forall>q. nth_prev T j u = Some q \<longrightarrow> \<not> in_chain vc q" using r(2) by auto
        have "\<not> in_chain vc q" if "j < Suc k" "nth_prev T j p = Some q" for j q
          using that False k(3) up by (cases j) (auto simp del: nth_prev.simps(2))
        then show ?thesis using step \<open>bi_pprev b = Some u\<close> r(1) Some k(1,2) up [of k]
          by (auto intro!: exI [of _ "Suc k"] simp del: nth_prev.simps(2))
      qed
    qed
  qed
qed

lemma above_chain:
  assumes "tree_ok T" "chain_ok T vc" "T p = Some b" "nth_prev T k p = Some q" "int (length vc) \<le> bi_nHeight b - int k"
  shows "\<not> in_chain vc q"
proof -
  have "k \<le> nat (bi_nHeight b)" using assms(5) by linarith
  from nth_prev_exists [OF assms(1,3) this] obtain c where c: "T q = Some c" "bi_nHeight c = bi_nHeight b - int k"
    using assms(4) by auto
  then have "chain_at vc (bi_nHeight c) = None" using assms(5) by (simp add: chain_at_def)
  then show ?thesis using in_chain_iff [OF assms(2) c(1)] by simp
qed

definition fork_of :: "block_tree \<Rightarrow> CChain \<Rightarrow> ptr \<Rightarrow> ptr option \<Rightarrow> bool" where
  "fork_of T vc p r \<longleftrightarrow> (case r of None \<Rightarrow> (\<forall>k q. nth_prev T k p = Some q \<longrightarrow> \<not> in_chain vc q)
     | Some f \<Rightarrow> \<exists>k. nth_prev T k p = Some f \<and> in_chain vc f \<and> (\<forall>j < k. \<forall>q. nth_prev T j p = Some q \<longrightarrow> \<not> in_chain vc q))"

lemma fork_of_shift:
  assumes "fork_of T vc u r" "nth_prev T n p = Some u" "\<And>k q. k < n \<Longrightarrow> nth_prev T k p = Some q \<Longrightarrow> \<not> in_chain vc q"
  shows "fork_of T vc p r"
proof -
  have up: "nth_prev T (n + k) p = nth_prev T k u" for k using assms(2) by (simp add: nth_prev_add)
  have low: "\<not> in_chain vc q" if "nth_prev T k p = Some q" "n \<le> k \<Longrightarrow> nth_prev T (k - n) u = Some q \<Longrightarrow> \<not> in_chain vc q" for k q
    using that assms(3) up [of "k - n"] by (cases "k < n") simp_all
  show ?thesis
  proof (cases r)
    case None
    then show ?thesis using assms(1) low by (auto simp: fork_of_def)
  next
    case (Some f)
    then obtain k where k: "nth_prev T k u = Some f" "in_chain vc f" "\<forall>j < k. \<forall>q. nth_prev T j u = Some q \<longrightarrow> \<not> in_chain vc q"
      using assms(1) by (auto simp: fork_of_def)
    have "\<not> in_chain vc q" if "j < n + k" "nth_prev T j p = Some q" for j q
    proof (rule low [OF that(2)])
      assume "n \<le> j" "nth_prev T (j - n) u = Some q"
      moreover from this have "j - n < k" using that(1) by linarith
      ultimately show ?thesis using k(3) by blast
    qed
    then show ?thesis using Some k(1,2) up [of k] by (auto simp: fork_of_def)
  qed
qed

lemma FindFork_eq:
  assumes "tree_ok T" "chain_ok T vc" "T p = Some b"
  shows "\<exists>r. FindFork T vc p = Some r \<and> fork_of T vc p r"
proof (cases "chain_Height vc < bi_nHeight b")
  case False
  then show ?thesis using find_fork_loop_correct [OF assms] assms(3) by (auto simp: FindFork_def fork_of_def)
next
  case True
  let ?n = "nat (bi_nHeight b - chain_Height vc)"
  have above: "\<not> in_chain vc q" if "k < ?n" "nth_prev T k p = Some q" for k q
    using above_chain [OF assms that(2)] that(1) by (simp add: chain_Height_def)
  show ?thesis
  proof (cases "vc = []")
    case empty: True
    then have "GetAncestor T p (chain_Height vc) = Some None" using GetAncestor_eq [OF assms(1,3)] by (simp add: chain_Height_def)
    then have "FindFork T vc p = Some None" using True assms(3) by (simp add: FindFork_def find_fork_loop.simps)
    then show ?thesis using empty by (simp add: fork_of_def in_chain_def)
  next
    case False
    then have h: "0 \<le> chain_Height vc" by (cases vc) (simp_all add: chain_Height_def)
    have "?n \<le> nat (bi_nHeight b)" using h by linarith
    from nth_prev_exists [OF assms(1,3) this] obtain u c where u: "nth_prev T ?n p = Some u" "T u = Some c" by blast
    have "GetAncestor T p (chain_Height vc) = Some (Some u)" using GetAncestor_eq [OF assms(1,3)] u(1) h True by simp
    then have "FindFork T vc p = find_fork_loop T vc (Some u)" using True assms(3) by (simp add: FindFork_def)
    then show ?thesis using find_fork_loop_correct [OF assms(1,2) u(2)] fork_of_shift [OF _ u(1) above]
      by (auto simp: fork_of_def)
  qed
qed

lemma locator_loop_returns:
  assumes "tree_ok T" "chain_ok T vc" "T p = Some b" "1 \<le> nStep"
  shows "\<exists>v. locator_loop T vc nStep vHave (Some p) = Some v"
  using assms(3,4)
proof (induction "nat (bi_nHeight b)" arbitrary: p b nStep vHave rule: less_induct)
  case less
  show ?case
  proof (cases "bi_nHeight b = 0")
    case True
    then show ?thesis using less.prems by (subst locator_loop.simps) (simp add: Let_def)
  next
    case False
    let ?h = "max (bi_nHeight b - nStep) 0"
    have h: "0 \<le> ?h" "?h \<le> bi_nHeight b" "nat ?h < nat (bi_nHeight b)"
      using False less.prems(2) tree_okD(1) [OF assms(1) less.prems(1)] by auto
    obtain q c where q: "(if chain_at vc (bi_nHeight b) = Some p then Some (chain_at vc ?h) else GetAncestor T p ?h) = Some (Some q)"
        "T q = Some c" "bi_nHeight c = ?h"
    proof (cases "chain_at vc (bi_nHeight b) = Some p")
      case True
      then have "bi_nHeight b < int (length vc)" by (auto simp: chain_at_def split: if_splits)
      then have "nat ?h < length vc" using h by linarith
      then obtain q c where "vc ! nat ?h = Some q" "T q = Some c" "bi_nHeight c = int (nat ?h)"
        using assms(2) unfolding chain_ok_def by blast
      then show ?thesis using that [of q c] True h \<open>nat ?h < length vc\<close> by (simp add: chain_at_def)
    next
      case False
      have "nat (bi_nHeight b - ?h) \<le> nat (bi_nHeight b)" using h by linarith
      from nth_prev_exists [OF assms(1) less.prems(1) this] show ?thesis
        using that False h GetAncestor_eq [OF assms(1) less.prems(1), of ?h] by auto
    qed
    let ?s = "if 10 < length (vHave @ [bi_hashBlock b]) then nStep * 2 else nStep"
    have "locator_loop T vc nStep vHave (Some p) = locator_loop T vc ?s (vHave @ [bi_hashBlock b]) (Some q)"
      using less.prems(1) False q(1) by (subst locator_loop.simps) (simp add: Let_def)
    moreover have "\<exists>v. locator_loop T vc ?s (vHave @ [bi_hashBlock b]) (Some q) = Some v"
      using less.hyps [of c q ?s] h(3) q(2,3) less.prems(2) by simp
    ultimately show ?thesis by simp
  qed
qed

lemma nth_prev_height:
  assumes "tree_ok T" "T p = Some b" "nth_prev T k p = Some q"
  shows "k \<le> nat (bi_nHeight b)"
  using assms(2,3)
proof (induction k arbitrary: p b)
  case (Suc k)
  then obtain u where u: "bi_pprev b = Some u" "nth_prev T k u = Some q" by (auto simp: Option.bind_eq_Some_conv)
  obtain c where c: "T u = Some c" "bi_nHeight c = bi_nHeight b - 1" using tree_okD(3) [OF assms(1) Suc.prems(1) u(1)] by blast
  then show ?case using Suc.IH [OF c(1) u(2)] tree_okD(1) [OF assms(1) c(1)] by simp
qed simp

lemma in_path_iff:
  assumes "tree_ok T" "T p = Some b"
  shows "in_chain (path_to T (nat (bi_nHeight b)) p) q \<longleftrightarrow> (\<exists>k. nth_prev T k p = Some q)"
proof
  assume "in_chain (path_to T (nat (bi_nHeight b)) p) q"
  then show "\<exists>k. nth_prev T k p = Some q" by (auto simp: in_chain_def path_to_def simp del: upt_Suc)
next
  assume "\<exists>k. nth_prev T k p = Some q"
  then obtain k where k: "nth_prev T k p = Some q" by blast
  have "nat (bi_nHeight b) - k \<in> set [0..<Suc (nat (bi_nHeight b))]" by (simp del: upt_Suc)
  moreover have "nth_prev T (nat (bi_nHeight b) - (nat (bi_nHeight b) - k)) p = Some q"
    using k nth_prev_height [OF assms k] by simp
  ultimately show "in_chain (path_to T (nat (bi_nHeight b)) p) q"
    unfolding in_chain_def path_to_def set_map by (metis (no_types, lifting) image_eqI)
qed

section \<open>Properties\<close>

text \<open>A block index of three blocks above the genesis block, with a fork at height one.\<close>

definition sample_entry :: "int \<Rightarrow> ptr option \<Rightarrow> CBlockIndex" where
  "sample_entry h pprev = CBlockIndex0\<lparr>bi_nHeight := h, bi_pprev := pprev\<rparr>"

definition sample_tree :: block_tree where
  "sample_tree = [0 \<mapsto> sample_entry 0 None, 1 \<mapsto> sample_entry 1 (Some 0), 2 \<mapsto> sample_entry 2 (Some 1),
     3 \<mapsto> sample_entry 2 (Some 1)]"

lemma sample_tree_ok: "tree_ok sample_tree"
  by (auto simp: tree_ok_def entry_ok_def sample_tree_def sample_entry_def CBlockIndex0_def split: if_splits)

lemma sample_chain_ok: "chain_ok sample_tree [Some 0, Some 1, Some 2]"
  by (simp add: chain_ok_def sample_tree_def sample_entry_def CBlockIndex0_def nth_Cons' less_Suc_eq)

text \<open>C11: \<^verbatim>\<open>GetAncestor\<close>, which jumps along the skip pointers, fails no assertion and returns what following the
  predecessors returns: the ancestor at the wanted height, and null outside the heights of the block's chain.  Its loop
  ends for every index.  \<^verbatim>\<open>BuildSkip\<close>, which sets the skip pointer of a new entry through \<^verbatim>\<open>GetAncestor\<close>, keeps the
  index well formed.\<close>

theorem GetAncestor_correct:
  assumes "tree_ok T" "T p = Some b"
  shows "GetAncestor T p h = Some (if 0 \<le> h \<and> h \<le> bi_nHeight b then nth_prev T (nat (bi_nHeight b - h)) p else None) \<and>
    (\<exists>T'. BuildSkip p T = Some T' \<and> tree_ok T')"
  using GetAncestor_eq [OF assms] BuildSkip_ok [OF assms] by simp_all

definition skip_tree :: block_tree where
  "skip_tree = [0 \<mapsto> sample_entry 0 None, 1 \<mapsto> (sample_entry 1 (Some 0))\<lparr>bi_pskip := Some 0\<rparr>,
     2 \<mapsto> (sample_entry 2 (Some 1))\<lparr>bi_pskip := Some 0\<rparr>, 3 \<mapsto> (sample_entry 3 (Some 2))\<lparr>bi_pskip := Some 1\<rparr>,
     4 \<mapsto> (sample_entry 4 (Some 3))\<lparr>bi_pskip := Some 0\<rparr>, 5 \<mapsto> sample_entry 5 (Some 4)]"

lemma skip_tree_ok: "tree_ok skip_tree"
  by (auto simp: tree_ok_def entry_ok_def skip_tree_def sample_entry_def CBlockIndex0_def GetSkipHeight_def InvertLowestOne_def
      eval_nat_numeral split: if_splits)

theorem GetAncestor_correct_witness:
  "GetAncestor skip_tree 5 0 = Some (Some 0) \<and> GetAncestor skip_tree 5 3 = Some (Some 3) \<and>
   (\<exists>T'. BuildSkip 5 skip_tree = Some T' \<and> tree_ok T')"
  using GetAncestor_correct [OF skip_tree_ok, of 5 "sample_entry 5 (Some 4)" 0]
    GetAncestor_correct [OF skip_tree_ok, of 5 "sample_entry 5 (Some 4)" 3]
  by (simp add: skip_tree_def sample_entry_def CBlockIndex0_def eval_nat_numeral)

text \<open>C12: \<^verbatim>\<open>CChain::SetTip\<close> keeps the active chain a chain: from any well-formed one, towards any block of the index,
  it ends and leaves an array whose entry at each height is a block of that height and the successor of the one before,
  that ends in the new tip and contains exactly the tip and its ancestors.\<close>

theorem SetTip_chain:
  assumes "tree_ok T" "chain_ok T vc" "T p = Some b"
  shows "\<exists>vc'. SetTip T vc (Some p) = Some vc' \<and> chain_ok T vc' \<and> chain_Tip vc' = Some p \<and> chain_Height vc' = bi_nHeight b \<and>
    (\<forall>q c. T q = Some c \<longrightarrow> chain_Contains T vc' q = Some (\<exists>k. nth_prev T k p = Some q))"
proof (intro exI conjI allI impI)
  let ?vc = "path_to T (nat (bi_nHeight b)) p"
  have h: "bi_nHeight b = int (nat (bi_nHeight b))" using tree_okD(1) [OF assms(1,3)] by simp
  note ok = path_to_ok [OF assms(1,3) h]
  show "SetTip T vc (Some p) = Some ?vc" by (rule SetTip_eq [OF assms])
  show "chain_ok T ?vc" by (rule ok)
  show "chain_Tip ?vc = Some p" using ok(2) by (simp add: chain_Tip_def path_to_def)
  show "chain_Height ?vc = bi_nHeight b" using h by (simp add: chain_Height_def path_to_def)
  show "chain_Contains T ?vc q = Some (\<exists>k. nth_prev T k p = Some q)" if "T q = Some c" for q c
    using in_path_iff [OF assms(1,3)] in_chain_iff [OF ok(1) that] that by (simp add: chain_Contains_def)
qed

theorem SetTip_chain_witness:
  "\<exists>vc'. SetTip sample_tree [Some 0, Some 1, Some 2] (Some 3) = Some vc' \<and> chain_ok sample_tree vc' \<and>
    chain_Tip vc' = Some 3 \<and> chain_Height vc' = 2"
  using SetTip_chain [OF sample_tree_ok sample_chain_ok, of 3 "sample_entry 2 (Some 1)"]
  by (auto simp: sample_tree_def sample_entry_def CBlockIndex0_def)

text \<open>C13: \<^verbatim>\<open>CChain::FindFork\<close> returns, for any block of the index, its last ancestor in the active chain (the block
  itself included), and null exactly when none of its ancestors is in the chain; \<^verbatim>\<open>GetLocator\<close> always returns.\<close>

theorem FindFork_correct:
  assumes "tree_ok T" "chain_ok T vc" "T p = Some b"
  shows "(\<exists>r. FindFork T vc p = Some r \<and> fork_of T vc p r) \<and> (\<exists>v. GetLocator T vc (Some p) = Some v)"
  using FindFork_eq [OF assms] locator_loop_returns [OF assms, of 1] by (simp_all add: GetLocator_def)

theorem FindFork_correct_witness:
  "(\<exists>r. FindFork sample_tree [Some 0, Some 1, Some 2] 3 = Some r \<and> fork_of sample_tree [Some 0, Some 1, Some 2] 3 r) \<and>
   (\<exists>v. GetLocator sample_tree [Some 0, Some 1, Some 2] (Some 3) = Some v)"
  using FindFork_correct [OF sample_tree_ok sample_chain_ok, of 3 "sample_entry 2 (Some 1)"]
  by (simp add: sample_tree_def)

end
