(* ===== verification/Zc_Pow.thy ===== *)
theory Zc_Pow
  imports Zc_Chain
begin

text \<open>
  Proof of work (\<^verbatim>\<open>src/pow.cpp\<close> and the compact form of \<^verbatim>\<open>src/arith_uint256.cpp\<close>): reading and writing compact targets,
  the check of a header's hash against its target, the work of a block and the difficulty adjustment, over the limb
  arithmetic of \<open>Zc_Arith256\<close> and the block index of \<open>Zc_Chain\<close>.  A failed assertion or an exception is \<open>None\<close>.
  The lemmas give each routine its meaning on natural numbers: the compact form rounds down by less than one part in
  \<open>2 ^ 15\<close>, the work of a block is \<open>2 ^ 256 div (target + 1)\<close>, and the adjusted target is the one of the formula.
\<close>

unbundle bit_operations_syntax

section \<open>Compact targets\<close>

definition UintToArith256 :: "uint256 \<Rightarrow> base_uint" where
  "UintToArith256 a = map (\<lambda>x. ReadLE32 (drop (4 * x) (Serialize_uint256 a))) [0..<WIDTH]"

definition ArithToUint256 :: "base_uint \<Rightarrow> uint256" where
  "ArithToUint256 a = of_nat (le_to_nat (concat (map WriteLE32 a)))"

text \<open>The number, \<^verbatim>\<open>*pfNegative\<close> and \<^verbatim>\<open>*pfOverflow\<close>.\<close>

definition SetCompact :: "u32 \<Rightarrow> base_uint \<times> bool \<times> bool" where
  "SetCompact nCompact =
     (let nSize = unat (drop_bit 24 nCompact); nWord0 = nCompact AND 0x007fffff;
          nWord = (if nSize \<le> 3 then drop_bit (8 * (3 - nSize)) nWord0 else nWord0);
          r = (if nSize \<le> 3 then base_uint_of (ucast nWord) else base_uint_shl (base_uint_of (ucast nWord)) (8 * (nSize - 3)))
      in (r, nWord \<noteq> 0 \<and> nCompact AND 0x00800000 \<noteq> 0,
          nWord \<noteq> 0 \<and> (34 < nSize \<or> (0xff < nWord \<and> 33 < nSize) \<or> (0xffff < nWord \<and> 32 < nSize))))"

definition GetCompact :: "bool \<Rightarrow> base_uint \<Rightarrow> u32 option" where
  "GetCompact fNegative a =
     (let nSize0 = (base_uint_bits a + 7) div 8;
          nCompact0 = (if nSize0 \<le> 3 then ucast (push_bit (8 * (3 - nSize0)) (GetLow64 a))
                       else ucast (GetLow64 (base_uint_shr a (8 * (nSize0 - 3))))) :: u32;
          (nCompact1, nSize) = (if nCompact0 AND 0x00800000 \<noteq> 0 then (drop_bit 8 nCompact0, nSize0 + 1) else (nCompact0, nSize0))
      in if nCompact1 AND NOT 0x007fffff \<noteq> 0 then None
         else if \<not> nSize < 256 then None
         else let nCompact = nCompact1 OR push_bit 24 (of_nat nSize)
           in Some (nCompact OR (if fNegative \<and> nCompact AND 0x007fffff \<noteq> 0 then 0x00800000 else 0)))"

section \<open>Proof of work\<close>

definition CheckProofOfWork :: "uint256 \<Rightarrow> u32 \<Rightarrow> Params \<Rightarrow> bool" where
  "CheckProofOfWork hash nBits params =
     (let (bnTarget, fNegative, fOverflow) = SetCompact nBits
      in if fNegative \<or> EqualTo bnTarget 0 \<or> fOverflow \<or> 0 < CompareTo bnTarget (UintToArith256 (powLimit params)) then False
         else if 0 < CompareTo (UintToArith256 hash) bnTarget then False
         else True)"

definition GetBlockProof :: "CBlockIndex \<Rightarrow> base_uint option" where
  "GetBlockProof block =
     (let (bnTarget, fNegative, fOverflow) = SetCompact (bi_nBits block)
      in if fNegative \<or> fOverflow \<or> EqualTo bnTarget 0 then Some (base_uint_of 0)
         else map_option (\<lambda>q. base_uint_add q (base_uint_of 1))
                (base_uint_div (base_uint_not bnTarget) (base_uint_add bnTarget (base_uint_of 1))))"

definition GetBlockProofEquivalentTime :: "CBlockIndex \<Rightarrow> CBlockIndex \<Rightarrow> CBlockIndex \<Rightarrow> Params \<Rightarrow> int option" where
  "GetBlockProofEquivalentTime to from tip params =
     (let (r, sgn) = (if 0 < CompareTo (bi_nChainWork to) (bi_nChainWork from)
                      then (base_uint_sub (bi_nChainWork to) (bi_nChainWork from), 1)
                      else (base_uint_sub (bi_nChainWork from) (bi_nChainWork to), - 1))
      in Option.bind (PoWTargetSpacing params (bi_nHeight tip)) (\<lambda>spacing.
         Option.bind (GetBlockProof tip) (\<lambda>proof'.
         Option.bind (base_uint_div (base_uint_mul r (base_uint_of (of_int spacing))) proof') (\<lambda>r'.
         if 63 < base_uint_bits r' then Some (sgn * (2 ^ 63 - 1)) else Some (wrap64 (sgn * uint (GetLow64 r')))))))"

section \<open>Difficulty adjustment\<close>

definition CalculateNextWorkRequired :: "base_uint \<Rightarrow> int \<Rightarrow> int \<Rightarrow> Params \<Rightarrow> int \<Rightarrow> u32 option" where
  "CalculateNextWorkRequired bnAvg nLastBlockTime nFirstBlockTime params nextHeight =
     Option.bind (AveragingWindowTimespan params nextHeight) (\<lambda>averagingWindowTimespan.
     Option.bind (MinActualTimespan params nextHeight) (\<lambda>minActualTimespan.
     Option.bind (MaxActualTimespan params nextHeight) (\<lambda>maxActualTimespan.
     let nActualTimespan0 = wrap64 (nLastBlockTime - nFirstBlockTime);
         nActualTimespan1 = wrap64 (averagingWindowTimespan + cdiv (wrap64 (nActualTimespan0 - averagingWindowTimespan)) 4);
         nActualTimespan2 = (if nActualTimespan1 < minActualTimespan then minActualTimespan else nActualTimespan1);
         nActualTimespan = (if maxActualTimespan < nActualTimespan2 then maxActualTimespan else nActualTimespan2);
         bnPowLimit = UintToArith256 (powLimit params)
     in Option.bind (base_uint_div bnAvg (base_uint_of (of_int averagingWindowTimespan))) (\<lambda>bnNew0.
        let bnNew = base_uint_mul32 bnNew0 (of_int nActualTimespan)
        in GetCompact False (if 0 < CompareTo bnNew bnPowLimit then bnPowLimit else bnNew)))))"

fun pow_window :: "nat \<Rightarrow> block_tree \<Rightarrow> ptr option \<Rightarrow> base_uint \<Rightarrow> (base_uint \<times> ptr option) option" where
  "pow_window 0 T pindexFirst bnTot = Some (bnTot, pindexFirst)"
| "pow_window (Suc n) T None bnTot = Some (bnTot, None)"
| "pow_window (Suc n) T (Some p) bnTot = Option.bind (T p) (\<lambda>b.
     pow_window n T (bi_pprev b) (base_uint_add bnTot (fst (SetCompact (bi_nBits b)))))"

definition min_difficulty_rule :: "Params \<Rightarrow> CBlockIndex \<Rightarrow> CBlockHeader option \<Rightarrow> bool option" where
  "min_difficulty_rule params lst pblock =
     (case nPowAllowMinDifficultyBlocksAfterHeight params of None \<Rightarrow> Some False
      | Some after \<Rightarrow> if after \<le> of_int (bi_nHeight lst)
          then (case pblock of None \<Rightarrow> Some False
            | Some h \<Rightarrow> map_option (\<lambda>spacing. uint (bi_nTime lst) + spacing * 6 < GetBlockTime h)
                (PoWTargetSpacing params (bi_nHeight lst + 1)))
          else Some False)"

definition GetNextWorkRequired :: "block_tree \<Rightarrow> ptr option \<Rightarrow> CBlockHeader option \<Rightarrow> Params \<Rightarrow> u32 option" where
  "GetNextWorkRequired T pindexLast pblock params =
     Option.bind (GetCompact False (UintToArith256 (powLimit params))) (\<lambda>nProofOfWorkLimit.
     case pindexLast of None \<Rightarrow> Some nProofOfWorkLimit
     | Some p \<Rightarrow> Option.bind (T p) (\<lambda>lst.
         Option.bind (min_difficulty_rule params lst pblock) (\<lambda>minDifficulty.
         if minDifficulty
         then Some nProofOfWorkLimit
         else Option.bind (pow_window (nat (nPowAveragingWindow params)) T (Some p) (base_uint_of 0)) (\<lambda>(bnTot, pindexFirst).
           case pindexFirst of None \<Rightarrow> Some nProofOfWorkLimit
           | Some f \<Rightarrow>
               Option.bind (base_uint_div bnTot (base_uint_of (of_int (nPowAveragingWindow params)))) (\<lambda>bnAvg.
               Option.bind (GetMedianTimePast T p) (\<lambda>nLast. Option.bind (GetMedianTimePast T f) (\<lambda>nFirst.
               CalculateNextWorkRequired bnAvg nLast nFirst params (bi_nHeight lst + 1))))))))"

section \<open>The compact form on natural numbers\<close>

text \<open>The number a compact form stands for, without the limit of 256 bits.\<close>

definition compact_val :: "u32 \<Rightarrow> nat" where
  "compact_val c = (let s = unat c div 2 ^ 24; m = unat c mod 2 ^ 23 in if s \<le> 3 then m div 256 ^ (3 - s) else m * 256 ^ (s - 3))"

lemma limb_val_of: "limb_val (base_uint_of b) = unat b" "length (base_uint_of b) = WIDTH"
proof -
  have "unat (ucast b :: u32) = unat b mod 2 ^ 32" by (simp add: unsigned_ucast_eq take_bit_eq_mod)
  moreover have "unat b < 2 ^ 64" using unsigned_less [of b] by simp
  then have "unat (ucast (drop_bit 32 b) :: u32) = unat b div 2 ^ 32"
    using low_high(2) [of b] by (simp add: unsigned_ucast_eq take_bit_nat_eq_self div_less_iff_less_mult)
  ultimately show "limb_val (base_uint_of b) = unat b" by (simp add: base_uint_of_def)
  show "length (base_uint_of b) = WIDTH" by (simp add: base_uint_of_def WIDTH_def)
qed

lemma pow_256: "(256 :: nat) ^ k = 2 ^ (8 * k)"
  by (simp add: power_mult)

lemma EqualTo_0:
  assumes "length a = WIDTH"
  shows "EqualTo a 0 \<longleftrightarrow> limb_val a = 0"
proof -
  obtain x y zs where a: "a = x # y # zs" using assms by (cases a; cases "tl a") (auto simp: WIDTH_def)
  have "limb_val zs = 0 \<longleftrightarrow> list_all (\<lambda>x. x = 0) zs" for zs by (induction zs) (auto simp: unat_eq_zero)
  moreover have "(ucast x :: u64) = 0 \<longleftrightarrow> x = 0" for x :: u32
  proof -
    have "unat (ucast x :: u64) = unat x" using unat_limb [of x] by (simp add: unsigned_ucast_eq take_bit_nat_eq_self)
    then show ?thesis using unat_eq_zero [of "ucast x :: u64"] unat_eq_zero [of x] by simp
  qed
  ultimately show ?thesis by (auto simp: a EqualTo_def unat_eq_zero)
qed

lemma compact_parts:
  "unat (drop_bit 24 c) = unat c div 2 ^ 24" "unat (c AND 0x007fffff) = unat c mod 2 ^ 23"
  "c AND 0x00800000 \<noteq> 0 \<longleftrightarrow> bit c 23" for c :: u32
proof -
  show "unat (drop_bit 24 c) = unat c div 2 ^ 24"
    by (simp add: drop_bit_eq_div unat_div_distrib)
  have "c AND 0x007fffff = take_bit 23 c" by (simp add: take_bit_eq_mask mask_eq_exp_minus_1)
  then show "unat (c AND 0x007fffff) = unat c mod 2 ^ 23" by (simp only: unsigned_take_bit_eq) (simp add: take_bit_eq_mod)
  have "(0x00800000 :: u32) = push_bit 23 1" by (simp add: push_bit_eq_mult)
  then show "c AND 0x00800000 \<noteq> 0 \<longleftrightarrow> bit c 23" by (simp only: bit_iff_and_push_bit_not_eq_0)
qed

lemma overflow_iff:
  fixes m s :: nat
  assumes "m < 2 ^ 23" "3 < s"
  shows "m \<noteq> 0 \<and> (34 < s \<or> (0xff < m \<and> 33 < s) \<or> (0xffff < m \<and> 32 < s)) \<longleftrightarrow> 2 ^ 256 \<le> m * 256 ^ (s - 3)"
proof -
  consider "s \<le> 32" | "s = 33" | "s = 34" | "35 \<le> s" by linarith
  then show ?thesis
  proof cases
    case 1
    then have "(256::nat) ^ (s - 3) \<le> 256 ^ 29" by (intro power_increasing) simp_all
    then have "m * 256 ^ (s - 3) \<le> m * 256 ^ 29" by simp
    also have "\<dots> < 2 ^ 256" using assms(1) by simp
    finally show ?thesis using 1 by simp
  next
    case 4
    then have "(256::nat) ^ 32 \<le> 256 ^ (s - 3)" by (intro power_increasing) simp_all
    moreover have "(256::nat) ^ (s - 3) \<le> m * 256 ^ (s - 3)" if "m \<noteq> 0" using that by simp
    ultimately have "2 ^ 256 \<le> m * 256 ^ (s - 3)" if "m \<noteq> 0" using that by (force simp: pow_256 intro: order_trans)
    then show ?thesis using 4 by (cases "m = 0") simp_all
  qed (use assms(1) in \<open>auto simp: power_numeral_even power_numeral_odd\<close>)
qed

lemma SetCompact_val:
  "limb_val (fst (SetCompact c)) = compact_val c mod 2 ^ 256" "length (fst (SetCompact c)) = WIDTH"
  "fst (snd (SetCompact c)) \<longleftrightarrow> compact_val c \<noteq> 0 \<and> bit c 23"
  "snd (snd (SetCompact c)) \<longleftrightarrow> 2 ^ 256 \<le> compact_val c"
proof -
  define s m where "s = unat c div 2 ^ 24" and "m = unat c mod 2 ^ 23"
  have cv: "compact_val c = (if s \<le> 3 then m div 256 ^ (3 - s) else m * 256 ^ (s - 3))" by (simp add: compact_val_def s_def m_def)
  have m: "m < 2 ^ 23" by (simp add: m_def)
  define v where "v = c AND 0x007fffff"
  have v: "unat v = m" using compact_parts(2) [of c] by (simp only: v_def m_def)
  define w where "w = (if s \<le> 3 then drop_bit (8 * (3 - s)) v else v)"
  have "unat (drop_bit k v) = m div 2 ^ k" for k
    using v m unat_limb [of v] by (simp only: unsigned_drop_bit_eq) (simp add: take_bit_nat_eq_self drop_bit_eq_div)
  then have w: "unat w = (if s \<le> 3 then compact_val c else m)" using v by (simp add: w_def cv pow_256)
  have u: "unat (ucast w :: u64) = unat w" using unat_limb [of w] by (simp add: unsigned_ucast_eq take_bit_nat_eq_self)
  have z: "w = 0 \<longleftrightarrow> compact_val c = 0" using w by (auto simp: cv simp flip: unat_eq_zero)
  have eq: "SetCompact c = (if s \<le> 3 then base_uint_of (ucast w) else base_uint_shl (base_uint_of (ucast w)) (8 * (s - 3)),
      w \<noteq> 0 \<and> bit c 23, w \<noteq> 0 \<and> (34 < s \<or> (0xff < w \<and> 33 < s) \<or> (0xffff < w \<and> 32 < s)))"
    unfolding SetCompact_def Let_def compact_parts(1,3) s_def [symmetric] v_def [symmetric] w_def [symmetric] ..
  show "length (fst (SetCompact c)) = WIDTH" by (simp add: eq limb_val_of shl_val)
  show "fst (snd (SetCompact c)) \<longleftrightarrow> compact_val c \<noteq> 0 \<and> bit c 23" by (simp add: eq z)
  have small: "compact_val c < 2 ^ 256" if "s \<le> 3"
  proof -
    have "compact_val c \<le> m" using that by (simp add: cv)
    then show ?thesis using m by simp
  qed
  show "limb_val (fst (SetCompact c)) = compact_val c mod 2 ^ 256"
  proof (cases "s \<le> 3")
    case True
    then show ?thesis using w u small by (simp add: eq limb_val_of)
  next
    case False
    then show ?thesis using w u by (simp add: eq limb_val_of shl_val(1) [OF limb_val_of(2)] cv take_bit_eq_mod push_bit_eq_mult WIDTH_def pow_256)
  qed
  show "snd (snd (SetCompact c)) \<longleftrightarrow> 2 ^ 256 \<le> compact_val c"
  proof (cases "s \<le> 3")
    case True
    then show ?thesis using small by (simp add: eq)
  next
    case False
    then show ?thesis using overflow_iff [OF m, of s] w by (simp add: eq cv word_less_nat_alt flip: unat_eq_zero)
  qed
qed

text \<open>The mantissa that \<^verbatim>\<open>GetCompact\<close> takes from a number of \<open>s\<close> bytes, and its adjustment for the sign bit.\<close>

definition top3 :: "nat \<Rightarrow> nat \<Rightarrow> nat" where
  "top3 N s = (if s \<le> 3 then N * 256 ^ (3 - s) else N div 256 ^ (s - 3))"

definition mant_of :: "nat \<Rightarrow> nat \<Rightarrow> nat" where
  "mant_of N s = (if 2 ^ 23 \<le> top3 N s then top3 N s div 256 else top3 N s)"

definition size_of :: "nat \<Rightarrow> nat \<Rightarrow> nat" where
  "size_of N s = (if 2 ^ 23 \<le> top3 N s then s + 1 else s)"

lemma GetLow64_val:
  assumes "length a = WIDTH"
  shows "unat (GetLow64 a) = limb_val a mod 2 ^ 64"
proof -
  obtain x y zs where a: "a = x # y # zs" using assms by (cases a; cases "tl a") (auto simp: WIDTH_def)
  have "(ucast x OR push_bit 32 (ucast y) :: u64) = ucast x + push_bit 32 (ucast y)"
    by (rule disjunctive_add_eq_or [symmetric]) (rule bit_eqI, auto simp: bit_simps dest: bit_imp_le_length)
  moreover have "unat (ucast x + push_bit 32 (ucast y) :: u64) = unat x + 2 ^ 32 * unat y"
    using unat_limb [of x] unat_limb [of y]
    by (simp add: push_bit_eq_mult unat_word_ariths unsigned_ucast_eq take_bit_nat_eq_self mult.commute)
  ultimately have "unat (GetLow64 a) = unat x + 2 ^ 32 * unat y" by (simp add: a GetLow64_def)
  moreover have "limb_val a = (unat x + 2 ^ 32 * unat y) + 2 ^ 64 * limb_val zs" by (simp add: a algebra_simps)
  moreover have "unat x + 2 ^ 32 * unat y < 2 ^ 64" using unat_limb [of x] unat_limb [of y] by simp
  ultimately show ?thesis by simp
qed

lemma bit_23_iff: "unat (c :: u32) < 2 ^ 24 \<Longrightarrow> bit c 23 \<longleftrightarrow> 2 ^ 23 \<le> unat c"
proof -
  assume c: "unat c < 2 ^ 24"
  have "bit c 23 \<longleftrightarrow> bit (unat c) 23" by (simp add: bit_unsigned_iff)
  also have "\<dots> \<longleftrightarrow> odd (unat c div 2 ^ 23)" unfolding bit_iff_odd ..
  also have "\<dots> \<longleftrightarrow> 2 ^ 23 \<le> unat c"
  proof (cases "2 ^ 23 \<le> unat c")
    case True
    then have "unat c div 2 ^ 23 = 1" using c by (intro div_nat_eqI) simp_all
    then show ?thesis using True by simp
  qed simp
  finally show ?thesis .
qed

lemma byte_size:
  assumes "N < 2 ^ b" "s = (b + 7) div 8"
  shows "N < 256 ^ s" "top3 N s < 2 ^ 24"
proof -
  have "(2::nat) ^ b \<le> 2 ^ (8 * s)" using assms(2) by (intro power_increasing) simp_all
  from less_le_trans [OF assms(1) this] show N: "N < 256 ^ s" by (simp add: pow_256)
  show "top3 N s < 2 ^ 24"
  proof (cases "s \<le> 3")
    case True
    have "N * 256 ^ (3 - s) < 256 ^ s * 256 ^ (3 - s)" using N by simp
    also have "\<dots> = 256 ^ 3" using True by (simp flip: power_add)
    finally show ?thesis using True by (simp add: top3_def)
  next
    case False
    then have "(256::nat) ^ s = 256 ^ 3 * 256 ^ (s - 3)" by (simp only: power_add [symmetric]) simp
    then show ?thesis using N False by (simp add: top3_def div_less_iff_less_mult)
  qed
qed

lemma GetCompact_val:
  assumes "length a = WIDTH"
  defines "N \<equiv> limb_val a" and "s \<equiv> (base_uint_bits a + 7) div 8"
  shows "GetCompact False a = Some (of_nat (mant_of N s + 2 ^ 24 * size_of N s))" "mant_of N s < 2 ^ 23" "size_of N s \<le> 33"
proof -
  note b = byte_size [OF bits_val(1) [of a] refl, folded N_def s_def]
  have s: "s \<le> 32" using bits_val(3) [of a] assms(1) by (simp add: s_def WIDTH_def)
  define c0 where "c0 = (if s \<le> 3 then ucast (push_bit (8 * (3 - s)) (GetLow64 a)) else ucast (GetLow64 (base_uint_shr a (8 * (s - 3)))) :: u32)"
  have c0: "unat c0 = top3 N s"
  proof (cases "s \<le> 3")
    case True
    have "(256::nat) ^ s \<le> 256 ^ 3" using True by (intro power_increasing) simp_all
    then have "N < 2 ^ 24" using b(1) by simp
    then have g: "unat (GetLow64 a) = N" using GetLow64_val [OF assms(1)] by (simp add: N_def)
    have "N * 2 ^ (8 * (3 - s)) < 2 ^ 24" using b(2) True by (simp add: top3_def pow_256)
    then have "unat (push_bit (8 * (3 - s)) (GetLow64 a)) = N * 2 ^ (8 * (3 - s))"
      using g by (simp only: unsigned_push_bit_eq) (simp add: push_bit_eq_mult take_bit_nat_eq_self)
    then show ?thesis using b(2) True by (simp add: c0_def top3_def pow_256 unsigned_ucast_eq take_bit_nat_eq_self)
  next
    case False
    have "limb_val (base_uint_shr a (8 * (s - 3))) = top3 N s"
      using shr_val(1) [OF assms(1)] False by (simp add: top3_def pow_256 N_def drop_bit_eq_div)
    then have "unat (GetLow64 (base_uint_shr a (8 * (s - 3)))) = top3 N s"
      using GetLow64_val [OF shr_val(2) [OF assms(1)]] b(2) by simp
    then show ?thesis using b(2) False by (simp add: c0_def unsigned_ucast_eq take_bit_nat_eq_self)
  qed
  show m: "mant_of N s < 2 ^ 23" using b(2) by (auto simp: mant_of_def)
  show z: "size_of N s \<le> 33" using s by (simp add: size_of_def)
  have bit: "c0 AND 0x00800000 \<noteq> 0 \<longleftrightarrow> 2 ^ 23 \<le> top3 N s" using compact_parts(3) [of c0] bit_23_iff [of c0] c0 b(2) by simp
  have c1: "(if c0 AND 0x00800000 \<noteq> 0 then (drop_bit 8 c0, s + 1) else (c0, s)) = (of_nat (mant_of N s), size_of N s)"
  proof -
    have "drop_bit 8 c0 = of_nat (top3 N s div 256)" "c0 = of_nat (top3 N s)"
      using c0 b(2) by (simp_all add: word_unat_eq_iff unat_of_nat take_bit_nat_eq_self drop_bit_eq_div unat_div_distrib)
    then show ?thesis unfolding bit by (auto simp: mant_of_def size_of_def)
  qed
  define w where "w = (of_nat (mant_of N s) :: u32)"
  have um: "unat w = mant_of N s" using m by (simp add: w_def unat_of_nat take_bit_nat_eq_self)
  have low: "\<not> bit w k" if "23 \<le> k" for k
  proof
    assume "bit w k"
    then have "bit (unat w) k" by (simp add: bit_unsigned_iff)
    then have "2 ^ k \<le> mant_of N s" unfolding um bit_iff_odd by (metis div_less even_zero not_less)
    moreover have "(2::nat) ^ 23 \<le> 2 ^ k" using that by (rule power_increasing) simp
    ultimately show False using m by simp
  qed
  have mask: "(0x007fffff :: u32) = mask 23" by (simp add: mask_eq_exp_minus_1)
  have "w AND NOT 0x007fffff = 0" unfolding mask using low by (intro bit_eqI) (auto simp: bit_simps not_less)
  moreover have "w AND push_bit 24 v = 0" for v using low by (intro bit_eqI) (auto simp: bit_simps)
  from disjunctive_add_eq_or [OF this, of "of_nat (size_of N s)"]
  have "w OR push_bit 24 (of_nat (size_of N s)) = of_nat (mant_of N s + 2 ^ 24 * size_of N s)"
    by (simp add: w_def push_bit_eq_mult mult.commute)
  ultimately show "GetCompact False a = Some (of_nat (mant_of N s + 2 ^ 24 * size_of N s))"
    using z unfolding GetCompact_def Let_def s_def [symmetric] c0_def [symmetric] c1 w_def [symmetric] by simp
qed

lemma mant_val:
  "size_of N s \<le> 3 \<Longrightarrow> mant_of N s = N * 256 ^ (3 - size_of N s)" "3 < size_of N s \<Longrightarrow> mant_of N s = N div 256 ^ (size_of N s - 3)"
proof -
  have up: "N * 256 ^ (3 - s) div 256 = N * 256 ^ (3 - (s + 1))" if "s + 1 \<le> 3"
  proof -
    have "3 - s = Suc (3 - (s + 1))" using that by simp
    then have "(256::nat) ^ (3 - s) = 256 ^ (3 - (s + 1)) * 256" by (simp only: power_Suc2)
    then show ?thesis by simp
  qed
  have down: "N div 256 ^ (s - 3) div 256 = N div 256 ^ (s + 1 - 3)" if "3 \<le> s"
  proof -
    have "s + 1 - 3 = Suc (s - 3)" using that by simp
    then show ?thesis by (simp only: power_Suc2 div_mult2_eq)
  qed
  show "size_of N s \<le> 3 \<Longrightarrow> mant_of N s = N * 256 ^ (3 - size_of N s)"
    using up by (auto simp: size_of_def mant_of_def top3_def split: if_splits)
  show "mant_of N s = N div 256 ^ (size_of N s - 3)" if "3 < size_of N s"
  proof (cases "2 ^ 23 \<le> top3 N s")
    case True
    then have "3 \<le> s" using that by (simp add: size_of_def)
    moreover from this have "top3 N s = N div 256 ^ (s - 3)" by (cases "s = 3") (simp_all add: top3_def)
    ultimately show ?thesis using True down by (simp add: size_of_def mant_of_def)
  qed (use that in \<open>simp add: size_of_def mant_of_def top3_def\<close>)
qed

lemma GetCompact_compact_val:
  assumes "length a = WIDTH"
  shows "\<exists>c. GetCompact False a = Some c \<and> \<not> bit c 23 \<and>
    compact_val c = limb_val a div 256 ^ (size_of (limb_val a) ((base_uint_bits a + 7) div 8) - 3) *
      256 ^ (size_of (limb_val a) ((base_uint_bits a + 7) div 8) - 3)"
proof -
  define N s where "N = limb_val a" and "s = (base_uint_bits a + 7) div 8"
  note g = GetCompact_val [OF assms, folded N_def s_def]
  define m z where "m = mant_of N s" and "z = size_of N s"
  define c where "c = (of_nat (m + 2 ^ 24 * z) :: u32)"
  have mz: "m < 2 ^ 23" "z \<le> 33" using g(2,3) by (simp_all add: m_def z_def)
  then have "m + 2 ^ 24 * z < 2 ^ 32" by simp
  then have u: "unat c = m + 2 ^ 24 * z" unfolding c_def unat_of_nat by (simp only: take_bit_nat_eq_self len_num1 len_bit0) simp
  have hi: "unat c div 2 ^ 24 = z" using mz(1) by (simp add: u)
  have "unat c = m + 2 ^ 23 * (2 * z)" by (simp add: u)
  then have lo: "unat c mod 2 ^ 23 = m" using mz(1) by (simp only: mod_mult_self2 mod_less)
  have "bit c 23 \<longleftrightarrow> odd (unat c div 2 ^ 23)" unfolding bit_iff_odd [symmetric] by (simp add: bit_unsigned_iff)
  moreover have "unat c div 2 ^ 23 = 2 * z" using mz(1) by (simp add: u)
  ultimately have "\<not> bit c 23" by simp
  moreover have "compact_val c = N div 256 ^ (z - 3) * 256 ^ (z - 3)"
    using mant_val [of N s, folded z_def m_def] unfolding compact_val_def Let_def hi lo by (cases "z \<le> 3") simp_all
  ultimately show ?thesis using g(1) unfolding c_def m_def z_def N_def s_def by blast
qed

lemma size_precision:
  assumes "N < 2 ^ b" "b \<noteq> 0 \<Longrightarrow> 2 ^ (b - 1) \<le> N" "s = (b + 7) div 8" "3 < size_of N s"
  shows "2 ^ 15 * 256 ^ (size_of N s - 3) \<le> N"
proof (cases "2 ^ 23 \<le> top3 N s")
  case True
  then have s: "3 \<le> s" "size_of N s = s + 1" using assms(4) by (auto simp: size_of_def)
  then have "2 ^ 23 \<le> N div 256 ^ (s - 3)" using True by (cases "s = 3") (simp_all add: top3_def)
  then have "2 ^ 23 * 256 ^ (s - 3) \<le> N" by (simp add: less_eq_div_iff_mult_less_eq)
  moreover have "(256::nat) ^ (s + 1 - 3) = 256 * 256 ^ (s - 3)" using s(1) by (simp flip: power_Suc add: Suc_diff_le)
  ultimately show ?thesis using s(2) by simp
next
  case False
  then have s: "3 < s" "size_of N s = s" using assms(4) by (auto simp: size_of_def)
  have "(2::nat) ^ (8 * (s - 1)) \<le> 2 ^ (b - 1)" using s(1) assms(3) by (intro power_increasing) auto
  also have "\<dots> \<le> N" using assms(2,3) s(1) by simp
  finally have "256 ^ (s - 1) \<le> N" by (simp only: pow_256)
  moreover have "s - 1 = 2 + (s - 3)" using s(1) by simp
  then have "(256::nat) ^ (s - 1) = 256 ^ 2 * 256 ^ (s - 3)" by (simp only: power_add)
  ultimately show ?thesis using s(2) by simp
qed

lemma bits_unique:
  assumes "limb_val t < 2 ^ base_uint_bits a" "base_uint_bits a \<noteq> 0 \<Longrightarrow> 2 ^ (base_uint_bits a - 1) \<le> limb_val t"
  shows "base_uint_bits t = base_uint_bits a"
proof (cases "base_uint_bits a = 0")
  case True
  then have "limb_val t = 0" using assms(1) by simp
  then show ?thesis using True bits_val(4) [of t] by simp
next
  case False
  then have l: "2 ^ (base_uint_bits a - 1) \<le> limb_val t" using assms(2) by simp
  then have "limb_val t \<noteq> 0" by (metis power_not_zero le_zero_eq zero_neq_numeral)
  then have t: "base_uint_bits t \<noteq> 0" "2 ^ (base_uint_bits t - 1) \<le> limb_val t" using bits_val(2,4) [of t] by simp_all
  have "(2::nat) ^ (base_uint_bits a - 1) < 2 ^ base_uint_bits t" using l bits_val(1) [of t] by (rule le_less_trans)
  moreover have "(2::nat) ^ (base_uint_bits t - 1) < 2 ^ base_uint_bits a" using t(2) assms(1) by (rule le_less_trans)
  ultimately show ?thesis using False t(1) by simp
qed

lemma rounded_same:
  assumes "3 < size_of N s"
  defines "e \<equiv> size_of N s - 3"
  shows "mant_of (N div 256 ^ e * 256 ^ e) s = mant_of N s" "size_of (N div 256 ^ e * 256 ^ e) s = size_of N s"
proof -
  let ?N = "N div 256 ^ e * 256 ^ e"
  have "mant_of ?N s = mant_of N s \<and> size_of ?N s = size_of N s"
  proof (cases "2 ^ 23 \<le> top3 N s")
    case True
    then have s: "3 \<le> s" "e = Suc (s - 3)" using assms by (auto simp: size_of_def)
    have top: "top3 M s = M div 256 ^ (s - 3)" for M using s(1) by (cases "s = 3") (simp_all add: top3_def)
    have "?N = (N div 256 ^ (s - 3) div 256 * 256) * 256 ^ (s - 3)" unfolding s(2) power_Suc2 div_mult2_eq by (simp only: mult_ac)
    then have "top3 ?N s = top3 N s div 256 * 256" unfolding top by simp
    moreover have "2 ^ 15 \<le> top3 N s div 256" using div_le_mono [OF True, of 256] by simp
    ultimately show ?thesis using True by (simp add: mant_of_def size_of_def)
  next
    case False
    then have "3 < s" "e = s - 3" using assms by (auto simp: size_of_def)
    then have "top3 ?N s = top3 N s" by (simp add: top3_def)
    then show ?thesis by (simp add: mant_of_def size_of_def)
  qed
  then show "mant_of ?N s = mant_of N s" "size_of ?N s = size_of N s" by simp_all
qed

lemma rounded_bits:
  fixes N :: nat
  assumes "N < 2 ^ b" "2 ^ 15 * 256 ^ e \<le> N" "2 ^ (b - 1) \<le> N"
  shows "2 ^ (b - 1) \<le> N div 256 ^ e * 256 ^ e"
proof -
  have "(2::nat) ^ (15 + 8 * e) < 2 ^ b" using assms(1,2) by (simp add: power_add pow_256)
  then have "b - 1 = (b - 1 - 8 * e) + 8 * e" by simp
  then have p: "(2::nat) ^ (b - 1) = 2 ^ (b - 1 - 8 * e) * 256 ^ e" unfolding pow_256 by (metis power_add)
  have "2 ^ (b - 1 - 8 * e) \<le> N div 256 ^ e" using assms(3) unfolding p by (simp add: less_eq_div_iff_mult_less_eq)
  then show ?thesis unfolding p by simp
qed

lemma compact_rounds:
  assumes "length a = WIDTH"
  shows "\<exists>c t. GetCompact False a = Some c \<and> SetCompact c = (t, False, False) \<and> length t = WIDTH \<and> limb_val t \<le> limb_val a \<and>
    (limb_val a - limb_val t) * 2 ^ 15 \<le> limb_val a \<and> GetCompact False t = Some c"
proof -
  define N b s where "N = limb_val a" and "b = base_uint_bits a" and "s = (b + 7) div 8"
  define e where "e = size_of N s - 3"
  have N: "N < 2 ^ b" "b \<noteq> 0 \<Longrightarrow> 2 ^ (b - 1) \<le> N" using bits_val(1,2) [of a] by (simp_all add: N_def b_def)
  obtain c where c: "GetCompact False a = Some c" "\<not> bit c 23" "compact_val c = N div 256 ^ e * 256 ^ e"
    using GetCompact_compact_val [OF assms] unfolding N_def b_def s_def e_def by blast
  let ?t = "fst (SetCompact c)"
  have le: "compact_val c \<le> N" unfolding c(3) by (metis div_mult_mod_eq le_add1)
  have "N < 2 ^ 256" using limb_val_less [of a] assms by (simp add: N_def WIDTH_def)
  then have t: "limb_val ?t = compact_val c" "SetCompact c = (?t, False, False)"
    using SetCompact_val [of c] c(2) le by (simp_all add: prod_eq_iff)
  have err: "(N - compact_val c) * 2 ^ 15 \<le> N"
  proof (cases "3 < size_of N s")
    case True
    have "N - compact_val c < 256 ^ e" unfolding c(3) by (simp add: minus_div_mult_eq_mod)
    then show ?thesis using size_precision [OF N s_def True] by (simp add: e_def)
  qed (simp add: c(3) e_def)
  have same: "base_uint_bits ?t = b" "mant_of (compact_val c) s = mant_of N s" "size_of (compact_val c) s = size_of N s"
  proof -
    have "2 ^ (b - 1) \<le> compact_val c" if "b \<noteq> 0"
      using rounded_bits [OF N(1) _ N(2) [OF that], of e] size_precision [OF N s_def] N(2) [OF that] c(3)
      by (cases "3 < size_of N s") (simp_all add: e_def)
    then show "base_uint_bits ?t = b" using bits_unique [of ?t a] le N(1) t(1) by (simp add: b_def)
    show "mant_of (compact_val c) s = mant_of N s" "size_of (compact_val c) s = size_of N s"
      using rounded_same [of N s] c(3) by (cases "3 < size_of N s"; simp add: e_def)+
  qed
  have "GetCompact False ?t = Some c"
    using GetCompact_val(1) [OF SetCompact_val(2) [of c]] GetCompact_val(1) [OF assms] c(1) same t(1)
    by (simp add: N_def b_def s_def)
  then show ?thesis using c(1) t le err SetCompact_val(2) [of c] by (auto simp: N_def)
qed

section \<open>Hashes as numbers\<close>

lemma drop_nat_to_le: "k \<le> n \<Longrightarrow> drop k (nat_to_le n v) = nat_to_le (n - k) (v div 256 ^ k)"
proof (induction k arbitrary: n v)
  case (Suc k)
  then obtain m where m: "n = Suc m" by (cases n) auto
  then show ?case using Suc by (simp add: div_mult2_eq)
qed simp

lemma take_nat_to_le: "k \<le> n \<Longrightarrow> take k (nat_to_le n v) = nat_to_le k v"
proof (induction k arbitrary: n v)
  case (Suc k)
  then obtain m where m: "n = Suc m" by (cases n) auto
  then show ?case using Suc by simp
qed simp

lemma limb_val_digits: "limb_val (map (\<lambda>x. of_nat (v div 2 ^ (32 * x))) [0..<n]) = v mod 2 ^ (32 * n)"
proof (induction n arbitrary: v)
  case (Suc n)
  have "map (\<lambda>x. of_nat (v div 2 ^ (32 * x)) :: u32) [0..<Suc n] =
      of_nat v # map (\<lambda>x. of_nat (v div 2 ^ 32 div 2 ^ (32 * x))) [0..<n]"
    by (simp add: upt_conv_Cons map_Suc_upt [symmetric] power_add div_mult2_eq del: upt_Suc)
  then have "limb_val (map (\<lambda>x. of_nat (v div 2 ^ (32 * x))) [0..<Suc n]) =
      v mod 2 ^ 32 + 2 ^ 32 * ((v div 2 ^ 32) mod 2 ^ (32 * n))"
    using Suc [of "v div 2 ^ 32"] by (simp add: unat_of_nat take_bit_eq_mod del: upt_Suc)
  also have "\<dots> = v mod 2 ^ (32 * Suc n)" unfolding power_limb by (simp add: mod_mult2_eq add.commute)
  finally show ?case .
qed simp

lemma UintToArith256_val: "limb_val (UintToArith256 a) = unat a" "length (UintToArith256 a) = WIDTH"
proof -
  have "ReadLE32 (drop (4 * x) (Serialize_uint256 a)) = of_nat (unat a div 2 ^ (32 * x))" if "x < WIDTH" for x
  proof -
    have "4 * x \<le> 32" "4 \<le> 32 - 4 * x" using that by (simp_all add: WIDTH_def)
    then have "take 4 (drop (4 * x) (Serialize_uint256 a)) = nat_to_le 4 (unat a div 256 ^ (4 * x))"
      by (simp add: Serialize_uint256_def drop_nat_to_le take_nat_to_le)
    then have "ReadLE32 (drop (4 * x) (Serialize_uint256 a)) = of_nat ((unat a div 256 ^ (4 * x)) mod 256 ^ 4)"
      by (simp only: ReadLE32_def le_to_nat_nat_to_le)
    moreover have "(of_nat (k mod 256 ^ 4) :: u32) = of_nat k" for k
      by (simp add: word_unat_eq_iff unat_of_nat take_bit_eq_mod)
    ultimately show ?thesis by (simp only: pow_256) (simp add: mult.assoc)
  qed
  then have "UintToArith256 a = map (\<lambda>x. of_nat (unat a div 2 ^ (32 * x))) [0..<WIDTH]" by (simp add: UintToArith256_def)
  moreover have "unat a < 2 ^ (32 * WIDTH)" using unsigned_less [of a, where ?'a = nat] by (simp add: WIDTH_def)
  ultimately show "limb_val (UintToArith256 a) = unat a" by (simp only: limb_val_digits) simp
  show "length (UintToArith256 a) = WIDTH" by (simp add: UintToArith256_def)
qed

lemma ArithToUint256_eq: "length a = WIDTH \<Longrightarrow> ArithToUint256 a = to_word a"
proof -
  have app: "le_to_nat (xs @ ys) = le_to_nat xs + 256 ^ length xs * le_to_nat ys" for xs ys by (induction xs) (simp_all add: algebra_simps)
  have "le_to_nat (concat (map WriteLE32 xs)) = limb_val xs" for xs
    using unat_limb by (induction xs) (simp_all add: app WriteLE32_def)
  then show ?thesis by (simp add: ArithToUint256_def to_word_def)
qed

lemma Uint_Arith_roundtrip: "ArithToUint256 (UintToArith256 a) = a"
  using ArithToUint256_eq [of "UintToArith256 a"] UintToArith256_val by (simp add: to_word_def)

section \<open>The work of a block\<close>

lemma CheckProofOfWork_iff:
  "CheckProofOfWork hash nBits P \<longleftrightarrow>
     \<not> bit nBits 23 \<and> 0 < compact_val nBits \<and> compact_val nBits \<le> unat (powLimit P) \<and> unat hash \<le> compact_val nBits"
proof -
  obtain t n v where s: "SetCompact nBits = (t, n, v)" by (cases "SetCompact nBits") auto
  note val = SetCompact_val [of nBits, unfolded s fst_conv snd_conv]
  have pl: "unat (powLimit P) < 2 ^ 256" using unsigned_less [of "powLimit P", where ?'a = nat] by simp
  have c: "CompareTo (UintToArith256 w) t = (if unat w < limb_val t then - 1 else if limb_val t < unat w then 1 else 0)"
     "CompareTo t (UintToArith256 w) = (if limb_val t < unat w then - 1 else if unat w < limb_val t then 1 else 0)" for w
    using CompareTo_val [of "UintToArith256 w" t] CompareTo_val [of t "UintToArith256 w"] val(2) by (simp_all add: UintToArith256_val)
  show ?thesis
  proof (cases "2 ^ 256 \<le> compact_val nBits")
    case True
    then show ?thesis using val(4) s pl by (auto simp: CheckProofOfWork_def)
  next
    case False
    then have "limb_val t = compact_val nBits" using val(1) by simp
    then show ?thesis using False val s by (auto simp: CheckProofOfWork_def c EqualTo_0)
  qed
qed

lemma compact_val_top:
  assumes "compact_val c < 2 ^ 256"
  shows "compact_val c + 1 < 2 ^ 256"
proof (rule ccontr)
  assume "\<not> compact_val c + 1 < 2 ^ 256"
  then have v: "compact_val c + 1 = 2 ^ 256" using assms by simp
  show False
  proof (cases "unat c div 2 ^ 24 \<le> 3")
    case True
    then have "compact_val c \<le> unat c mod 2 ^ 23" by (simp add: compact_val_def Let_def)
    also have "\<dots> < 2 ^ 23" by simp
    finally show False using v by simp
  next
    case False
    then have "2 dvd compact_val c" by (simp add: compact_val_def Let_def)
    moreover have "odd (compact_val c)" using v by (metis dvd_triv_left even_plus_one_iff power_numeral_even even_mult_iff even_numeral even_power zero_less_numeral)
    ultimately show False by simp
  qed
qed

lemma GetBlockProof_val:
  "\<exists>w. GetBlockProof b = Some w \<and> length w = WIDTH \<and> limb_val w =
     (if bit (bi_nBits b) 23 \<or> compact_val (bi_nBits b) = 0 \<or> 2 ^ 256 \<le> compact_val (bi_nBits b) then 0
      else 2 ^ 256 div (compact_val (bi_nBits b) + 1))"
proof -
  define T where "T = compact_val (bi_nBits b)"
  obtain t n v where s: "SetCompact (bi_nBits b) = (t, n, v)" by (cases "SetCompact (bi_nBits b)") auto
  note val = SetCompact_val [of "bi_nBits b", unfolded s fst_conv snd_conv, folded T_def]
  show ?thesis
  proof (cases "bit (bi_nBits b) 23 \<or> T = 0 \<or> 2 ^ 256 \<le> T")
    case True
    then have "GetBlockProof b = Some (base_uint_of 0)" using val s by (auto simp: GetBlockProof_def EqualTo_0)
    then show ?thesis using True limb_val_of [of 0] by (simp add: T_def)
  next
    case False
    then have lt: "limb_val t = T" "T < 2 ^ 256" "0 < T" using val(1) by simp_all
    have T1: "T + 1 < 2 ^ 256" using compact_val_top lt(2) by (simp add: T_def)
    have n: "limb_val (base_uint_not t) = 2 ^ 256 - (T + 1)" "length (base_uint_not t) = WIDTH"
      using not_val [of t] val(2) lt(1) by (simp_all add: WIDTH_def base_uint_not_def)
    have a: "limb_val (base_uint_add x (base_uint_of 1)) = (limb_val x + 1) mod 2 ^ 256" "length (base_uint_add x (base_uint_of 1)) = WIDTH"
      if "length x = WIDTH" for x
      using add_loop_val [of x "base_uint_of 1" 0] that limb_val_of [of 1] by (simp_all add: base_uint_add_def WIDTH_def)
    obtain q where q: "base_uint_div (base_uint_not t) (base_uint_add t (base_uint_of 1)) = Some q" "length q = WIDTH"
        "limb_val q = (2 ^ 256 - (T + 1)) div (T + 1)"
      using base_uint_div_val(2) [OF n(2) a(2) [OF val(2)]] a(1) [OF val(2)] n(1) lt(1) T1 by auto
    have w: "(2 ^ 256 - (T + 1)) div (T + 1) + 1 = 2 ^ 256 div (T + 1)"
      using T1 div_add_self2 [of "T + 1" "2 ^ 256 - (T + 1)"] by simp
    moreover have "2 ^ 256 div (T + 1) < 2 ^ 256" using lt(3) by (intro div_less_dividend) simp_all
    ultimately have "limb_val (base_uint_add q (base_uint_of 1)) = 2 ^ 256 div (T + 1)" using a(1) [OF q(2)] q(3) by simp
    moreover have "GetBlockProof b = Some (base_uint_add q (base_uint_of 1))"
      using False val s q(1) lt by (simp add: GetBlockProof_def EqualTo_0)
    ultimately show ?thesis using False a(2) [OF q(2)] by (simp add: T_def)
  qed
qed

section \<open>The adjusted target\<close>

definition pow_params_ok :: "Params \<Rightarrow> bool" where
  "pow_params_ok P \<longleftrightarrow> 0 < nPowAveragingWindow P \<and> 0 < nPreBlossomPowTargetSpacing P \<and> 0 < nPostBlossomPowTargetSpacing P \<and>
     nPowAveragingWindow P * nPreBlossomPowTargetSpacing P < 2 ^ 24 \<and> nPowAveragingWindow P * nPostBlossomPowTargetSpacing P < 2 ^ 24 \<and>
     nPowAveragingWindow P < 2 ^ 24 \<and> 0 \<le> nPowMaxAdjustUp P \<and> nPowMaxAdjustUp P \<le> 100 \<and> 0 \<le> nPowMaxAdjustDown P \<and> nPowMaxAdjustDown P \<le> 100"

lemma timespans:
  assumes "pow_params_ok P" "0 \<le> h"
  shows "\<exists>A. AveragingWindowTimespan P h = Some A \<and> 0 < A \<and> A < 2 ^ 24 \<and>
    MinActualTimespan P h = Some (A * (100 - nPowMaxAdjustUp P) div 100) \<and>
    MaxActualTimespan P h = Some (A * (100 + nPowMaxAdjustDown P) div 100)"
proof -
  define sp where "sp = (if NetworkUpgradeActive P h UPGRADE_BLOSSOM = Some True then nPostBlossomPowTargetSpacing P else nPreBlossomPowTargetSpacing P)"
  have s: "PoWTargetSpacing P h = Some sp" using assms(2) by (simp add: PoWTargetSpacing_def sp_def NetworkUpgradeActive_def NetworkUpgradeState_def)
  define A where "A = nPowAveragingWindow P * sp"
  have A: "0 < A" "A < 2 ^ 24" using assms(1) by (auto simp: A_def sp_def pow_params_ok_def)
  then have a: "AveragingWindowTimespan P h = Some A" using s by (simp add: AveragingWindowTimespan_def int64_range_def flip: A_def)
  have u: "0 \<le> 100 - nPowMaxAdjustUp P" "100 - nPowMaxAdjustUp P \<le> 100" "0 \<le> 100 + nPowMaxAdjustDown P" "100 + nPowMaxAdjustDown P \<le> 200"
    using assms(1) by (auto simp: pow_params_ok_def)
  have range: "0 \<le> A * k \<and> int64_range (A * k)" if "0 \<le> k" "k \<le> 200" for k
  proof -
    have "A * k \<le> 2 ^ 24 * 200" using that A by (intro mult_mono) simp_all
    moreover have "0 \<le> A * k" using that A by simp
    ultimately show ?thesis by (simp add: int64_range_def)
  qed
  have "MinActualTimespan P h = Some (A * (100 - nPowMaxAdjustUp P) div 100)"
    using range [of "100 - nPowMaxAdjustUp P"] u by (simp add: MinActualTimespan_def a)
  moreover have "MaxActualTimespan P h = Some (A * (100 + nPowMaxAdjustDown P) div 100)"
    using range [of "100 + nPowMaxAdjustDown P"] u by (simp add: MaxActualTimespan_def a)
  ultimately show ?thesis using a A by blast
qed

text \<open>The target that the formula of the adjustment gives, from the mean target, the window length and the elapsed time.\<close>

definition next_target :: "Params \<Rightarrow> int \<Rightarrow> nat \<Rightarrow> int \<Rightarrow> nat" where
  "next_target P A avg elapsed =
     (let act = min (A * (100 + nPowMaxAdjustDown P) div 100) (max (A * (100 - nPowMaxAdjustUp P) div 100) (A + cdiv (elapsed - A) 4))
      in min (unat (powLimit P)) (avg div nat A * nat act))"

lemma cdiv_bound: "\<bar>cdiv x 4\<bar> \<le> \<bar>x\<bar>"
proof -
  have "y div 4 \<le> y" if "0 \<le> y" for y :: int using that by linarith
  then show ?thesis by (auto simp: cdiv_def sgn_if abs_mult pos_imp_zdiv_nonneg_iff)
qed

lemma act_range:
  assumes "pow_params_ok P" "0 < A" "A < 2 ^ 24"
  defines "mn \<equiv> A * (100 - nPowMaxAdjustUp P) div 100" and "mx \<equiv> A * (100 + nPowMaxAdjustDown P) div 100"
  shows "0 \<le> mn" "mn \<le> mx" "mx \<le> 2 * A"
proof -
  have u: "0 \<le> 100 - nPowMaxAdjustUp P" "100 - nPowMaxAdjustUp P \<le> 100 + nPowMaxAdjustDown P" "100 + nPowMaxAdjustDown P \<le> 200"
    using assms(1) by (auto simp: pow_params_ok_def)
  show "0 \<le> mn" using u assms(2) by (simp add: mn_def pos_imp_zdiv_nonneg_iff)
  show "mn \<le> mx" unfolding mn_def mx_def using u assms(2) by (intro zdiv_mono1 mult_left_mono) simp_all
  have "A * (100 + nPowMaxAdjustDown P) div 100 \<le> A * 200 div 100" using u assms(2) by (intro zdiv_mono1 mult_left_mono) simp_all
  then show "mx \<le> 2 * A" by (simp add: mx_def)
qed

lemma CalculateNextWorkRequired_eq:
  assumes "pow_params_ok P" "0 \<le> h" "length avg = WIDTH" "0 \<le> tlast" "tlast < 2 ^ 32" "0 \<le> tfirst" "tfirst < 2 ^ 32"
  shows "\<exists>A t. AveragingWindowTimespan P h = Some A \<and> 0 < A \<and> length t = WIDTH \<and> limb_val t \<le> unat (powLimit P) \<and>
    (limb_val avg < 2 ^ 255 \<longrightarrow> limb_val t = next_target P A (limb_val avg) (tlast - tfirst)) \<and>
    CalculateNextWorkRequired avg tlast tfirst P h = GetCompact False t"
proof -
  obtain A where A: "AveragingWindowTimespan P h = Some A" "0 < A" "A < 2 ^ 24"
      "MinActualTimespan P h = Some (A * (100 - nPowMaxAdjustUp P) div 100)"
      "MaxActualTimespan P h = Some (A * (100 + nPowMaxAdjustDown P) div 100)" using timespans [OF assms(1,2)] by blast
  define mn mx where "mn = A * (100 - nPowMaxAdjustUp P) div 100" and "mx = A * (100 + nPowMaxAdjustDown P) div 100"
  note r = act_range [OF assms(1) A(2,3), folded mn_def mx_def]
  define act where "act = min mx (max mn (A + cdiv (tlast - tfirst - A) 4))"
  have act: "0 \<le> act" "act \<le> 2 * A" using r by (auto simp: act_def)
  have w: "wrap64 (tlast - tfirst) = tlast - tfirst" "wrap64 (tlast - tfirst - A) = tlast - tfirst - A"
    "wrap64 (A + cdiv (tlast - tfirst - A) 4) = A + cdiv (tlast - tfirst - A) 4"
    using assms(4-7) A(2,3) cdiv_bound [of "tlast - tfirst - A"] by (auto intro!: wrap64_id simp: int64_range_def)
  have clamp: "(if mx < (if x < mn then mn else x) then mx else (if x < mn then mn else x)) = min mx (max mn x)" for x by auto
  have uA: "unat (of_int A :: u64) = nat A" "unat (of_int act :: u32) = nat act"
    using A(2,3) act by (simp_all add: unsigned_of_int take_bit_int_eq_self nat_take_bit_eq)
  obtain q where q: "base_uint_div avg (base_uint_of (of_int A)) = Some q" "length q = WIDTH" "limb_val q = limb_val avg div nat A"
    using base_uint_div_val(2) [OF assms(3) limb_val_of(2), of "of_int A"] limb_val_of(1) [of "of_int A"] uA(1) A(2) by auto
  define x where "x = base_uint_mul32 q (of_int act)"
  have x: "limb_val x = limb_val avg div nat A * nat act mod 2 ^ 256" "length x = WIDTH"
    using mul32_loop_val [of 0 "of_int act" q] q(2,3) uA(2) by (simp_all add: x_def base_uint_mul32_def WIDTH_def mult.commute)
  define t where "t = (if 0 < CompareTo x (UintToArith256 (powLimit P)) then UintToArith256 (powLimit P) else x)"
  have t: "limb_val t = min (unat (powLimit P)) (limb_val x)" "length t = WIDTH"
    using CompareTo_val [of x "UintToArith256 (powLimit P)"] x(2) UintToArith256_val [of "powLimit P"] by (auto simp: t_def)
  have "limb_val avg div nat A * nat act < 2 ^ 256" if "limb_val avg < 2 ^ 255"
  proof -
    have "nat act \<le> 2 * nat A" using act by linarith
    then have "limb_val avg div nat A * nat act \<le> limb_val avg div nat A * (2 * nat A)" by (rule mult_le_mono2)
    also have "\<dots> \<le> 2 * limb_val avg" using div_times_less_eq_dividend [of "limb_val avg" "nat A"] by (simp add: mult.left_commute)
    finally show ?thesis using that by simp
  qed
  then have "limb_val avg < 2 ^ 255 \<longrightarrow> limb_val t = next_target P A (limb_val avg) (tlast - tfirst)"
    unfolding next_target_def Let_def mn_def [symmetric] mx_def [symmetric] act_def [symmetric] t(1) x(1) by (metis mod_less)
  moreover have "CalculateNextWorkRequired avg tlast tfirst P h = GetCompact False t"
    unfolding CalculateNextWorkRequired_def A bind.simps Let_def w mn_def [symmetric] mx_def [symmetric] clamp act_def [symmetric]
    by (simp add: q(1) x_def t_def)
  ultimately show ?thesis using A(1,2) t by (intro exI [of _ A] exI [of _ t]) simp
qed

fun window_sum :: "block_tree \<Rightarrow> nat \<Rightarrow> ptr \<Rightarrow> nat" where
  "window_sum T 0 p = 0"
| "window_sum T (Suc n) p = (case T p of None \<Rightarrow> 0
     | Some b \<Rightarrow> compact_val (bi_nBits b) mod 2 ^ 256 + (case bi_pprev b of None \<Rightarrow> 0 | Some q \<Rightarrow> window_sum T n q))"

lemma pow_window_eq:
  assumes "tree_ok T" "T p = Some b" "length tot = WIDTH"
  shows "\<exists>tot'. pow_window n T (Some p) tot = Some (tot', nth_prev T n p) \<and> length tot' = WIDTH \<and>
    limb_val tot' = (limb_val tot + window_sum T n p) mod 2 ^ 256"
  using assms(2,3)
proof (induction n arbitrary: p b tot)
  case 0
  then show ?case using limb_val_less [of tot] by (simp add: WIDTH_def)
next
  case (Suc n)
  let ?x = "base_uint_add tot (fst (SetCompact (bi_nBits b)))"
  have x: "limb_val ?x = (limb_val tot + compact_val (bi_nBits b) mod 2 ^ 256) mod 2 ^ 256" "length ?x = WIDTH"
    using add_loop_val [of tot "fst (SetCompact (bi_nBits b))" 0] Suc.prems(2) SetCompact_val(1,2) [of "bi_nBits b"]
    by (simp_all add: base_uint_add_def WIDTH_def)
  have sum: "(limb_val ?x + w) mod 2 ^ 256 = (limb_val tot + (compact_val (bi_nBits b) mod 2 ^ 256 + w)) mod 2 ^ 256" for w
    unfolding x(1) mod_add_left_eq by (simp only: add.assoc)
  show ?case
  proof (cases "bi_pprev b")
    case None
    have "pow_window n T None ?x = Some (?x, None)" by (cases n) simp_all
    then show ?thesis using None Suc.prems(1) x by simp
  next
    case (Some q)
    obtain c where c: "T q = Some c" using tree_okD(3) [OF assms(1) Suc.prems(1) Some] by blast
    have "pow_window (Suc n) T (Some p) tot = pow_window n T (Some q) ?x" "nth_prev T (Suc n) p = nth_prev T n q"
        "window_sum T (Suc n) p = compact_val (bi_nBits b) mod 2 ^ 256 + window_sum T n q"
      using Some Suc.prems(1) by simp_all
    then show ?thesis using Suc.IH [OF c x(2)] sum by metis
  qed
qed

lemma median_times_range:
  assumes "tree_ok T" "T p = Some b"
  shows "\<exists>ts. median_times (Suc n) T (Some p) = Some ts \<and> ts \<noteq> [] \<and> (\<forall>x \<in> set ts. 0 \<le> x \<and> x < 2 ^ 32)"
  using assms(2)
proof (induction n arbitrary: p b)
  case (Suc n)
  have t: "0 \<le> uint (bi_nTime b) \<and> uint (bi_nTime b) < 2 ^ 32" using unsigned_less [of "bi_nTime b", where ?'a = int] by simp
  show ?case
  proof (cases "bi_pprev b")
    case (Some q)
    obtain c where "T q = Some c" using tree_okD(3) [OF assms(1) Suc.prems Some] by blast
    from Suc.IH [OF this] obtain ts where ts: "median_times (Suc n) T (Some q) = Some ts" "\<forall>x \<in> set ts. 0 \<le> x \<and> x < 2 ^ 32" by blast
    have "median_times (Suc (Suc n)) T (Some p) = Some (uint (bi_nTime b) # ts)"
      unfolding median_times.simps(3) [of "Suc n"] by (simp only: Suc.prems Some ts(1) bind.simps)
    then show ?thesis using ts(2) t by auto
  qed (use Suc.prems t in simp)
next
  case 0
  have "0 \<le> uint (bi_nTime b) \<and> uint (bi_nTime b) < 2 ^ 32" using unsigned_less [of "bi_nTime b", where ?'a = int] by simp
  then show ?case using 0 by simp
qed

lemma GetMedianTimePast_range:
  assumes "tree_ok T" "T p = Some b"
  shows "\<exists>x. GetMedianTimePast T p = Some x \<and> 0 \<le> x \<and> x < 2 ^ 32"
proof -
  obtain ts where ts: "median_times 11 T (Some p) = Some ts" "ts \<noteq> []" "\<forall>x \<in> set ts. 0 \<le> x \<and> x < 2 ^ 32"
    using median_times_range [OF assms, of 10] by auto
  have "sort ts ! (length ts div 2) \<in> set (sort ts)" using ts(2) by (intro nth_mem) simp
  then show ?thesis using ts by (simp add: GetMedianTimePast_def)
qed

lemma of_int_window: "pow_params_ok P \<Longrightarrow> unat (of_int (nPowAveragingWindow P) :: u64) = nat (nPowAveragingWindow P) \<and> 0 < nat (nPowAveragingWindow P)"
  by (simp add: pow_params_ok_def unsigned_of_int take_bit_int_eq_self)

lemma GetNextWorkRequired_eq:
  assumes "pow_params_ok P" "tree_ok T" "T p = Some b"
  defines "W \<equiv> nat (nPowAveragingWindow P)"
  shows "\<exists>t. GetNextWorkRequired T (Some p) pblock P = GetCompact False t \<and> length t = WIDTH \<and> limb_val t \<le> unat (powLimit P) \<and>
    (nPowAllowMinDifficultyBlocksAfterHeight P = None \<and> window_sum T W p < 2 ^ 255 \<longrightarrow>
      limb_val t = (case nth_prev T W p of None \<Rightarrow> unat (powLimit P)
        | Some f \<Rightarrow> next_target P (the (AveragingWindowTimespan P (bi_nHeight b + 1))) (window_sum T W p div W)
            (the (GetMedianTimePast T p) - the (GetMedianTimePast T f))))"
proof -
  let ?lim = "UintToArith256 (powLimit P)"
  note lim = UintToArith256_val [of "powLimit P"]
  obtain c where c: "GetCompact False ?lim = Some c" using compact_rounds [OF lim(2)] by blast
  have h: "0 \<le> bi_nHeight b" by (rule tree_okD(1) [OF assms(2,3)])
  have "\<exists>l. min_difficulty_rule P b pblock = Some l \<and> (nPowAllowMinDifficultyBlocksAfterHeight P = None \<longrightarrow> \<not> l)"
    using h by (auto simp: min_difficulty_rule_def PoWTargetSpacing_def NetworkUpgradeActive_def NetworkUpgradeState_def split: option.splits)
  then obtain l where l: "min_difficulty_rule P b pblock = Some l" "nPowAllowMinDifficultyBlocksAfterHeight P = None \<longrightarrow> \<not> l"
    by (elim exE conjE) (rule that)
  obtain tot where tot: "pow_window W T (Some p) (base_uint_of 0) = Some (tot, nth_prev T W p)" "length tot = WIDTH"
      "limb_val tot = window_sum T W p mod 2 ^ 256"
    using pow_window_eq [OF assms(2,3) limb_val_of(2) [of 0], of W] unfolding limb_val_of(1) unsigned_0 add_0
    by (elim exE conjE) (rule that)
  have step: "GetNextWorkRequired T (Some p) pblock P = (if l then Some c else case nth_prev T W p of None \<Rightarrow> Some c
      | Some f \<Rightarrow> Option.bind (base_uint_div tot (base_uint_of (of_int (nPowAveragingWindow P)))) (\<lambda>bnAvg.
          Option.bind (GetMedianTimePast T p) (\<lambda>nLast. Option.bind (GetMedianTimePast T f) (\<lambda>nFirst.
          CalculateNextWorkRequired bnAvg nLast nFirst P (bi_nHeight b + 1)))))"
    unfolding GetNextWorkRequired_def c option.case assms(3) bind.simps l(1) W_def [symmetric] tot(1) prod.case ..
  show ?thesis
  proof (cases "l \<or> nth_prev T W p = None")
    case True
    then have "GetNextWorkRequired T (Some p) pblock P = GetCompact False ?lim" using c by (auto simp: step)
    then show ?thesis using lim True l(2) by (intro exI [of _ ?lim]) auto
  next
    case False
    then obtain f where f: "nth_prev T W p = Some f" by blast
    from nth_prev_exists [OF assms(2,3) nth_prev_height [OF assms(2,3) f]] f obtain g where g: "T f = Some g" by auto
    obtain x y where x: "GetMedianTimePast T p = Some x" "0 \<le> x" "x < 2 ^ 32" and y: "GetMedianTimePast T f = Some y" "0 \<le> y" "y < 2 ^ 32"
      using GetMedianTimePast_range [OF assms(2,3)] GetMedianTimePast_range [OF assms(2) g] by blast
    obtain q where q: "base_uint_div tot (base_uint_of (of_int (nPowAveragingWindow P))) = Some q" "length q = WIDTH" "limb_val q = limb_val tot div W"
      using base_uint_div_val(2) [OF tot(2) limb_val_of(2), of "of_int (nPowAveragingWindow P)"] of_int_window [OF assms(1)]
      by (auto simp: limb_val_of W_def)
    obtain A t where t: "AveragingWindowTimespan P (bi_nHeight b + 1) = Some A" "length t = WIDTH" "limb_val t \<le> unat (powLimit P)"
        "limb_val q < 2 ^ 255 \<longrightarrow> limb_val t = next_target P A (limb_val q) (x - y)"
        "CalculateNextWorkRequired q x y P (bi_nHeight b + 1) = GetCompact False t"
      using CalculateNextWorkRequired_eq [OF assms(1) _ q(2) x(2,3) y(2,3), of "bi_nHeight b + 1"] h by auto
    have "GetNextWorkRequired T (Some p) pblock P = GetCompact False t"
      using False f q(1) x(1) y(1) t(5) by (simp add: step)
    moreover have "limb_val q = window_sum T W p div W \<and> limb_val q < 2 ^ 255" if "window_sum T W p < 2 ^ 255"
      using that tot(3) q(3) le_less_trans [OF div_le_dividend that, of W] by simp
    ultimately show ?thesis using t(1-4) f x(1) y(1) by (intro exI [of _ t]) auto
  qed
qed

section \<open>Properties\<close>

text \<open>C17: The compact form of a target: \<^verbatim>\<open>GetCompact\<close> fails no assertion, \<^verbatim>\<open>SetCompact\<close> reads what it writes back without the
  sign or overflow flag, as a number that is at most the original and less by at most one part in \<open>2 ^ 15\<close>, and writing
  that number gives the same compact form again.\<close>

theorem compact_roundtrip:
  assumes "length a = WIDTH"
  shows "\<exists>c t. GetCompact False a = Some c \<and> SetCompact c = (t, False, False) \<and> length t = WIDTH \<and> limb_val t \<le> limb_val a \<and>
    (limb_val a - limb_val t) * 2 ^ 15 \<le> limb_val a \<and> GetCompact False t = Some c"
  by (rule compact_rounds [OF assms])

theorem compact_roundtrip_witness:
  "\<exists>c t. GetCompact False (base_uint_of 0x1234567800) = Some c \<and> SetCompact c = (t, False, False) \<and> limb_val t \<le> 0x1234567800 \<and>
    (0x1234567800 - limb_val t) * 2 ^ 15 \<le> 0x1234567800 \<and> GetCompact False t = Some c"
  using compact_roundtrip [OF limb_val_of(2), of "0x1234567800"] by (auto simp: limb_val_of(1))

text \<open>C16: The flags of \<^verbatim>\<open>SetCompact\<close> are exact, so \<^verbatim>\<open>CheckProofOfWork\<close> accepts exactly the positive targets up to the limit
  of the network that the hash does not exceed, and \<^verbatim>\<open>GetBlockProof\<close> is \<open>2 ^ 256 div (target + 1)\<close> for every target in the
  range of 256 bits (its division is never by zero), although \<open>2 ^ 256\<close> does not fit the type; for negative, zero or
  overflowing targets it is 0.\<close>

theorem proof_of_work_exact:
  "(CheckProofOfWork hash nBits P \<longleftrightarrow>
     \<not> bit nBits 23 \<and> 0 < compact_val nBits \<and> compact_val nBits \<le> unat (powLimit P) \<and> unat hash \<le> compact_val nBits) \<and>
   (\<exists>w. GetBlockProof b = Some w \<and> length w = WIDTH \<and> limb_val w =
     (if bit (bi_nBits b) 23 \<or> compact_val (bi_nBits b) = 0 \<or> 2 ^ 256 \<le> compact_val (bi_nBits b) then 0
      else 2 ^ 256 div (compact_val (bi_nBits b) + 1)))"
  using CheckProofOfWork_iff GetBlockProof_val by blast

text \<open>C15: \<^verbatim>\<open>GetNextWorkRequired\<close> always returns a target that \<^verbatim>\<open>CheckProofOfWork\<close> reads without a flag and that is at most the
  limit of the network, whatever the block index holds.  On a network without the minimum-difficulty rule it is the
  compact form of the limit while the chain is shorter than the averaging window, and afterwards of the mean target of
  the window scaled by the damped and clamped median time span over the expected one (\<open>next_target\<close>), no step of the
  256-bit computation losing a bit as long as the sum of the targets is below \<open>2 ^ 255\<close>.\<close>

theorem next_work_correct:
  assumes "pow_params_ok P" "tree_ok T" "T p = Some b"
  shows "\<exists>c t. GetNextWorkRequired T (Some p) pblock P = Some c \<and> SetCompact c = (t, False, False) \<and> limb_val t \<le> unat (powLimit P) \<and>
    (nPowAllowMinDifficultyBlocksAfterHeight P = None \<and> window_sum T (nat (nPowAveragingWindow P)) p < 2 ^ 255 \<longrightarrow>
     (\<exists>x. length x = WIDTH \<and> GetCompact False x = Some c \<and>
      limb_val x = (case nth_prev T (nat (nPowAveragingWindow P)) p of None \<Rightarrow> unat (powLimit P)
        | Some f \<Rightarrow> next_target P (the (AveragingWindowTimespan P (bi_nHeight b + 1)))
            (window_sum T (nat (nPowAveragingWindow P)) p div nat (nPowAveragingWindow P))
            (the (GetMedianTimePast T p) - the (GetMedianTimePast T f)))))"
proof -
  obtain x where x: "GetNextWorkRequired T (Some p) pblock P = GetCompact False x" "length x = WIDTH" "limb_val x \<le> unat (powLimit P)"
    "nPowAllowMinDifficultyBlocksAfterHeight P = None \<and> window_sum T (nat (nPowAveragingWindow P)) p < 2 ^ 255 \<longrightarrow>
      limb_val x = (case nth_prev T (nat (nPowAveragingWindow P)) p of None \<Rightarrow> unat (powLimit P)
        | Some f \<Rightarrow> next_target P (the (AveragingWindowTimespan P (bi_nHeight b + 1)))
            (window_sum T (nat (nPowAveragingWindow P)) p div nat (nPowAveragingWindow P))
            (the (GetMedianTimePast T p) - the (GetMedianTimePast T f)))"
    using GetNextWorkRequired_eq [OF assms, of pblock] by (elim exE conjE) (rule that)
  obtain c t where c: "GetCompact False x = Some c" "SetCompact c = (t, False, False)" "limb_val t \<le> limb_val x"
    using compact_rounds [OF x(2)] by (elim exE conjE) (rule that)
  show ?thesis using x c by (intro exI [of _ c] exI [of _ t] conjI impI exI [of _ x]) simp_all
qed

lemma MainParams_pow: "pow_params_ok MainParams"
  by (simp add: pow_params_ok_def MainParams_def)

theorem next_work_correct_witness:
  "\<exists>c t. GetNextWorkRequired sample_tree (Some 3) None MainParams = Some c \<and> SetCompact c = (t, False, False) \<and>
    limb_val t \<le> unat (powLimit MainParams)"
proof -
  have "sample_tree 3 = Some (sample_entry 2 (Some 1))" by (simp add: sample_tree_def)
  from next_work_correct [OF MainParams_pow sample_tree_ok this, of None] show ?thesis by (elim exE conjE) (intro exI conjI)
qed

end
