(* ===== verification/Zc_CheckTx.thy ===== *)
theory Zc_CheckTx
  imports Zc_Consensus Zc_SigHash Zc_Script
begin

text \<open>
  Transaction checks (\<^verbatim>\<open>src/main.cpp\<close>, \<^verbatim>\<open>src/consensus/validation.h\<close>, \<^verbatim>\<open>src/consensus/consensus.h\<close>): the rules that need no
  context, the rules of the network upgrades, finality, expiry and the counting of signature operations.  A check
  returns \<open>Inr\<close> when the transaction passes and otherwise what is reported to the \<^verbatim>\<open>CValidationState\<close>: every rejection
  with its score and reason, or a fault.  Zero-knowledge proofs, note decryption and Ed25519 are arguments.
  The lemmas show that the checks accept exactly the transactions that satisfy the declarative rules, that the totals
  of an accepted transaction never overflow, and that each epoch accepts one transaction format.
\<close>

section \<open>Validation state\<close>

datatype mode_state = MODE_VALID | MODE_INVALID | MODE_ERROR

record CValidationState =
  vs_mode :: mode_state
  vs_nDoS :: int
  vs_strRejectReason :: string
  vs_chRejectCode :: byte
  vs_corruptionPossible :: bool

definition CValidationState0 :: CValidationState where
  "CValidationState0 = \<lparr>vs_mode = MODE_VALID, vs_nDoS = 0, vs_strRejectReason = [], vs_chRejectCode = 0, vs_corruptionPossible = False\<rparr>"

definition state_DoS :: "int \<Rightarrow> byte \<Rightarrow> string \<Rightarrow> bool \<Rightarrow> CValidationState \<Rightarrow> CValidationState" where
  "state_DoS level chRejectCodeIn strRejectReasonIn corruptionIn s =
     (let s' = s\<lparr>vs_chRejectCode := chRejectCodeIn, vs_strRejectReason := strRejectReasonIn, vs_corruptionPossible := corruptionIn\<rparr>
      in if vs_mode s = MODE_ERROR then s' else s'\<lparr>vs_nDoS := vs_nDoS s + level, vs_mode := MODE_INVALID\<rparr>)"

definition state_Error :: "string \<Rightarrow> CValidationState \<Rightarrow> CValidationState" where
  "state_Error strRejectReasonIn s =
     (if vs_mode s = MODE_VALID then s\<lparr>vs_strRejectReason := strRejectReasonIn, vs_mode := MODE_ERROR\<rparr> else s\<lparr>vs_mode := MODE_ERROR\<rparr>)"

definition REJECT_INVALID :: byte where "REJECT_INVALID = 0x10"

text \<open>What a check returns when it does not pass: the arguments of its call of \<^verbatim>\<open>state.DoS\<close>, of \<^verbatim>\<open>state.Error\<close>, or that an
  exception or a failed assertion leaves the function.  A check reports at most once, and then returns.\<close>

datatype check_failure = DoS int byte string bool | StateError string | Thrown

definition require :: "bool \<Rightarrow> int \<Rightarrow> string \<Rightarrow> check_failure + unit" where
  "require c level reason = (if c then Inr () else Inl (DoS level REJECT_INVALID reason False))"

fun report :: "check_failure + 'a \<Rightarrow> CValidationState \<Rightarrow> (bool \<times> CValidationState) option" where
  "report (Inr x) s = Some (True, s)"
| "report (Inl (DoS level code reason corruption)) s = Some (False, state_DoS level code reason corruption s)"
| "report (Inl (StateError reason)) s = Some (False, state_Error reason s)"
| "report (Inl Thrown) s = None"

definition may_throw :: "'e + 'a \<Rightarrow> check_failure + 'a" where
  "may_throw r = (case r of Inl e \<Rightarrow> Inl Thrown | Inr x \<Rightarrow> Inr x)"

definition asserted :: "'a option \<Rightarrow> check_failure + 'a" where
  "asserted r = (case r of None \<Rightarrow> Inl Thrown | Some x \<Rightarrow> Inr x)"

section \<open>Limits\<close>

definition SPROUT_MIN_TX_VERSION :: int where "SPROUT_MIN_TX_VERSION = 1"
definition OVERWINTER_MIN_TX_VERSION :: int where "OVERWINTER_MIN_TX_VERSION = 3"
definition OVERWINTER_MAX_TX_VERSION :: int where "OVERWINTER_MAX_TX_VERSION = 3"
definition SAPLING_MIN_TX_VERSION :: int where "SAPLING_MIN_TX_VERSION = 4"
definition SAPLING_MAX_TX_VERSION :: int where "SAPLING_MAX_TX_VERSION = 4"
definition MAX_BLOCK_SIZE :: nat where "MAX_BLOCK_SIZE = 2000000"
definition MAX_BLOCK_SIGOPS :: u32 where "MAX_BLOCK_SIGOPS = 20000"
definition MAX_TX_SIZE_BEFORE_SAPLING :: nat where "MAX_TX_SIZE_BEFORE_SAPLING = 100000"
definition MAX_TX_SIZE_AFTER_SAPLING :: nat where "MAX_TX_SIZE_AFTER_SAPLING = MAX_BLOCK_SIZE"
definition COINBASE_MATURITY :: int where "COINBASE_MATURITY = 100"
definition TX_EXPIRY_HEIGHT_THRESHOLD :: u32 where "TX_EXPIRY_HEIGHT_THRESHOLD = 500000000"
definition TX_EXPIRING_SOON_THRESHOLD :: u32 where "TX_EXPIRING_SOON_THRESHOLD = 3"

section \<open>Finality and expiry\<close>

definition IsFinalTx :: "CTransaction \<Rightarrow> int \<Rightarrow> int \<Rightarrow> bool" where
  "IsFinalTx tx nBlockHeight nBlockTime \<longleftrightarrow>
     nLockTime tx = 0 \<or> uint (nLockTime tx) < (if uint (nLockTime tx) < 500000000 then nBlockHeight else nBlockTime) \<or>
     list_all CTxIn_IsFinal (vin tx)"

definition IsExpiredTx :: "CTransaction \<Rightarrow> int \<Rightarrow> bool" where
  "IsExpiredTx tx nBlockHeight = (if nExpiryHeight tx = 0 \<or> IsCoinBase tx then False else nExpiryHeight tx < of_int nBlockHeight)"

definition IsExpiringSoonTx :: "CTransaction \<Rightarrow> int \<Rightarrow> bool" where
  "IsExpiringSoonTx tx nNextBlockHeight = IsExpiredTx tx (sint (of_int nNextBlockHeight + TX_EXPIRING_SOON_THRESHOLD))"

definition GetLegacySigOpCount :: "CTransaction \<Rightarrow> u32" where
  "GetLegacySigOpCount tx =
     fold (\<lambda>txout n. n + GetSigOpCount False (scriptPubKey txout)) (vout tx)
       (fold (\<lambda>txin n. n + GetSigOpCount False (scriptSig txin)) (vin tx) 0)"

section \<open>Rules without context\<close>

definition check_version :: "CTransaction \<Rightarrow> check_failure + unit" where
  "check_version tx =
     (if \<not> fOverwintered tx \<and> nVersion tx < SPROUT_MIN_TX_VERSION then require False 100 ''bad-txns-version-too-low''
      else if fOverwintered tx then
        rbind (require (OVERWINTER_MIN_TX_VERSION \<le> nVersion tx) 100 ''bad-tx-overwinter-version-too-low'') (\<lambda>_.
        rbind (require (nVersionGroupId tx = OVERWINTER_VERSION_GROUP_ID \<or> nVersionGroupId tx = SAPLING_VERSION_GROUP_ID)
          100 ''bad-tx-version-group-id'') (\<lambda>_.
        require (nExpiryHeight tx < TX_EXPIRY_HEIGHT_THRESHOLD) 100 ''bad-tx-expiry-height-too-high''))
      else Inr ())"

definition check_txout :: "CTxOut \<Rightarrow> int \<Rightarrow> check_failure + int" where
  "check_txout txout nValueOut =
     rbind (require (0 \<le> nValue txout) 100 ''bad-txns-vout-negative'') (\<lambda>_.
     rbind (require (nValue txout \<le> MAX_MONEY) 100 ''bad-txns-vout-toolarge'') (\<lambda>_.
     let nValueOut' = wrap64 (nValueOut + nValue txout)
     in rbind (require (MoneyRange nValueOut') 100 ''bad-txns-txouttotal-toolarge'') (\<lambda>_. Inr nValueOut')))"

definition check_valueBalance :: "CTransaction \<Rightarrow> int \<Rightarrow> check_failure + int" where
  "check_valueBalance tx nValueOut =
     rbind (require (\<not> (vShieldedSpend tx = [] \<and> vShieldedOutput tx = [] \<and> valueBalance tx \<noteq> 0)) 100 ''bad-txns-valuebalance-nonzero'') (\<lambda>_.
     rbind (require (valueBalance tx \<le> MAX_MONEY \<and> - MAX_MONEY \<le> valueBalance tx) 100 ''bad-txns-valuebalance-toolarge'') (\<lambda>_.
     if valueBalance tx \<le> 0
     then let nValueOut' = wrap64 (nValueOut + - valueBalance tx)
       in rbind (require (MoneyRange nValueOut') 100 ''bad-txns-txouttotal-toolarge'') (\<lambda>_. Inr nValueOut')
     else Inr nValueOut))"

definition check_joinsplit :: "JSDescription \<Rightarrow> int \<Rightarrow> check_failure + int" where
  "check_joinsplit joinsplit nValueOut =
     rbind (require (0 \<le> vpub_old joinsplit) 100 ''bad-txns-vpub_old-negative'') (\<lambda>_.
     rbind (require (0 \<le> vpub_new joinsplit) 100 ''bad-txns-vpub_new-negative'') (\<lambda>_.
     rbind (require (vpub_old joinsplit \<le> MAX_MONEY) 100 ''bad-txns-vpub_old-toolarge'') (\<lambda>_.
     rbind (require (vpub_new joinsplit \<le> MAX_MONEY) 100 ''bad-txns-vpub_new-toolarge'') (\<lambda>_.
     rbind (require (\<not> (vpub_new joinsplit \<noteq> 0 \<and> vpub_old joinsplit \<noteq> 0)) 100 ''bad-txns-vpubs-both-nonzero'') (\<lambda>_.
     let nValueOut' = wrap64 (nValueOut + vpub_old joinsplit)
     in rbind (require (MoneyRange nValueOut') 100 ''bad-txns-txouttotal-toolarge'') (\<lambda>_. Inr nValueOut'))))))"

definition check_joinsplit_in :: "JSDescription \<Rightarrow> int \<Rightarrow> check_failure + int" where
  "check_joinsplit_in it nValueIn =
     (let nValueIn' = wrap64 (nValueIn + vpub_new it)
      in rbind (require (MoneyRange (vpub_new it) \<and> MoneyRange nValueIn') 100 ''bad-txns-txintotal-toolarge'') (\<lambda>_. Inr nValueIn'))"

definition check_value_in :: "CTransaction \<Rightarrow> check_failure + unit" where
  "check_value_in tx = rbind (rfold check_joinsplit_in (vJoinSplit tx) 0) (\<lambda>nValueIn.
     if 0 \<le> valueBalance tx then require (MoneyRange (wrap64 (nValueIn + valueBalance tx))) 100 ''bad-txns-txintotal-toolarge''
     else Inr ())"

definition check_fresh :: "string \<Rightarrow> 'a \<Rightarrow> 'a set \<Rightarrow> check_failure + 'a set" where
  "check_fresh reason x seen = rbind (require (x \<notin> seen) 100 reason) (\<lambda>_. Inr (insert x seen))"

definition check_duplicates :: "CTransaction \<Rightarrow> check_failure + unit" where
  "check_duplicates tx =
     rbind (rfold (\<lambda>txin. check_fresh ''bad-txns-inputs-duplicate'' (prevout txin)) (vin tx) {}) (\<lambda>_.
     rbind (rfold (\<lambda>joinsplit. rfold (check_fresh ''bad-joinsplits-nullifiers-duplicate'') (js_nullifiers joinsplit)) (vJoinSplit tx) {}) (\<lambda>_.
     rbind (rfold (\<lambda>spend_desc. check_fresh ''bad-spend-description-nullifiers-duplicate'' (sd_nullifier spend_desc)) (vShieldedSpend tx) {}) (\<lambda>_.
     Inr ())))"

definition check_coinbase_form :: "CTransaction \<Rightarrow> check_failure + unit" where
  "check_coinbase_form tx =
     (if IsCoinBase tx then
        rbind (require (vJoinSplit tx = []) 100 ''bad-cb-has-joinsplits'') (\<lambda>_.
        rbind (require (vShieldedSpend tx = []) 100 ''bad-cb-has-spend-description'') (\<lambda>_.
        require (2 \<le> length (scriptSig (vin tx ! 0)) \<and> length (scriptSig (vin tx ! 0)) \<le> 100) 100 ''bad-cb-length''))
      else rfold (\<lambda>txin _. require (\<not> COutPoint_IsNull (prevout txin)) 10 ''bad-txns-prevout-null'') (vin tx) ())"

definition CheckTransactionWithoutProofVerification :: "CTransaction \<Rightarrow> check_failure + unit" where
  "CheckTransactionWithoutProofVerification tx =
     rbind (check_version tx) (\<lambda>_.
     rbind (require (\<not> (vin tx = [] \<and> vJoinSplit tx = [] \<and> vShieldedSpend tx = [])) 10 ''bad-txns-vin-empty'') (\<lambda>_.
     rbind (require (\<not> (vout tx = [] \<and> vJoinSplit tx = [] \<and> vShieldedOutput tx = [])) 10 ''bad-txns-vout-empty'') (\<lambda>_.
     rbind (may_throw (Serialize_tx tx)) (\<lambda>b.
     rbind (require (length b \<le> MAX_TX_SIZE_AFTER_SAPLING) 100 ''bad-txns-oversize'') (\<lambda>_.
     rbind (rfold check_txout (vout tx) 0) (\<lambda>nValueOut.
     rbind (check_valueBalance tx nValueOut) (\<lambda>nValueOut.
     rbind (rfold check_joinsplit (vJoinSplit tx) nValueOut) (\<lambda>_.
     rbind (check_value_in tx) (\<lambda>_.
     rbind (check_duplicates tx) (\<lambda>_.
     check_coinbase_form tx))))))))))"

text \<open>\<open>js_verify\<close> is \<^verbatim>\<open>joinsplit.Verify(params, verifier, joinSplitPubKey)\<close>.\<close>

definition CheckTransaction :: "(JSDescription \<Rightarrow> uint256 \<Rightarrow> bool) \<Rightarrow> CTransaction \<Rightarrow> check_failure + unit" where
  "CheckTransaction js_verify tx =
     rbind (CheckTransactionWithoutProofVerification tx) (\<lambda>_.
     rfold (\<lambda>joinsplit _. require (js_verify joinsplit (joinSplitPubKey tx)) 100 ''bad-txns-joinsplit-verification-failed'') (vJoinSplit tx) ())"

section \<open>Rules of the network upgrades\<close>

definition hex_digit :: "u32 \<Rightarrow> char" where
  "hex_digit d = ''0123456789abcdef'' ! unat d"

definition HexInt :: "u32 \<Rightarrow> string" where
  "HexInt val = map (\<lambda>i. hex_digit (drop_bit (28 - 4 * i) val AND 0xf)) [0..<8]"

text \<open>The code outside the sources that the contextual rules call: note decryption, Ed25519 and the Sapling verifier with
  its context of type \<open>'c\<close>.\<close>

record 'c tx_verifier =
  tv_blake :: blake2b
  tv_decrypt_out :: "bytes \<Rightarrow> uint256 \<Rightarrow> uint256 \<Rightarrow> uint256 \<Rightarrow> uint256 \<Rightarrow> (uint256 \<times> uint256) option"
  tv_decrypt_note :: "bytes \<Rightarrow> uint256 \<Rightarrow> uint256 \<Rightarrow> uint256 \<Rightarrow> uint256 \<Rightarrow> bool"
  tv_sign_verify :: "bytes \<Rightarrow> uint256 \<Rightarrow> uint256 \<Rightarrow> bool"
  tv_ctx_init :: 'c
  tv_check_spend :: "'c \<Rightarrow> SpendDescription \<Rightarrow> uint256 \<Rightarrow> bool \<times> 'c"
  tv_check_output :: "'c \<Rightarrow> OutputDescription \<Rightarrow> bool \<times> 'c"
  tv_final_check :: "'c \<Rightarrow> int \<Rightarrow> bytes \<Rightarrow> uint256 \<Rightarrow> bool"

definition check_format :: "bool \<Rightarrow> bool \<Rightarrow> int \<Rightarrow> int \<Rightarrow> CTransaction \<Rightarrow> check_failure + unit" where
  "check_format overwinterActive saplingActive dosLevelConstricting dosLevelPotentiallyRelaxing tx =
     rbind (require (\<not> (\<not> overwinterActive \<and> fOverwintered tx)) dosLevelPotentiallyRelaxing ''tx-overwinter-not-active'') (\<lambda>_.
     if saplingActive then
       rbind (require (\<not> (SAPLING_MIN_TX_VERSION \<le> nVersion tx \<and> \<not> fOverwintered tx)) dosLevelConstricting ''tx-overwintered-flag-not-set'') (\<lambda>_.
       rbind (require (\<not> (fOverwintered tx \<and> nVersionGroupId tx \<noteq> SAPLING_VERSION_GROUP_ID)) dosLevelPotentiallyRelaxing ''bad-sapling-tx-version-group-id'') (\<lambda>_.
       rbind (require (\<not> (fOverwintered tx \<and> nVersion tx < SAPLING_MIN_TX_VERSION)) dosLevelConstricting ''bad-tx-sapling-version-too-low'') (\<lambda>_.
       require (\<not> (fOverwintered tx \<and> SAPLING_MAX_TX_VERSION < nVersion tx)) dosLevelPotentiallyRelaxing ''bad-tx-sapling-version-too-high'')))
     else if overwinterActive then
       rbind (require (\<not> (OVERWINTER_MIN_TX_VERSION \<le> nVersion tx \<and> \<not> fOverwintered tx)) dosLevelConstricting ''tx-overwinter-flag-not-set'') (\<lambda>_.
       rbind (require (\<not> (fOverwintered tx \<and> nVersionGroupId tx \<noteq> OVERWINTER_VERSION_GROUP_ID)) dosLevelPotentiallyRelaxing ''bad-overwinter-tx-version-group-id'') (\<lambda>_.
       require (\<not> (fOverwintered tx \<and> OVERWINTER_MAX_TX_VERSION < nVersion tx)) dosLevelPotentiallyRelaxing ''bad-tx-overwinter-version-too-high''))
     else Inr ())"

definition check_expiry :: "bool \<Rightarrow> int \<Rightarrow> int \<Rightarrow> CTransaction \<Rightarrow> check_failure + unit" where
  "check_expiry overwinterActive dosLevelConstricting nHeight tx =
     (if overwinterActive then
        rbind (require (fOverwintered tx) dosLevelConstricting ''tx-overwinter-active'') (\<lambda>_.
        require (\<not> IsExpiredTx tx nHeight) (if IsExpiredTx tx (nHeight - 1) then dosLevelConstricting else 0) ''tx-overwinter-expired'')
      else Inr ())"

definition check_coinbase_outputs :: "'c tx_verifier \<Rightarrow> bool \<Rightarrow> int \<Rightarrow> CTransaction \<Rightarrow> check_failure + unit" where
  "check_coinbase_outputs V heartwoodActive dosLevelPotentiallyRelaxing tx =
     (if \<not> IsCoinBase tx then Inr ()
      else if \<not> heartwoodActive then require (vShieldedOutput tx = []) dosLevelPotentiallyRelaxing ''bad-cb-has-output-description''
      else rfold (\<lambda>output _.
        case tv_decrypt_out V (od_outCiphertext output) 0 (od_cv output) (od_cmu output) (od_ephemeralKey output) of
          None \<Rightarrow> require False 100 ''bad-cb-output-desc-invalid-outct''
        | Some (esk, pk_d) \<Rightarrow>
            require (tv_decrypt_note V (od_encCiphertext output) (od_ephemeralKey output) esk pk_d (od_cmu output))
              100 ''bad-cb-output-desc-invalid-encct'') (vShieldedOutput tx) ())"

text \<open>The hash to be signed for no input; only a \<^verbatim>\<open>logic_error\<close> is caught.\<close>

definition shielded_sighash :: "blake2b \<Rightarrow> CTransaction \<Rightarrow> u32 \<Rightarrow> check_failure + uint256" where
  "shielded_sighash blake tx branchId =
     (case SignatureHash blake [] tx NOT_AN_INPUT 1 0 branchId None of
        Inr h \<Rightarrow> Inr h
      | Inl InputOutOfRange \<Rightarrow> Inl (DoS 100 REJECT_INVALID ''error-computing-signature-hash'' False)
      | Inl NoMatchingOutput \<Rightarrow> Inl (DoS 100 REJECT_INVALID ''error-computing-signature-hash'' False)
      | Inl _ \<Rightarrow> Inl Thrown)"

definition check_joinsplit_sig :: "'c tx_verifier \<Rightarrow> u32 \<Rightarrow> u32 \<Rightarrow> uint256 \<Rightarrow> uint256 \<Rightarrow> int \<Rightarrow> CTransaction \<Rightarrow> check_failure + unit" where
  "check_joinsplit_sig V consensusBranchId prevConsensusBranchId dataToBeSigned prevDataToBeSigned dosLevelPotentiallyRelaxing tx =
     (if vJoinSplit tx = [] then Inr ()
      else if tv_sign_verify V (joinSplitSig tx) dataToBeSigned (joinSplitPubKey tx) then Inr ()
      else if tv_sign_verify V (joinSplitSig tx) prevDataToBeSigned (joinSplitPubKey tx)
      then require False dosLevelPotentiallyRelaxing
        (''old-consensus-branch-id (Expected '' @ HexInt consensusBranchId @ '', found '' @ HexInt prevConsensusBranchId @ '')'')
      else require False dosLevelPotentiallyRelaxing ''bad-txns-invalid-joinsplit-signature'')"

definition check_sapling_proofs :: "'c tx_verifier \<Rightarrow> uint256 \<Rightarrow> int \<Rightarrow> CTransaction \<Rightarrow> check_failure + unit" where
  "check_sapling_proofs V dataToBeSigned dosLevelPotentiallyRelaxing tx =
     (if vShieldedSpend tx = [] \<and> vShieldedOutput tx = [] then Inr ()
      else rbind (rfold (\<lambda>spend ctx. let (ok, ctx') = tv_check_spend V ctx spend dataToBeSigned
             in rbind (require ok dosLevelPotentiallyRelaxing ''bad-txns-sapling-spend-description-invalid'') (\<lambda>_. Inr ctx'))
             (vShieldedSpend tx) (tv_ctx_init V)) (\<lambda>ctx.
           rbind (rfold (\<lambda>output ctx. let (ok, ctx') = tv_check_output V ctx output
             in rbind (require ok 100 ''bad-txns-sapling-output-description-invalid'') (\<lambda>_. Inr ctx'))
             (vShieldedOutput tx) ctx) (\<lambda>ctx.
           require (tv_final_check V ctx (valueBalance tx) (bindingSig tx) dataToBeSigned)
             dosLevelPotentiallyRelaxing ''bad-txns-sapling-binding-signature-invalid'')))"

definition ContextualCheckTransaction ::
  "'c tx_verifier \<Rightarrow> Params \<Rightarrow> CTransaction \<Rightarrow> int \<Rightarrow> bool \<Rightarrow> bool \<Rightarrow> check_failure + unit" where
  "ContextualCheckTransaction V params tx nHeight isMined isInitBlockDownload =
     (let dosLevelConstricting = (if isMined then 100 else 10);
          dosLevelPotentiallyRelaxing = (if isMined then 100 else if isInitBlockDownload then 0 else 10)
      in rbind (asserted (NetworkUpgradeActive params nHeight UPGRADE_OVERWINTER)) (\<lambda>overwinterActive.
         rbind (asserted (NetworkUpgradeActive params nHeight UPGRADE_SAPLING)) (\<lambda>saplingActive.
         rbind (asserted (NetworkUpgradeActive params nHeight UPGRADE_HEARTWOOD)) (\<lambda>heartwoodActive.
         rbind (check_format overwinterActive saplingActive dosLevelConstricting dosLevelPotentiallyRelaxing tx) (\<lambda>_.
         rbind (check_expiry overwinterActive dosLevelConstricting nHeight tx) (\<lambda>_.
         rbind (if saplingActive then Inr () else rbind (may_throw (Serialize_tx tx)) (\<lambda>b.
           require (length b \<le> MAX_TX_SIZE_BEFORE_SAPLING) dosLevelPotentiallyRelaxing ''bad-txns-oversize'')) (\<lambda>_.
         rbind (check_coinbase_outputs V heartwoodActive dosLevelPotentiallyRelaxing tx) (\<lambda>_.
         rbind (asserted (CurrentEpochBranchId nHeight params)) (\<lambda>consensusBranchId.
         let prevConsensusBranchId = PrevEpochBranchId consensusBranchId
         in rbind (if vJoinSplit tx = [] \<and> vShieldedSpend tx = [] \<and> vShieldedOutput tx = [] then Inr (0, 0)
              else rbind (shielded_sighash (tv_blake V) tx consensusBranchId) (\<lambda>h.
                rbind (shielded_sighash (tv_blake V) tx prevConsensusBranchId) (\<lambda>h'. Inr (h, h')))) (\<lambda>(dataToBeSigned, prevDataToBeSigned).
            rbind (check_joinsplit_sig V consensusBranchId prevConsensusBranchId dataToBeSigned prevDataToBeSigned dosLevelPotentiallyRelaxing tx) (\<lambda>_.
            check_sapling_proofs V dataToBeSigned dosLevelPotentiallyRelaxing tx)))))))))))"

section \<open>What the rules without context accept\<close>

lemma require_Inr [simp]: "require c l s = Inr u \<longleftrightarrow> c"
  by (simp add: require_def)

lemma may_throw_Inr [simp]: "may_throw r = Inr x \<longleftrightarrow> r = Inr x"
  by (cases r) (simp_all add: may_throw_def)

lemma asserted_Inr [simp]: "asserted r = Inr x \<longleftrightarrow> r = Some x"
  by (cases r) (simp_all add: asserted_def)

lemma rfold_require: "rfold (\<lambda>x _. require (P x) l s) xs () = Inr () \<longleftrightarrow> list_all P xs"
  by (induction xs) (auto simp: rbind_eq_Inr)

lemma rfold_fresh:
  "rfold (\<lambda>x. check_fresh s (f x)) xs S = Inr S' \<longleftrightarrow> distinct (map f xs) \<and> f ` set xs \<inter> S = {} \<and> S' = S \<union> f ` set xs"
  by (induction xs arbitrary: S) (auto simp: check_fresh_def rbind_eq_Inr)

lemma rfold_concat: "rfold (\<lambda>y. rfold f (g y)) ys s = rfold f (concat (map g ys)) s"
proof (induction ys arbitrary: s)
  case (Cons y ys)
  then have "rfold (\<lambda>y. rfold f (g y)) ys = rfold f (concat (map g ys))" by (intro ext)
  then show ?case by (simp add: rfold_append)
qed simp

text \<open>A loop that adds up amounts and stops when the total leaves the money range.\<close>

lemma rfold_total:
  assumes "\<And>x v r. 0 \<le> v \<Longrightarrow> v \<le> MAX_MONEY \<Longrightarrow> f x v = Inr r \<longleftrightarrow> ok x \<and> 0 \<le> val x \<and> v + val x \<le> MAX_MONEY \<and> r = v + val x"
    and "0 \<le> v" "v \<le> MAX_MONEY"
  shows "rfold f xs v = Inr r \<longleftrightarrow> list_all ok xs \<and> list_all (\<lambda>x. 0 \<le> val x) xs \<and>
    v + sum_list (map val xs) \<le> MAX_MONEY \<and> r = v + sum_list (map val xs)"
  using assms(2,3)
proof (induction xs arbitrary: v)
  case (Cons x xs)
  have s: "0 \<le> sum_list (map val xs)" if "list_all (\<lambda>x. 0 \<le> val x) xs"
    using that by (intro sum_list_nonneg) (auto simp: list_all_iff)
  have "rfold f (x # xs) v = Inr r \<longleftrightarrow> (ok x \<and> 0 \<le> val x \<and> v + val x \<le> MAX_MONEY) \<and> rfold f xs (v + val x) = Inr r"
    using assms(1) [OF Cons.prems] by (auto simp: rbind_eq_Inr)
  also have "\<dots> \<longleftrightarrow> list_all ok (x # xs) \<and> list_all (\<lambda>x. 0 \<le> val x) (x # xs) \<and>
      v + sum_list (map val (x # xs)) \<le> MAX_MONEY \<and> r = v + sum_list (map val (x # xs))"
    using Cons.IH [of "v + val x"] Cons.prems s by auto
  finally show ?case .
qed (auto simp: rbind_eq_Inr)

lemma check_txout_iff:
  assumes "0 \<le> v" "v \<le> MAX_MONEY"
  shows "check_txout x v = Inr r \<longleftrightarrow> True \<and> 0 \<le> nValue x \<and> v + nValue x \<le> MAX_MONEY \<and> r = v + nValue x"
proof -
  have "int64_range (v + nValue x)" if "0 \<le> nValue x" "nValue x \<le> MAX_MONEY"
    using that assms by (simp add: int64_range_def MAX_MONEY_eq)
  then show ?thesis using assms by (auto simp: check_txout_def rbind_eq_Inr Let_def MoneyRange_def)
qed

lemma check_joinsplit_iff:
  assumes "0 \<le> v" "v \<le> MAX_MONEY"
  shows "check_joinsplit x v = Inr r \<longleftrightarrow> (0 \<le> vpub_new x \<and> vpub_new x \<le> MAX_MONEY \<and> \<not> (vpub_new x \<noteq> 0 \<and> vpub_old x \<noteq> 0)) \<and>
    0 \<le> vpub_old x \<and> v + vpub_old x \<le> MAX_MONEY \<and> r = v + vpub_old x"
proof -
  have "int64_range (v + vpub_old x)" if "0 \<le> vpub_old x" "vpub_old x \<le> MAX_MONEY"
    using that assms by (simp add: int64_range_def MAX_MONEY_eq)
  then show ?thesis using assms by (auto simp: check_joinsplit_def rbind_eq_Inr Let_def MoneyRange_def)
qed

lemma check_joinsplit_in_iff:
  assumes "0 \<le> v" "v \<le> MAX_MONEY"
  shows "check_joinsplit_in x v = Inr r \<longleftrightarrow> True \<and> 0 \<le> vpub_new x \<and> v + vpub_new x \<le> MAX_MONEY \<and> r = v + vpub_new x"
proof -
  have "int64_range (v + vpub_new x)" if "0 \<le> vpub_new x" "vpub_new x \<le> MAX_MONEY"
    using that assms by (simp add: int64_range_def MAX_MONEY_eq)
  then show ?thesis using assms by (auto simp: check_joinsplit_in_def rbind_eq_Inr Let_def MoneyRange_def)
qed

lemma check_valueBalance_iff:
  assumes "0 \<le> v" "v \<le> MAX_MONEY"
  shows "check_valueBalance tx v = Inr r \<longleftrightarrow> (vShieldedSpend tx = [] \<and> vShieldedOutput tx = [] \<longrightarrow> valueBalance tx = 0) \<and>
    valueBalance tx \<le> MAX_MONEY \<and> - MAX_MONEY \<le> valueBalance tx \<and>
    v + max 0 (- valueBalance tx) \<le> MAX_MONEY \<and> r = v + max 0 (- valueBalance tx)"
proof -
  have "int64_range (v - valueBalance tx)" if "valueBalance tx \<le> 0" "- MAX_MONEY \<le> valueBalance tx"
    using that assms by (simp add: int64_range_def MAX_MONEY_eq)
  then show ?thesis using assms by (auto simp: check_valueBalance_def rbind_eq_Inr Let_def MoneyRange_def)
qed

text \<open>The rules that depend on the transaction alone, as a predicate.\<close>

definition tx_rules :: "CTransaction \<Rightarrow> bool" where
  "tx_rules tx \<longleftrightarrow>
     (if fOverwintered tx
      then 3 \<le> nVersion tx \<and> nVersionGroupId tx \<in> {OVERWINTER_VERSION_GROUP_ID, SAPLING_VERSION_GROUP_ID} \<and> nExpiryHeight tx < 500000000
      else 1 \<le> nVersion tx) \<and>
     (vin tx \<noteq> [] \<or> vJoinSplit tx \<noteq> [] \<or> vShieldedSpend tx \<noteq> []) \<and>
     (vout tx \<noteq> [] \<or> vJoinSplit tx \<noteq> [] \<or> vShieldedOutput tx \<noteq> []) \<and>
     (\<exists>b. Serialize_tx tx = Inr b \<and> length b \<le> 2000000) \<and>
     nonneg_out tx \<and> total_out tx \<le> MAX_MONEY \<and>
     (\<forall>js \<in> set (vJoinSplit tx). 0 \<le> vpub_new js \<and> (vpub_new js = 0 \<or> vpub_old js = 0)) \<and> total_shielded_in tx \<le> MAX_MONEY \<and>
     (vShieldedSpend tx = [] \<and> vShieldedOutput tx = [] \<longrightarrow> valueBalance tx = 0) \<and>
     distinct (map prevout (vin tx)) \<and> distinct (concat (map js_nullifiers (vJoinSplit tx))) \<and> distinct (map sd_nullifier (vShieldedSpend tx)) \<and>
     (if IsCoinBase tx
      then vJoinSplit tx = [] \<and> vShieldedSpend tx = [] \<and> length (scriptSig (vin tx ! 0)) \<in> {2..100}
      else \<forall>i \<in> set (vin tx). \<not> COutPoint_IsNull (prevout i))"

lemma check_duplicates_iff:
  "check_duplicates tx = Inr () \<longleftrightarrow> distinct (map prevout (vin tx)) \<and> distinct (concat (map js_nullifiers (vJoinSplit tx))) \<and>
    distinct (map sd_nullifier (vShieldedSpend tx))"
proof -
  have "rfold (check_fresh s) xs S = Inr S' \<longleftrightarrow> distinct xs \<and> set xs \<inter> S = {} \<and> S' = S \<union> set xs"
    for s S' and xs :: "uint256 list" and S :: "uint256 set"
    using rfold_fresh [of s "\<lambda>x. x" xs S S'] by simp
  then show ?thesis by (auto simp: check_duplicates_def rbind_eq_Inr rfold_fresh rfold_concat)
qed

lemma check_value_in_iff:
  "check_value_in tx = Inr () \<longleftrightarrow> list_all (\<lambda>js. 0 \<le> vpub_new js) (vJoinSplit tx) \<and> sum_list (map vpub_new (vJoinSplit tx)) \<le> MAX_MONEY \<and>
    (0 \<le> valueBalance tx \<longrightarrow> MoneyRange (wrap64 (sum_list (map vpub_new (vJoinSplit tx)) + valueBalance tx)))"
proof -
  have "rfold check_joinsplit_in (vJoinSplit tx) 0 = Inr r \<longleftrightarrow> list_all (\<lambda>js. 0 \<le> vpub_new js) (vJoinSplit tx) \<and>
      sum_list (map vpub_new (vJoinSplit tx)) \<le> MAX_MONEY \<and> r = sum_list (map vpub_new (vJoinSplit tx))" for r
    using rfold_total [of check_joinsplit_in "\<lambda>_. True" vpub_new 0 "vJoinSplit tx" r, OF check_joinsplit_in_iff]
    by (simp add: list_all_iff MAX_MONEY_eq)
  then show ?thesis by (auto simp: check_value_in_def rbind_eq_Inr)
qed

lemma member_le_total:
  fixes f :: "'a \<Rightarrow> int"
  shows "x \<in> set xs \<Longrightarrow> list_all (\<lambda>x. 0 \<le> f x) xs \<Longrightarrow> f x \<le> sum_list (map f xs)"
proof (induction xs)
  case (Cons y ys)
  have "0 \<le> sum_list (map f ys)" using Cons.prems(2) by (intro sum_list_nonneg) (auto simp: list_all_iff)
  then show ?case using Cons by auto
qed simp

lemma check_version_iff:
  "check_version tx = Inr () \<longleftrightarrow> (if fOverwintered tx
     then 3 \<le> nVersion tx \<and> nVersionGroupId tx \<in> {OVERWINTER_VERSION_GROUP_ID, SAPLING_VERSION_GROUP_ID} \<and> nExpiryHeight tx < 500000000
     else 1 \<le> nVersion tx)"
  by (auto simp: check_version_def rbind_eq_Inr SPROUT_MIN_TX_VERSION_def OVERWINTER_MIN_TX_VERSION_def TX_EXPIRY_HEIGHT_THRESHOLD_def)

text \<open>The value loops together.\<close>

lemma value_checks_iff:
  "(\<exists>v w z. rfold check_txout (vout tx) 0 = Inr v \<and> check_valueBalance tx v = Inr w \<and> rfold check_joinsplit (vJoinSplit tx) w = Inr z) \<and>
     check_value_in tx = Inr () \<longleftrightarrow>
   nonneg_out tx \<and> total_out tx \<le> MAX_MONEY \<and>
     (\<forall>js \<in> set (vJoinSplit tx). 0 \<le> vpub_new js \<and> (vpub_new js = 0 \<or> vpub_old js = 0)) \<and> total_shielded_in tx \<le> MAX_MONEY \<and>
     (vShieldedSpend tx = [] \<and> vShieldedOutput tx = [] \<longrightarrow> valueBalance tx = 0)"
  (is "?L \<longleftrightarrow> ?R")
proof -
  define A B C D where "A = sum_list (map nValue (vout tx))" and "B = max 0 (- valueBalance tx)"
    and "C = sum_list (map vpub_old (vJoinSplit tx))" and "D = sum_list (map vpub_new (vJoinSplit tx))"
  define nA nC nD where "nA = list_all (\<lambda>x. 0 \<le> nValue x) (vout tx)" and "nC = list_all (\<lambda>x. 0 \<le> vpub_old x) (vJoinSplit tx)"
    and "nD = list_all (\<lambda>x. 0 \<le> vpub_new x) (vJoinSplit tx)"
  define xor0 where "xor0 = list_all (\<lambda>x. \<not> (vpub_new x \<noteq> 0 \<and> vpub_old x \<noteq> 0)) (vJoinSplit tx)"
  define vb where "vb = (vShieldedSpend tx = [] \<and> vShieldedOutput tx = [] \<longrightarrow> valueBalance tx = 0)"
  have nn: "nA \<Longrightarrow> 0 \<le> A" "nC \<Longrightarrow> 0 \<le> C" "nD \<Longrightarrow> 0 \<le> D" "0 \<le> B"
    unfolding A_def B_def C_def D_def nA_def nC_def nD_def by (auto simp: list_all_iff intro!: sum_list_nonneg)
  have M: "0 \<le> MAX_MONEY" by (simp add: MAX_MONEY_eq)
  have outs: "rfold check_txout (vout tx) 0 = Inr v \<longleftrightarrow> nA \<and> A \<le> MAX_MONEY \<and> v = A" for v
    using rfold_total [of check_txout "\<lambda>_. True" nValue 0 "vout tx" v, OF check_txout_iff] M by (simp add: list_all_iff A_def nA_def)
  have small: "list_all (\<lambda>x. 0 \<le> vpub_new x \<and> vpub_new x \<le> MAX_MONEY \<and> \<not> (vpub_new x \<noteq> 0 \<and> vpub_old x \<noteq> 0)) (vJoinSplit tx) \<longleftrightarrow> nD \<and> xor0"
    if "nD \<longrightarrow> D \<le> MAX_MONEY"
    using that member_le_total [of _ "vJoinSplit tx" vpub_new] unfolding nD_def xor0_def D_def by (fastforce simp: list_all_iff)
  have js: "rfold check_joinsplit (vJoinSplit tx) w = Inr z \<longleftrightarrow> (nD \<and> xor0) \<and> nC \<and> w + C \<le> MAX_MONEY \<and> z = w + C"
    if "0 \<le> w" "w \<le> MAX_MONEY" "nD \<longrightarrow> D \<le> MAX_MONEY" for w z
    using rfold_total [of check_joinsplit "\<lambda>x. 0 \<le> vpub_new x \<and> vpub_new x \<le> MAX_MONEY \<and> \<not> (vpub_new x \<noteq> 0 \<and> vpub_old x \<noteq> 0)" vpub_old w "vJoinSplit tx" z,
        OF check_joinsplit_iff] that(1,2) unfolding small [OF that(3)] by (simp add: C_def nC_def)
  have vi: "check_value_in tx = Inr () \<longleftrightarrow> nD \<and> D \<le> MAX_MONEY \<and> (0 \<le> valueBalance tx \<longrightarrow> MoneyRange (wrap64 (D + valueBalance tx)))"
    unfolding check_value_in_iff nD_def D_def ..
  have wrap: "wrap64 (D + valueBalance tx) = D + valueBalance tx" if "0 \<le> D" "D \<le> MAX_MONEY" "valueBalance tx \<le> MAX_MONEY" "- MAX_MONEY \<le> valueBalance tx"
    using that by (intro wrap64_id) (simp add: int64_range_def MAX_MONEY_eq)
  have R: "?R \<longleftrightarrow> nA \<and> nC \<and> A + B + C \<le> MAX_MONEY \<and> nD \<and> xor0 \<and> max 0 (valueBalance tx) + D \<le> MAX_MONEY \<and> vb"
    unfolding nonneg_out_def total_out_def total_shielded_in_def nA_def nC_def nD_def xor0_def A_def B_def C_def D_def vb_def
    by (auto simp: list_all_iff)
  show ?thesis
  proof (cases "nA \<and> nC \<and> nD \<and> D \<le> MAX_MONEY")
    case True
    then have pos: "0 \<le> A" "0 \<le> C" "0 \<le> D" using nn by auto
    have bal: "check_valueBalance tx A = Inr w \<longleftrightarrow> vb \<and> valueBalance tx \<le> MAX_MONEY \<and> - MAX_MONEY \<le> valueBalance tx \<and> A + B \<le> MAX_MONEY \<and> w = A + B"
      if "A \<le> MAX_MONEY" for w using check_valueBalance_iff [OF pos(1) that, of tx w] by (simp add: B_def vb_def)
    have "?L \<longleftrightarrow> A \<le> MAX_MONEY \<and> vb \<and> valueBalance tx \<le> MAX_MONEY \<and> - MAX_MONEY \<le> valueBalance tx \<and> A + B \<le> MAX_MONEY \<and> xor0 \<and>
        A + B + C \<le> MAX_MONEY \<and> (0 \<le> valueBalance tx \<longrightarrow> MoneyRange (D + valueBalance tx))"
    proof -
      have 1: "(\<exists>v w z. rfold check_txout (vout tx) 0 = Inr v \<and> check_valueBalance tx v = Inr w \<and> rfold check_joinsplit (vJoinSplit tx) w = Inr z) \<longleftrightarrow>
          A \<le> MAX_MONEY \<and> (\<exists>w. check_valueBalance tx A = Inr w \<and> (\<exists>z. rfold check_joinsplit (vJoinSplit tx) w = Inr z))"
        using True unfolding outs by auto
      have 2: "(\<exists>w. check_valueBalance tx A = Inr w \<and> (\<exists>z. rfold check_joinsplit (vJoinSplit tx) w = Inr z)) \<longleftrightarrow>
          vb \<and> valueBalance tx \<le> MAX_MONEY \<and> - MAX_MONEY \<le> valueBalance tx \<and> A + B \<le> MAX_MONEY \<and> (\<exists>z. rfold check_joinsplit (vJoinSplit tx) (A + B) = Inr z)"
        if "A \<le> MAX_MONEY" unfolding bal [OF that] by auto
      have 3: "(\<exists>z. rfold check_joinsplit (vJoinSplit tx) (A + B) = Inr z) \<longleftrightarrow> xor0 \<and> A + B + C \<le> MAX_MONEY" if "A + B \<le> MAX_MONEY"
        using js [of "A + B"] that True pos nn(4) by simp
      have 4: "check_value_in tx = Inr () \<longleftrightarrow> (0 \<le> valueBalance tx \<longrightarrow> MoneyRange (D + valueBalance tx))"
        if "valueBalance tx \<le> MAX_MONEY" "- MAX_MONEY \<le> valueBalance tx" using True wrap [OF pos(3) _ that] by (simp add: vi)
      show ?thesis unfolding 1 using 2 3 4 by auto
    qed
    also have "\<dots> \<longleftrightarrow> ?R" using True pos nn(4) unfolding R MoneyRange_def B_def by auto
    finally show ?thesis .
  next
    case False
    have "\<not> ?L"
    proof
      assume L: ?L
      then obtain v w z where s: "rfold check_txout (vout tx) 0 = Inr v" "check_valueBalance tx v = Inr w" "rfold check_joinsplit (vJoinSplit tx) w = Inr z"
        "check_value_in tx = Inr ()" by blast
      then have a: "nA" "A \<le> MAX_MONEY" "v = A" "nD" "D \<le> MAX_MONEY" by (simp_all add: outs vi)
      have "0 \<le> A" by (rule nn(1) [OF a(1)])
      then have "0 \<le> w \<and> w \<le> MAX_MONEY" using s(2) check_valueBalance_iff [OF _ a(2), of tx w] a(3) by auto
      then have "nC" using js [of w z] s(3) a(5) by simp
      then show False using False a by simp
    qed
    moreover have "\<not> ?R" using False nn unfolding R by auto
    ultimately show ?thesis by blast
  qed
qed

lemma CheckTransaction_rules: "CheckTransactionWithoutProofVerification tx = Inr () \<longleftrightarrow> tx_rules tx"
proof -
  have cb: "check_coinbase_form tx = Inr () \<longleftrightarrow> (if IsCoinBase tx
      then vJoinSplit tx = [] \<and> vShieldedSpend tx = [] \<and> length (scriptSig (vin tx ! 0)) \<in> {2..100}
      else \<forall>i \<in> set (vin tx). \<not> COutPoint_IsNull (prevout i))"
    by (auto simp: check_coinbase_form_def rbind_eq_Inr rfold_require list_all_iff)
  have "CheckTransactionWithoutProofVerification tx = Inr () \<longleftrightarrow> check_version tx = Inr () \<and>
      \<not> (vin tx = [] \<and> vJoinSplit tx = [] \<and> vShieldedSpend tx = []) \<and> \<not> (vout tx = [] \<and> vJoinSplit tx = [] \<and> vShieldedOutput tx = []) \<and>
      (\<exists>b. Serialize_tx tx = Inr b \<and> length b \<le> 2000000) \<and>
      ((\<exists>v w z. rfold check_txout (vout tx) 0 = Inr v \<and> check_valueBalance tx v = Inr w \<and> rfold check_joinsplit (vJoinSplit tx) w = Inr z) \<and>
        check_value_in tx = Inr ()) \<and> check_duplicates tx = Inr () \<and> check_coinbase_form tx = Inr ()"
    by (auto simp: CheckTransactionWithoutProofVerification_def rbind_eq_Inr MAX_TX_SIZE_AFTER_SAPLING_def MAX_BLOCK_SIZE_def)
  then show ?thesis unfolding value_checks_iff check_version_iff check_duplicates_iff cb tx_rules_def by blast
qed

section \<open>Rejections\<close>

definition fails_with :: "(check_failure \<Rightarrow> bool) \<Rightarrow> check_failure + 'a \<Rightarrow> bool" where
  "fails_with Q r \<longleftrightarrow> (\<forall>e. r = Inl e \<longrightarrow> Q e)"

lemma fails_with_Inr [simp]: "fails_with Q (Inr x)"
  by (simp add: fails_with_def)

lemma fails_with_require [simp]: "fails_with Q (require c l s) \<longleftrightarrow> (c \<or> Q (DoS l REJECT_INVALID s False))"
  by (simp add: fails_with_def require_def)

lemma fails_with_bind: "fails_with Q r \<Longrightarrow> (\<And>x. r = Inr x \<Longrightarrow> fails_with Q (f x)) \<Longrightarrow> fails_with Q (rbind r f)"
  by (auto simp: fails_with_def rbind_eq_Inl)

lemma fails_with_rfold: "(\<And>x s. x \<in> set xs \<Longrightarrow> fails_with Q (f x s)) \<Longrightarrow> fails_with Q (rfold f xs s)"
  by (induction xs arbitrary: s) (auto intro: fails_with_bind)

lemma fails_with_thrown: "Q Thrown \<Longrightarrow> fails_with Q (asserted r)" "Q Thrown \<Longrightarrow> fails_with Q (may_throw r')"
  by (auto simp: fails_with_def asserted_def may_throw_def split: option.splits sum.splits)

text \<open>How a mined transaction is rejected.\<close>

definition mined_failure :: "CTransaction \<Rightarrow> int \<Rightarrow> check_failure \<Rightarrow> bool" where
  "mined_failure tx nHeight e \<longleftrightarrow> e = Thrown \<or> (\<exists>l r. e = DoS l REJECT_INVALID r False \<and>
     (l = 100 \<or> l = 0 \<and> r = ''tx-overwinter-expired'' \<and> IsExpiredTx tx nHeight \<and> \<not> IsExpiredTx tx (nHeight - 1)))"

lemma contextual_mined: "fails_with (mined_failure tx h) (ContextualCheckTransaction V P tx h True ibd)"
proof -
  let ?Q = "mined_failure tx h"
  have q: "?Q Thrown" "?Q (DoS 100 REJECT_INVALID r False)" for r by (simp_all add: mined_failure_def)
  have fmt: "fails_with ?Q (check_format ow sap 100 100 tx)" for ow sap
    by (auto simp: check_format_def q intro!: fails_with_bind)
  have exp: "fails_with ?Q (check_expiry ow 100 h tx)" for ow
    by (auto simp: check_expiry_def q mined_failure_def intro!: fails_with_bind)
  have cb: "fails_with ?Q (check_coinbase_outputs V hw 100 tx)" for hw
    by (auto simp: check_coinbase_outputs_def q intro!: fails_with_rfold split: option.splits)
  have sh: "fails_with ?Q (shielded_sighash (tv_blake V) tx b)" for b
    using q by (auto simp: shielded_sighash_def fails_with_def split: sum.splits sighash_error.splits)
  have js: "fails_with ?Q (check_joinsplit_sig V c p d d' 100 tx)" for c p d d'
    by (simp add: check_joinsplit_sig_def q)
  have sp: "fails_with ?Q (check_sapling_proofs V d 100 tx)" for d
    by (auto simp: check_sapling_proofs_def q split_beta Let_def intro!: fails_with_bind fails_with_rfold)
  show ?thesis unfolding ContextualCheckTransaction_def Let_def if_True
    by (intro fails_with_bind fails_with_thrown q fmt exp cb)
      (auto intro!: fails_with_bind fails_with_thrown sh js sp simp: q split: prod.splits)
qed

section \<open>Formats\<close>

lemma check_format_accepts:
  assumes "check_version tx = Inr ()" "check_format ow sap l l' tx = Inr ()" "check_expiry ow l h tx = Inr ()"
  shows "if ow then fOverwintered tx \<and> \<not> IsExpiredTx tx h \<and> (if sap then nVersion tx = 4 \<and> nVersionGroupId tx = SAPLING_VERSION_GROUP_ID
      else nVersion tx = 3 \<and> nVersionGroupId tx = OVERWINTER_VERSION_GROUP_ID)
    else \<not> fOverwintered tx \<and> 1 \<le> nVersion tx"
  using assms unfolding check_version_iff
  by (auto simp: check_format_def check_expiry_def rbind_eq_Inr SAPLING_MIN_TX_VERSION_def SAPLING_MAX_TX_VERSION_def
      OVERWINTER_MIN_TX_VERSION_def OVERWINTER_MAX_TX_VERSION_def split: if_splits)

section \<open>Properties\<close>

text \<open>C20: \<^verbatim>\<open>CheckTransactionWithoutProofVerification\<close> accepts exactly the transactions that satisfy the declarative rules
  \<open>tx_rules\<close>: version and expiry ranges, some input and some output, the size limit, non-negative values whose
  mathematical totals stay within \<^verbatim>\<open>MAX_MONEY\<close>, joinsplits that move value one way, no balance without Sapling parts, no
  input or nullifier twice, and the form of coinbase and other inputs.\<close>

theorem CheckTransaction_exact: "CheckTransactionWithoutProofVerification tx = Inr () \<longleftrightarrow> tx_rules tx"
  by (rule CheckTransaction_rules)

text \<open>C21: After a transaction has passed the rules without context, \<^verbatim>\<open>GetValueOut\<close> and \<^verbatim>\<open>GetShieldedValueIn\<close>, which the later
  stages call, do not throw and return its exact totals, both in the money range.\<close>

theorem accepted_values_defined:
  assumes "CheckTransactionWithoutProofVerification tx = Inr ()"
  shows "GetValueOut tx = Inr (total_out tx) \<and> GetShieldedValueIn tx = Inr (total_shielded_in tx) \<and>
    MoneyRange (total_out tx) \<and> MoneyRange (total_shielded_in tx)"
proof -
  have r: "tx_rules tx" using assms by (simp add: CheckTransaction_rules)
  define A C D where "A = sum_list (map nValue (vout tx))" and "C = sum_list (map vpub_old (vJoinSplit tx))"
    and "D = sum_list (map vpub_new (vJoinSplit tx))"
  have n: "0 \<le> A" "0 \<le> C" "0 \<le> D" using r unfolding A_def C_def D_def
    by (auto simp: tx_rules_def nonneg_out_def intro!: sum_list_nonneg)
  have t: "total_out tx = A + max 0 (- valueBalance tx) + C" "total_shielded_in tx = max 0 (valueBalance tx) + D"
    by (simp_all add: total_out_def total_shielded_in_def A_def C_def D_def)
  have m: "total_out tx \<le> MAX_MONEY" "total_shielded_in tx \<le> MAX_MONEY" "nonneg_out tx" "\<forall>js \<in> set (vJoinSplit tx). 0 \<le> vpub_new js"
    using r by (simp_all add: tx_rules_def)
  have "- valueBalance tx \<le> MAX_MONEY" "valueBalance tx \<le> MAX_MONEY" using m(1,2) n unfolding t by linarith+
  then have "int64_range (valueBalance tx)" by (simp add: int64_range_def MAX_MONEY_eq)
  then show ?thesis using m n t by (simp add: GetValueOut_eq GetShieldedValueIn_eq MoneyRange_def)
qed

definition sample_spend :: CTransaction where
  "sample_spend = CTransaction0\<lparr>vin := [\<lparr>prevout = COutPoint.make 1 0, scriptSig = [], nSequence = - 1\<rparr>],
     vout := [\<lparr>nValue = 5, scriptPubKey = [0x51]\<rparr>]\<rparr>"

lemmas sample_spend_defs = sample_spend_def CTransaction0_def CMutableTransaction0_def CMutableTransaction.defs COutPoint.defs

lemma sample_spend_size: "\<exists>b. Serialize_tx sample_spend = Inr b \<and> length b \<le> 100"
  by (simp add: sample_spend_defs Serialize_tx_def GetHeader_def Let_def isOverwinterV3_def isSaplingV4_def
      Serialize_vector_def WriteCompactSize_def Serialize_CTxIn_def Serialize_CTxOut_def Serialize_COutPoint_def
      Serialize_bytes_def Serialize_uint256_def ser_writedata32_def Serialize_int64_def ser_writedata64_def ser_writedata8_def)

lemma sample_spend_rules: "CheckTransactionWithoutProofVerification sample_spend = Inr ()"
proof -
  have "\<exists>b. Serialize_tx sample_spend = Inr b \<and> length b \<le> 2000000" using sample_spend_size by auto
  then show ?thesis unfolding CheckTransaction_rules tx_rules_def
    by (simp add: sample_spend_defs nonneg_out_def total_out_def total_shielded_in_def MAX_MONEY_eq IsCoinBase_def COutPoint_IsNull_def)
qed

theorem accepted_values_defined_witness:
  "CheckTransactionWithoutProofVerification sample_spend = Inr () \<and> GetValueOut sample_spend = Inr 5"
  using accepted_values_defined [OF sample_spend_rules] sample_spend_rules
  by (simp add: total_out_def sample_spend_defs)

text \<open>C22: Each epoch accepts one transaction format.  A transaction that passes both stages is, when Overwinter and
  Sapling are active, a version 4 transaction of the Sapling group, with Overwinter alone a version 3 transaction of its
  group, both flagged as overwintered and not expired, and before Overwinter a transaction without that flag; so a
  transaction of one epoch is never accepted in another.\<close>

theorem epoch_format:
  assumes "CheckTransactionWithoutProofVerification tx = Inr ()" "ContextualCheckTransaction V P tx h isMined ibd = Inr ()"
    "NetworkUpgradeActive P h UPGRADE_OVERWINTER = Some ow" "NetworkUpgradeActive P h UPGRADE_SAPLING = Some sap"
  shows "if ow then fOverwintered tx \<and> \<not> IsExpiredTx tx h \<and> (if sap then nVersion tx = 4 \<and> nVersionGroupId tx = SAPLING_VERSION_GROUP_ID
      else nVersion tx = 3 \<and> nVersionGroupId tx = OVERWINTER_VERSION_GROUP_ID)
    else \<not> fOverwintered tx \<and> 1 \<le> nVersion tx"
proof (rule check_format_accepts)
  show "check_version tx = Inr ()" using assms(1) by (auto simp: CheckTransactionWithoutProofVerification_def rbind_eq_Inr)
  show "check_format ow sap (if isMined then 100 else 10) (if isMined then 100 else if ibd then 0 else 10) tx = Inr ()"
    "check_expiry ow (if isMined then 100 else 10) h tx = Inr ()"
    using assms(2-4) by (auto simp: ContextualCheckTransaction_def rbind_eq_Inr Let_def)
qed

definition sample_verifier :: "unit tx_verifier" where
  "sample_verifier = \<lparr>tv_blake = (\<lambda>_ _. 0), tv_decrypt_out = (\<lambda>_ _ _ _ _. None), tv_decrypt_note = (\<lambda>_ _ _ _ _. False),
     tv_sign_verify = (\<lambda>_ _ _. False), tv_ctx_init = (), tv_check_spend = (\<lambda>_ _ _. (False, ())),
     tv_check_output = (\<lambda>_ _. (False, ())), tv_final_check = (\<lambda>_ _ _ _. False)\<rparr>"

lemma sample_spend_contextual: "ContextualCheckTransaction sample_verifier MainParams sample_spend 1 True False = Inr ()"
proof -
  obtain b where b: "Serialize_tx sample_spend = Inr b" "length b \<le> 100" using sample_spend_size by blast
  have u: "NetworkUpgradeActive MainParams 1 u = Some False" if "u \<in> {UPGRADE_OVERWINTER, UPGRADE_SAPLING, UPGRADE_HEARTWOOD}" for u
    using that by (auto simp: NetworkUpgradeActive_def NetworkUpgradeState_def MainParams_def NO_ACTIVATION_HEIGHT_def)
  have "\<exists>c. CurrentEpochBranchId 1 MainParams = Some c" by (simp add: CurrentEpochBranchId_def CurrentEpoch_def UpgradeIndices_def
      NetworkUpgradeActive_def NetworkUpgradeState_def MainParams_def NO_ACTIVATION_HEIGHT_def)
  moreover have "\<not> IsCoinBase sample_spend" by (simp add: sample_spend_defs IsCoinBase_def COutPoint_IsNull_def)
  moreover have "vJoinSplit sample_spend = []" "vShieldedSpend sample_spend = []" "vShieldedOutput sample_spend = []" "\<not> fOverwintered sample_spend"
    by (simp_all add: sample_spend_defs)
  ultimately show ?thesis using b by (auto simp: ContextualCheckTransaction_def u asserted_def may_throw_def check_format_def require_def
      check_expiry_def check_coinbase_outputs_def check_joinsplit_sig_def check_sapling_proofs_def MAX_TX_SIZE_BEFORE_SAPLING_def)
qed

theorem epoch_format_witness: "\<not> fOverwintered sample_spend \<and> 1 \<le> nVersion sample_spend"
  using epoch_format [OF sample_spend_rules sample_spend_contextual, of False False]
  by (simp add: NetworkUpgradeActive_def NetworkUpgradeState_def MainParams_def NO_ACTIVATION_HEIGHT_def)

text \<open>C23: A mined transaction that breaks a contextual rule is rejected as invalid without a hint of corruption and with
  the score 100 that bans the peer, except for an expired transaction that was not yet expired at the previous height, whose score is 0;
  and reporting a rejection to a fresh \<^verbatim>\<open>CValidationState\<close> leaves it invalid with that score.\<close>

theorem mined_rejections:
  assumes "ContextualCheckTransaction V P tx h True ibd = Inl (DoS l c r k)"
  shows "c = REJECT_INVALID \<and> \<not> k \<and>
    (l = 100 \<or> l = 0 \<and> r = ''tx-overwinter-expired'' \<and> IsExpiredTx tx h \<and> \<not> IsExpiredTx tx (h - 1)) \<and>
    report (ContextualCheckTransaction V P tx h True ibd) CValidationState0 =
      Some (False, \<lparr>vs_mode = MODE_INVALID, vs_nDoS = l, vs_strRejectReason = r, vs_chRejectCode = REJECT_INVALID, vs_corruptionPossible = False\<rparr>)"
  using contextual_mined [of tx h V P ibd] assms
  by (auto simp: fails_with_def mined_failure_def state_DoS_def CValidationState0_def Let_def)

theorem mined_rejections_witness:
  "report (ContextualCheckTransaction sample_verifier MainParams (sample_spend\<lparr>fOverwintered := True\<rparr>) 1 True False) CValidationState0 =
    Some (False, \<lparr>vs_mode = MODE_INVALID, vs_nDoS = 100, vs_strRejectReason = ''tx-overwinter-not-active'',
      vs_chRejectCode = REJECT_INVALID, vs_corruptionPossible = False\<rparr>)"
proof -
  have "ContextualCheckTransaction sample_verifier MainParams (sample_spend\<lparr>fOverwintered := True\<rparr>) 1 True False =
      Inl (DoS 100 REJECT_INVALID ''tx-overwinter-not-active'' False)"
    by (simp add: ContextualCheckTransaction_def NetworkUpgradeActive_def NetworkUpgradeState_def MainParams_def NO_ACTIVATION_HEIGHT_def
        asserted_def check_format_def require_def)
  from mined_rejections [OF this] show ?thesis by simp
qed

end
