(* ===== verification/Spec2Isabelle.thy ===== *)
theory Spec2Isabelle
  imports Zc_Script_Verify Zc_SigHash_Binding Zc_SigCache Zc_Merkle_Tree Zc_Compress Zc_History Zc_Pow Zc_CheckTx
begin

text \<open>
  A verification development of the consensus core of \<^verbatim>\<open>zcashd\<close>: how blocks, transactions and scripts are read and
  written, hashed and checked, and how the chain state (unspent outputs, note commitment trees, nullifiers, history
  tree, block index) is kept.

  Paths in the texts are those of the repository's \<^verbatim>\<open>src\<close> directory.

  \<^bold>\<open>How the parts interact.\<close>  Bytes from the network or the disk go through the serialization layer into
  transactions and blocks.  The transaction rules of \<^verbatim>\<open>main.cpp\<close> check a transaction by itself and against
  the network upgrade of a height.  Its transparent inputs are run through the script interpreter, which asks a
  signature checker; the checker computes a signature hash and consults the signature cache.  Its inputs, anchors and
  nullifiers are looked up in a stack of coin views over the database.  The block index orders headers by predecessor,
  the active chain is an array over it, and the difficulty rules compute the next target from it.

  \<^bold>\<open>Theories and sources.\<close>

  \<^item> \<^verbatim>\<open>Zc_Prelude\<close>: machine types, little-endian views of integers, the error monad \<^verbatim>\<open>rbind\<close> and \<^verbatim>\<open>rfold\<close>, the collections
    of simplification rules.
  \<^item> \<^verbatim>\<open>Zc_Serialize\<close>: \<^verbatim>\<open>serialize.h\<close> and \<^verbatim>\<open>streams.h\<close>.  The locale \<^verbatim>\<open>codec\<close> is the contract between a reader and a writer; every
    pair of the development is an interpretation of it.
  \<^item> \<^verbatim>\<open>Zc_Hasher\<close>, \<^verbatim>\<open>Zc_Sha2\<close>, \<^verbatim>\<open>Zc_Hash\<close>: \<^verbatim>\<open>crypto/common.h\<close>, \<^verbatim>\<open>crypto/sha256.cpp\<close>, \<^verbatim>\<open>sha512.cpp\<close>, \<^verbatim>\<open>sha1.cpp\<close>, \<^verbatim>\<open>ripemd160.cpp\<close>,
    \<^verbatim>\<open>hmac_sha256.cpp\<close>, \<^verbatim>\<open>hmac_sha512.cpp\<close>, \<^verbatim>\<open>hash.h\<close>, \<^verbatim>\<open>hash.cpp\<close>.  The locale \<^verbatim>\<open>block_hasher\<close> is the buffering scheme the four classes share, the
    locale \<^verbatim>\<open>stream_hasher\<close> is what their clients rely on.  C37 shows SHA-256 against the standard.
  \<^item> \<^verbatim>\<open>Zc_Transaction\<close>: \<^verbatim>\<open>amount.h\<close>, \<^verbatim>\<open>amount.cpp\<close>, \<^verbatim>\<open>primitives/transaction.h\<close>, \<^verbatim>\<open>primitives/transaction.cpp\<close>, \<^verbatim>\<open>zcash/Proof.hpp\<close>.  C1 shows that the four
    wire formats are canonical, C3 that the value totals are exact or throw, C38 what the moving constructor loses.
  \<^item> \<^verbatim>\<open>Zc_Script\<close>: \<^verbatim>\<open>script/script.h\<close>, \<^verbatim>\<open>script/script.cpp\<close>, \<^verbatim>\<open>script/standard.cpp\<close> and the sizes of \<^verbatim>\<open>pubkey.h\<close>.  C2 is the codec of script numbers.
  \<^item> \<^verbatim>\<open>Zc_Interpreter\<close>, \<^verbatim>\<open>Zc_Script_Verify\<close>: the first half of \<^verbatim>\<open>script/interpreter.cpp\<close>, one definition per group of opcodes.  C24
    to C28 and C34: flags only restrict, resource limits, multisignature matching, the two standard templates,
    unspendable scripts.
  \<^item> \<^verbatim>\<open>Zc_SigHash\<close>, \<^verbatim>\<open>Zc_SigHash_Binding\<close>, \<^verbatim>\<open>Zc_SigCache\<close>: the second half of \<^verbatim>\<open>script/interpreter.cpp\<close>, \<^verbatim>\<open>script/sigcache.cpp\<close> and the part of
    \<^verbatim>\<open>memusage.h\<close> the cache uses.  C29 to C33: what a signature hash binds and leaves out, and the transparency of both caches.
  \<^item> \<^verbatim>\<open>Zc_Merkle_Tree\<close>: \<^verbatim>\<open>zcash/IncrementalMerkleTree.hpp\<close> and \<^verbatim>\<open>.cpp\<close>, over the locale \<^verbatim>\<open>merkle_hash\<close>, which is interpreted on the Sprout node
    hash.  C4, C5, C35, C39: roots, witnesses, the wire format, the wrong size of very large trees.
  \<^item> \<^verbatim>\<open>Zc_Compress\<close>, \<^verbatim>\<open>Zc_Coins\<close>: \<^verbatim>\<open>compressor.h\<close>, \<^verbatim>\<open>compressor.cpp\<close> and class \<^verbatim>\<open>CCoins\<close> of \<^verbatim>\<open>coins.h\<close>.  C36 is the format of coins on disk.
  \<^item> \<^verbatim>\<open>Zc_WriteBack\<close>, \<^verbatim>\<open>Zc_CoinsView\<close>, \<^verbatim>\<open>Zc_View_Refine\<close>: the caches of \<^verbatim>\<open>coins.cpp\<close> and the database of \<^verbatim>\<open>txdb.cpp\<close>.  The locale \<^verbatim>\<open>write_back\<close> is the
    contract of one layer of a write-back cache, interpreted for coins, anchors and nullifiers.  \<^verbatim>\<open>state_of\<close> is the
    abstract chain state a stack of views shows and \<^verbatim>\<open>view_ok\<close> its invariant; every operation is proved to refine the
    operation on that state.  C6 and C7: flushing, and what a transaction requires.
  \<^item> \<^verbatim>\<open>Zc_History\<close>: the history tree of \<^verbatim>\<open>coins.cpp\<close> and \<^verbatim>\<open>zcash/History.cpp\<close>.  C8: the walk over the array ends and finds the peaks.
  \<^item> \<^verbatim>\<open>Zc_Consensus\<close>: \<^verbatim>\<open>consensus/params.cpp\<close>, \<^verbatim>\<open>consensus/upgrades.cpp\<close>, the main network of \<^verbatim>\<open>chainparams.cpp\<close> and \<^verbatim>\<open>GetBlockSubsidy\<close>.  C9 bounds the issuance.
  \<^item> \<^verbatim>\<open>Zc_CheckTx\<close>: the transaction rules of \<^verbatim>\<open>main.cpp\<close> and \<^verbatim>\<open>consensus/validation.h\<close>.  C20 to C23.
  \<^item> \<^verbatim>\<open>Zc_Block\<close>: \<^verbatim>\<open>primitives/block.h\<close>, \<^verbatim>\<open>primitives/block.cpp\<close>.  C10, C18, C19: the Merkle tree and the block format.
  \<^item> \<^verbatim>\<open>Zc_Arith256\<close>, \<^verbatim>\<open>Zc_Pow\<close>: \<^verbatim>\<open>arith_uint256.h\<close>, \<^verbatim>\<open>arith_uint256.cpp\<close>, \<^verbatim>\<open>pow.cpp\<close>.  C14 to C17: the limb routines refine 256-bit words, and the
    difficulty rules compute the intended numbers.
  \<^item> \<^verbatim>\<open>Zc_Chain\<close>: \<^verbatim>\<open>chain.h\<close>, \<^verbatim>\<open>chain.cpp\<close>.  C11 to C13: skip pointers, the active chain, fork points.

  \<^bold>\<open>How the code is represented.\<close>  A class is a record with the source's fields, an enumeration a datatype, an
  unsigned integer a machine word.  A signed integer is an \<^typ>\<open>int\<close>, with the wrap-around written out wherever a value
  could leave its range.  Exceptions and error returns are \<^verbatim>\<open>Inl\<close>; where an operation can only fail by an assertion the
  result is an option.  Objects are values: operations return the updated object, and a chain of \<^verbatim>\<open>base\<close> pointers is a
  list of caches.  The block index is a map from pointers to entries, because its links are shared.  Words are read as
  the numbers of their little-endian bytes, so \<^typ>\<open>uint256\<close> stands for the blob of the same name.

  \<^bold>\<open>Loops.\<close>  Loops over data are structural recursion, or \<^verbatim>\<open>function\<close>s with a termination measure.  \<^verbatim>\<open>SetTip\<close>, \<^verbatim>\<open>FindFork\<close>,
  \<^verbatim>\<open>GetLocator\<close> and the walk of \<^verbatim>\<open>PreloadHistoryTree\<close> follow pointers or wrap-around positions, and are partial functions whose
  properties include that they return.  The eviction loop of the signature cache depends on random buckets; its rounds are a list,
  and C31 says which lists make it end.  There is no fuel.  Counters of the Merkle tree of a block are natural
  numbers, as a block holds far fewer than \<open>2 ^ 31\<close> transactions; the step of \<^verbatim>\<open>GetLocator\<close> is an unbounded integer, as it
  stays below \<open>2 ^ 31\<close> for every chain with fewer than \<open>2 ^ 31\<close> blocks.

  \<^bold>\<open>Parameters.\<close>  Code outside the sources is an argument of the definitions that use it: ECDSA and the recovery of
  public keys (\<^verbatim>\<open>secp256k1\<close>), BLAKE2b and Ed25519 (\<^verbatim>\<open>libsodium\<close>), the Pedersen hash, the proof verifiers and the mountain
  range hashing (the Rust library).  The laws that are assumed of them are hypotheses of the theorems: recovery inverts
  the compression of a key (C36).  Collision resistance is never assumed: C10, C29 and C30 name the colliding inputs instead.
  The constant tables of empty roots (\<^verbatim>\<open>EmptyRoot\<close>) are not transcribed; C4 and C5 assume that
  the entry of each level is the root of an empty subtree, and their witnesses use a hash for which this is computed.

  \<^bold>\<open>Not modelled.\<close>  Block and undo files, connecting and disconnecting blocks, chain selection, the mempool, message
  handling, the wallet, RPC and the network; \<^verbatim>\<open>leveldb\<close>, which is a map whose writes succeed; locks, logging and text
  output; the Equihash verifier; memory accounting other than that of the signature cache; the networks other than the
  main one.
\<close>

end
